(* ===== verification/Prelude.thy ===== *)
theory Prelude
  imports Main "HOL-Library.Word"
begin

unbundle bit_operations_syntax

text \<open>
  What every component shares: the names of the Go integer types, Go errors and
  panics as values, the byte reader that the parsers of \<open>internal/wire\<close> consume,
  the wrap-around of \<open>int64\<close> and truncated division, and the generic lemmas on
  byte strings, lists and words.
\<close>

section \<open>Types\<close>

type_synonym byte = "8 word"
type_synonym uint8 = "8 word"
type_synonym uint16 = "16 word"
type_synonym uint32 = "32 word"
type_synonym uint64 = "64 word"

text \<open>
  An error value of the program: \<open>io.EOF\<close> and \<open>io.ErrUnexpectedEOF\<close> of the
  standard library, \<open>errors.New(msg)\<close>, a \<open>qerr.ErrorCode\<close> used as an error, and
  a \<open>*qerr.QuicError\<close> with code and message. A panic ends the call that raises it,
  so it takes the same place in the model, as a value of its own.
\<close>

type_synonym ErrorCode = uint32

datatype go_error =
    IoEOF
  | IoErrUnexpectedEOF
  | GoErr string
  | QuicErrCode ErrorCode
  | QuicError ErrorCode string
  | Panic string

text \<open>Facts that rewrite the model's readers and writers.\<close>

named_theorems wire_simps

section \<open>Results\<close>

text \<open>
  \<open>andThen m f\<close> is the Go idiom \<open>x, err := m; if err != nil { return nil, err }\<close>
  followed by \<open>f\<close>, for calls that return a value and leave a reader behind.
  \<open>okThen\<close> is the same for calls without a reader.
\<close>

definition andThen ::
  "go_error + ('a \<times> 's) \<Rightarrow> ('a \<Rightarrow> 's \<Rightarrow> go_error + 'b) \<Rightarrow> go_error + 'b" where
  "andThen m f = (case m of Inl e \<Rightarrow> Inl e | Inr (x, s) \<Rightarrow> f x s)"

definition okThen :: "go_error + 'a \<Rightarrow> ('a \<Rightarrow> go_error + 'b) \<Rightarrow> go_error + 'b" where
  "okThen m f = (case m of Inl e \<Rightarrow> Inl e | Inr x \<Rightarrow> f x)"

lemma andThen_simps [simp, wire_simps]:
  "andThen (Inl e) f = Inl e"
  "andThen (Inr (x, s)) f = f x s"
  by (simp_all add: andThen_def)

lemma okThen_simps [simp, wire_simps]:
  "okThen (Inl e) g = Inl e"
  "okThen (Inr x) g = g x"
  by (simp_all add: okThen_def)

lemma andThen_Inr_iff:
  "andThen m f = Inr y \<longleftrightarrow> (\<exists>x s. m = Inr (x, s) \<and> f x s = Inr y)"
  by (auto simp: andThen_def split: sum.splits)

lemma okThen_Inr_iff: "okThen m f = Inr y \<longleftrightarrow> (\<exists>x. m = Inr x \<and> f x = Inr y)"
  by (auto simp: okThen_def split: sum.splits)

lemma andThen_InrE:
  assumes "andThen m f = Inr y"
  obtains x s where "m = Inr (x, s)" "f x s = Inr y"
  using assms by (auto simp: andThen_Inr_iff)

lemma okThen_InrE:
  assumes "okThen m f = Inr y"
  obtains x where "m = Inr x" "f x = Inr y"
  using assms by (auto simp: okThen_Inr_iff)

lemma andThen_cong [fundef_cong]:
  assumes "m = m'" and "\<And>x s. m' = Inr (x, s) \<Longrightarrow> f x s = g x s"
  shows "andThen m f = andThen m' g"
  using assms by (auto simp: andThen_def split: sum.splits)

section \<open>The byte reader\<close>

text \<open>
  A \<open>*bytes.Reader\<close> is the list of the bytes not read yet. \<open>ReadByte\<close> fails with
  \<open>io.EOF\<close> at the end; \<open>io.ReadFull\<close> of \<open>n\<close> bytes fails with \<open>io.EOF\<close> when
  nothing was left and with \<open>io.ErrUnexpectedEOF\<close> when fewer than \<open>n\<close> were.
\<close>

type_synonym reader = "byte list"

fun ReadByte :: "reader \<Rightarrow> go_error + (byte \<times> reader)" where
  "ReadByte [] = Inl IoEOF"
| "ReadByte (b # bs) = Inr (b, bs)"

definition ReadFull :: "nat \<Rightarrow> reader \<Rightarrow> go_error + (byte list \<times> reader)" where
  "ReadFull n r =
     (if n \<le> length r then Inr (take n r, drop n r)
      else if r = [] then Inl IoEOF else Inl IoErrUnexpectedEOF)"

lemma ReadByte_Cons [wire_simps]: "ReadByte (b # bs) = Inr (b, bs)"
  by simp

lemma ReadByte_Inr_iff: "ReadByte r = Inr (b, r') \<longleftrightarrow> r = b # r'"
  by (cases r) auto

lemma ReadFull_append [wire_simps]:
  "length bs = n \<Longrightarrow> ReadFull n (bs @ r) = Inr (bs, r)"
  by (auto simp: ReadFull_def)

lemma ReadFull_length:
  "ReadFull n r = Inr (bs, r') \<Longrightarrow> length bs = n \<and> r = bs @ r'"
  by (auto simp: ReadFull_def split: if_splits)

lemma length_ReadByte: "ReadByte r = Inr (b, r') \<Longrightarrow> length r = Suc (length r')"
  by (cases r) auto

section \<open>Signed arithmetic\<close>

text \<open>
  Go's \<open>int\<close>, \<open>int64\<close> and \<open>time.Duration\<close> are 64 bits wide; \<open>int64\<close> is the
  wrap-around of a result. Division truncates towards zero.
\<close>

definition int64 :: "int \<Rightarrow> int" where
  "int64 x = (x + 2 ^ 63) mod 2 ^ 64 - 2 ^ 63"

lemma int64_id [simp]: "- (2 ^ 63) \<le> x \<Longrightarrow> x < 2 ^ 63 \<Longrightarrow> int64 x = x"
  by (simp add: int64_def)

lemma int64_range: "- (2 ^ 63) \<le> int64 x \<and> int64 x < 2 ^ 63"
  by (simp add: int64_def)

definition quot :: "int \<Rightarrow> int \<Rightarrow> int" where
  "quot a b = sgn a * sgn b * (\<bar>a\<bar> div \<bar>b\<bar>)"

lemma quot_nonneg [simp]: "0 \<le> a \<Longrightarrow> 0 < b \<Longrightarrow> quot a b = a div b"
  by (cases "a = 0") (simp_all add: quot_def)

section \<open>Byte strings as numbers\<close>

text \<open>
  The specification of both byte orders: the value of a byte string, least
  significant byte first, and the \<open>n\<close> bytes of a number.
\<close>

fun le_val :: "byte list \<Rightarrow> nat" where
  "le_val [] = 0"
| "le_val (b # bs) = unat b + 256 * le_val bs"

fun le_bytes :: "nat \<Rightarrow> nat \<Rightarrow> byte list" where
  "le_bytes 0 x = []"
| "le_bytes (Suc n) x = of_nat x # le_bytes n (x div 256)"

lemma length_le_bytes [simp]: "length (le_bytes n x) = n"
  by (induction n arbitrary: x) auto

lemma unat_byte_of_nat [simp]: "unat (of_nat x :: byte) = x mod 256"
  by (simp add: unat_of_nat)

lemma le_val_le_bytes: "le_val (le_bytes n x) = x mod 256 ^ n"
proof (induction n arbitrary: x)
  case (Suc n)
  have "le_val (le_bytes (Suc n) x) = x mod 256 + 256 * (x div 256 mod 256 ^ n)"
    by (simp add: Suc)
  also have "\<dots> = x mod (256 * 256 ^ n)"
    by (simp add: mod_mult2_eq)
  finally show ?case by simp
qed simp

lemma le_val_bound: "le_val bs < 256 ^ length bs"
proof (induction bs)
  case (Cons b bs)
  have "unat b < 256" using unsigned_less [of b] by simp
  with Cons have "unat b + 256 * le_val bs < 256 + 256 * (256 ^ length bs - 1)"
    by (intro add_less_le_mono mult_le_mono2) auto
  also have "\<dots> = 256 ^ length (b # bs)"
    by (simp add: algebra_simps)
  finally show ?case by simp
qed simp

lemma le_bytes_le_val: "le_bytes (length bs) (le_val bs) = bs"
proof (induction bs)
  case (Cons b bs)
  have b: "unat b < 256" using unsigned_less [of b] by simp
  then have "(unat b + 256 * le_val bs) div 256 = le_val bs" by simp
  moreover have "unat (of_nat (unat b + 256 * le_val bs) :: byte) = unat b"
    using b by (simp only: unat_byte_of_nat) simp
  then have "(of_nat (unat b + 256 * le_val bs) :: byte) = b"
    by (simp only: word_unat_eq_iff)
  ultimately show ?case using Cons by simp
qed simp

lemma le_val_append: "le_val (xs @ ys) = le_val xs + 256 ^ length xs * le_val ys"
  by (induction xs) (auto simp: algebra_simps)

section \<open>Words\<close>

lemma unat_byte_less: "unat (b :: byte) < 256"
  using unsigned_less [of b] by simp

lemma unat_uint16_less: "unat (h :: uint16) < 65536"
  using unsigned_less [of h] by simp

lemma unat_uint64_less: "unat (i :: uint64) < 18446744073709551616"
  using unsigned_less [of i] by simp

lemma word_eq_of_nat: "unat w = n \<Longrightarrow> w = of_nat n"
  by auto

lemma ucast_as_nat: "ucast w = of_nat (unat w)"
  by simp

lemma unat_take_bit: "unat (take_bit n w) = unat w mod 2 ^ n"
  by (simp only: unsigned_take_bit_eq) (simp only: take_bit_eq_mod)

lemma unat_drop_bit: "unat (drop_bit n w) = unat w div 2 ^ n"
  by (simp only: unat_drop_bit_eq) (simp only: drop_bit_eq_div)

lemma unat_and_mask: "unat (w AND mask n) = unat w mod 2 ^ n"
  by (simp only: take_bit_eq_mask [symmetric] unat_take_bit)

lemma unat_and_255: "unat (w AND 255) = unat w mod 256"
  using unat_and_mask [of w 8] by (simp add: mask_eq_exp_minus_1)

lemma unat_push_bit_1: "n < LENGTH('a) \<Longrightarrow> unat (push_bit n 1 :: 'a::len word) = 2 ^ n"
  by (simp add: push_bit_eq_mult unat_eq_nat_uint uint_2p word_gt_0 nat_power_eq)

lemma unat_ucast_down: "unat (ucast w :: 'b::len word) = unat (w :: 'a::len word) mod 2 ^ LENGTH('b)"
  by (simp only: ucast_as_nat unat_of_nat)

lemma ucast_down_up:
  fixes w :: "'a::len word"
  assumes "unat w < 2 ^ LENGTH('b)"
  shows "(ucast (ucast w :: 'b::len word) :: 'a word) = w"
proof -
  have "unat w mod 2 ^ LENGTH('a) = unat w" by (rule mod_less) (rule unsigned_less)
  with assms show ?thesis by (simp only: word_unat_eq_iff unat_ucast_down) simp
qed

section \<open>Lists\<close>

lemma set_butlast_last: "xs \<noteq> [] \<Longrightarrow> set xs = insert (last xs) (set (butlast xs))"
  by (metis append_butlast_last_id list.simps(15) rotate1.simps(2) set_rotate1)

end
