(* ===== verification/Protocol.thy ===== *)
theory Protocol
  imports Prelude
begin

unbundle bit_operations_syntax

text \<open>
  Package \<open>internal/protocol\<close> (packet numbers, versions, constants) and the minimum
  and maximum helpers of \<open>internal/utils/minmax.go\<close>. Packet numbers are sent
  truncated; the main results say when the receiver reconstructs them.
\<close>

section \<open>Types and constants\<close>

type_synonym PacketNumber = uint64
type_synonym PacketNumberLen = uint8
type_synonym ConnectionID = uint64
type_synonym StreamID = uint32
type_synonym PathID = uint8
type_synonym ByteCount = uint64
type_synonym VersionNumber = int
type_synonym Duration = int
type_synonym Time = int

datatype Perspective = PerspectiveServer | PerspectiveClient

datatype EncryptionLevel =
    EncryptionUnspecified
  | EncryptionUnencrypted
  | EncryptionSecure
  | EncryptionForwardSecure

text \<open>The levels are the constants 0 to 3 of an integer type and are compared as such.\<close>

fun levelNumber :: "EncryptionLevel \<Rightarrow> nat" where
  "levelNumber EncryptionUnspecified = 0"
| "levelNumber EncryptionUnencrypted = 1"
| "levelNumber EncryptionSecure = 2"
| "levelNumber EncryptionForwardSecure = 3"

instantiation EncryptionLevel :: linorder
begin

definition less_eq_EncryptionLevel :: "EncryptionLevel \<Rightarrow> EncryptionLevel \<Rightarrow> bool" where
  "less_eq_EncryptionLevel a b \<longleftrightarrow> levelNumber a \<le> levelNumber b"

definition less_EncryptionLevel :: "EncryptionLevel \<Rightarrow> EncryptionLevel \<Rightarrow> bool" where
  "less_EncryptionLevel a b \<longleftrightarrow> levelNumber a < levelNumber b"

instance
proof
  fix a b :: EncryptionLevel
  show "a \<le> b \<Longrightarrow> b \<le> a \<Longrightarrow> a = b"
    by (cases a; cases b) (simp_all add: less_eq_EncryptionLevel_def)
qed (auto simp: less_eq_EncryptionLevel_def less_EncryptionLevel_def)

end

definition PacketNumberLenInvalid :: PacketNumberLen where "PacketNumberLenInvalid = 0"
definition PacketNumberLen1 :: PacketNumberLen where "PacketNumberLen1 = 1"
definition PacketNumberLen2 :: PacketNumberLen where "PacketNumberLen2 = 2"
definition PacketNumberLen4 :: PacketNumberLen where "PacketNumberLen4 = 4"
definition PacketNumberLen6 :: PacketNumberLen where "PacketNumberLen6 = 6"

lemmas PacketNumberLen_defs =
  PacketNumberLenInvalid_def PacketNumberLen1_def PacketNumberLen2_def
  PacketNumberLen4_def PacketNumberLen6_def

definition InitialPathID :: PathID where "InitialPathID = 0"
definition MaxByteCount_const :: ByteCount where "MaxByteCount_const = - 1"
definition DefaultTCPMSS :: ByteCount where "DefaultTCPMSS = 1460"
definition MaxPacketSize :: ByteCount where "MaxPacketSize = 1350"
definition DefaultMaxCongestionWindow :: nat where "DefaultMaxCongestionWindow = 2500"
definition InitialCongestionWindow :: PacketNumber where "InitialCongestionWindow = 64"
definition MaxTrackedSkippedPackets :: nat where "MaxTrackedSkippedPackets = 10"
definition MaxTrackedSentPackets :: nat where
  "MaxTrackedSentPackets = 2 * DefaultMaxCongestionWindow"
definition MaxTrackedReceivedAckRanges :: nat where
  "MaxTrackedReceivedAckRanges = DefaultMaxCongestionWindow"
definition MaxPacketsReceivedBeforeAckSend :: int where "MaxPacketsReceivedBeforeAckSend = 20"
definition MaxNonRetransmittablePackets :: int where "MaxNonRetransmittablePackets = 19"
definition RetransmittablePacketsBeforeAck :: int where "RetransmittablePacketsBeforeAck = 2"
definition MaxStreamFrameSorterGaps :: nat where "MaxStreamFrameSorterGaps = 2500"

text \<open>Durations are in nanoseconds, as \<open>time.Duration\<close> counts them.\<close>

definition Microsecond :: Duration where "Microsecond = 1000"
definition Millisecond :: Duration where "Millisecond = 1000 * Microsecond"
definition Second :: Duration where "Second = 1000 * Millisecond"
definition AckSendDelay :: Duration where "AckSendDelay = 25 * Millisecond"

lemmas duration_defs = Microsecond_def Millisecond_def Second_def

definition Version37 :: VersionNumber where "Version37 = 37"
definition Version38 :: VersionNumber where "Version38 = 38"
definition Version39 :: VersionNumber where "Version39 = 39"
definition VersionTLS :: VersionNumber where "VersionTLS = 101"
definition VersionWhatever :: VersionNumber where "VersionWhatever = 0"
definition VersionUnsupported :: VersionNumber where "VersionUnsupported = - 1"
definition VersionUnknown :: VersionNumber where "VersionUnknown = - 2"
definition VersionMP :: VersionNumber where "VersionMP = 512"

definition SupportedVersions :: "VersionNumber list" where
  "SupportedVersions = [VersionMP, Version39, Version38, Version37]"

lemmas version_defs =
  Version37_def Version38_def Version39_def VersionTLS_def VersionWhatever_def
  VersionUnsupported_def VersionUnknown_def VersionMP_def

section \<open>Minimum and maximum\<close>

definition MaxPacketNumber :: "PacketNumber \<Rightarrow> PacketNumber \<Rightarrow> PacketNumber" where
  "MaxPacketNumber a b = (if a > b then a else b)"

definition MinPacketNumber :: "PacketNumber \<Rightarrow> PacketNumber \<Rightarrow> PacketNumber" where
  "MinPacketNumber a b = (if a < b then a else b)"

definition MinByteCount :: "ByteCount \<Rightarrow> ByteCount \<Rightarrow> ByteCount" where
  "MinByteCount a b = (if a < b then a else b)"

definition MaxByteCount :: "ByteCount \<Rightarrow> ByteCount \<Rightarrow> ByteCount" where
  "MaxByteCount a b = (if a > b then a else b)"

text \<open>\<open>time.Time.Sub\<close> saturates at the limits of a \<open>Duration\<close>.\<close>

definition timeSub :: "Time \<Rightarrow> Time \<Rightarrow> Duration" where
  "timeSub t u = max (- (2 ^ 63)) (min (2 ^ 63 - 1) (t - u))"

definition MaxDuration :: "Duration \<Rightarrow> Duration \<Rightarrow> Duration" where
  "MaxDuration a b = (if a > b then a else b)"

definition MinDuration :: "Duration \<Rightarrow> Duration \<Rightarrow> Duration" where
  "MinDuration a b = (if a > b then b else a)"

definition AbsDuration :: "Duration \<Rightarrow> Duration" where
  "AbsDuration d = (if d \<ge> 0 then d else int64 (- d))"

lemma minmax_eq [simp]:
  "MaxPacketNumber a b = max a b" "MinPacketNumber a b = min a b"
  "MinByteCount a b = min a b" "MaxByteCount a b = max a b"
  "MaxDuration x y = max x y" "MinDuration x y = min x y"
  by (auto simp: MaxPacketNumber_def MinPacketNumber_def MinByteCount_def MaxByteCount_def
      MaxDuration_def MinDuration_def)

section \<open>Packet numbers on the wire\<close>

definition delta :: "PacketNumber \<Rightarrow> PacketNumber \<Rightarrow> PacketNumber" where
  "delta a b = (if a < b then b - a else a - b)"

definition closestTo :: "PacketNumber \<Rightarrow> PacketNumber \<Rightarrow> PacketNumber \<Rightarrow> PacketNumber" where
  "closestTo target a b = (if delta target a < delta target b then a else b)"

definition InferPacketNumber ::
  "PacketNumberLen \<Rightarrow> PacketNumber \<Rightarrow> PacketNumber \<Rightarrow> PacketNumber" where
  "InferPacketNumber packetNumberLength lastPacketNumber wirePacketNumber =
     (let epochDelta = push_bit (unat (packetNumberLength * 8)) 1;
          epoch = lastPacketNumber AND NOT (epochDelta - 1);
          prevEpochBegin = epoch - epochDelta;
          nextEpochBegin = epoch + epochDelta
      in closestTo (lastPacketNumber + 1) (epoch + wirePacketNumber)
           (closestTo (lastPacketNumber + 1) (prevEpochBegin + wirePacketNumber)
              (nextEpochBegin + wirePacketNumber)))"

definition GetPacketNumberLengthForPublicHeader ::
  "PacketNumber \<Rightarrow> PacketNumber \<Rightarrow> PacketNumberLen" where
  "GetPacketNumberLengthForPublicHeader packetNumber leastUnacked =
     (let diff = packetNumber - leastUnacked
      in if diff < push_bit 14 2 then PacketNumberLen2
         else if diff < push_bit 30 2 then PacketNumberLen4
         else PacketNumberLen6)"

definition GetPacketNumberLength :: "PacketNumber \<Rightarrow> PacketNumberLen" where
  "GetPacketNumberLength packetNumber =
     (if packetNumber < push_bit 8 1 then PacketNumberLen1
      else if packetNumber < push_bit 16 1 then PacketNumberLen2
      else if packetNumber < push_bit 32 1 then PacketNumberLen4
      else PacketNumberLen6)"

section \<open>Versions\<close>

definition VersionNumberToTag :: "VersionNumber \<Rightarrow> uint32" where
  "VersionNumberToTag vn =
     (let v = word_of_int vn :: uint32
      in 81 + push_bit 8 (v div 100 mod 10 + 48) + push_bit 16 (v div 10 mod 10 + 48)
         + push_bit 24 (v mod 10 + 48))"

definition VersionTagToNumber :: "uint32 \<Rightarrow> VersionNumber" where
  "VersionTagToNumber v =
     uint (((drop_bit 8 v AND 255) - 48) * 100 + ((drop_bit 16 v AND 255) - 48) * 10
           + ((drop_bit 24 v AND 255) - 48))"

fun IsSupportedVersion :: "VersionNumber list \<Rightarrow> VersionNumber \<Rightarrow> bool" where
  "IsSupportedVersion [] v = False"
| "IsSupportedVersion (t # supported) v = (if t = v then True else IsSupportedVersion supported v)"

fun chooseInner :: "VersionNumber \<Rightarrow> VersionNumber list \<Rightarrow> VersionNumber option" where
  "chooseInner ourVer [] = None"
| "chooseInner ourVer (theirVer # theirs) =
     (if ourVer = theirVer then Some ourVer else chooseInner ourVer theirs)"

fun ChooseSupportedVersion ::
  "VersionNumber list \<Rightarrow> VersionNumber list \<Rightarrow> VersionNumber" where
  "ChooseSupportedVersion [] theirs = VersionUnsupported"
| "ChooseSupportedVersion (ourVer # ours) theirs =
     (case chooseInner ourVer theirs of Some v \<Rightarrow> v | None \<Rightarrow> ChooseSupportedVersion ours theirs)"

section \<open>Reconstruction of truncated packet numbers\<close>

lemma uint_delta: "uint (delta a b) = \<bar>uint a - uint b\<bar>"
  by (auto simp: delta_def word_less_def uint_sub_if')

lemma closestTo_eq:
  "closestTo t a b = (if \<bar>uint t - uint a\<bar> < \<bar>uint t - uint b\<bar> then a else b)"
  by (simp add: closestTo_def word_less_def uint_delta)

text \<open>The candidate equal to a packet number near the target beats every other one.\<close>

lemma closestTo_near:
  assumes "\<bar>uint t - uint p\<bar> < \<bar>uint t - uint a\<bar> \<or> a = p"
    and "\<bar>uint t - uint p\<bar> < \<bar>uint t - uint b\<bar> \<or> b = p" and "a = p \<or> b = p"
  shows "closestTo t a b = p"
  using assms by (auto simp: closestTo_eq)

lemma closestTo_cases: "closestTo t a b = a \<or> closestTo t a b = b"
  by (simp add: closestTo_eq)

lemma uint_epoch:
  fixes l :: PacketNumber
  assumes "n < 64"
  shows "uint (l AND NOT (push_bit n 1 - 1)) = uint l - uint l mod 2 ^ n"
proof -
  have "(push_bit n 1 - 1 :: 64 word) = mask n"
    by (simp add: mask_eq_exp_minus_1 push_bit_eq_mult)
  moreover have "l AND NOT (mask n) = l AND NOT (take_bit n l)"
    by (rule bit_eqI) (auto simp: bit_simps)
  moreover have "NOT l AND take_bit n l = 0"
    by (rule bit_eqI) (auto simp: bit_simps)
  then have "l - take_bit n l = l AND NOT (take_bit n l)"
    by (rule disjunctive_diff_eq_and_not)
  ultimately have *: "l AND NOT (push_bit n 1 - 1) = l - take_bit n l" by simp
  have t: "uint (take_bit n l) = uint l mod 2 ^ n"
    by (simp only: unsigned_take_bit_eq) (simp only: take_bit_eq_mod)
  have "uint l mod 2 ^ n \<le> uint l" by (simp add: zmod_le_nonneg_dividend)
  with t show ?thesis unfolding * by (simp add: uint_sub_if')
qed

text \<open>
  The arithmetic of the reconstruction: a packet number closer than half an epoch
  to the target lies in the epoch of the last one or in a neighbouring one.
\<close>

lemma epoch_distance:
  fixes D P L :: int
  assumes "0 < D" "\<bar>P - (L + 1)\<bar> * 2 < D"
  obtains k where "k \<in> {- 1, 0, 1}" "P = L - L mod D + k * D + P mod D"
proof
  define k where "k = P div D - L div D"
  show eq: "P = L - L mod D + k * D + P mod D"
    by (simp add: k_def algebra_simps minus_mod_eq_mult_div)
  have "- D < (P - (L + 1)) * 2" "(P - (L + 1)) * 2 < D"
    using assms by (auto simp: abs_if split: if_splits)
  then have "- (2 * D) < z \<and> z < 2 * D"
    if "0 \<le> x" "x < D" "0 \<le> y" "y < D" "P = L - y + z + x" for x y z
    using that assms(1) by auto
  then have "- (2 * D) < k * D" "k * D < 2 * D"
    using eq assms(1) by (meson pos_mod_bound pos_mod_sign)+
  with \<open>0 < D\<close> have "- 2 < k" "k < 2"
    by (metis mult_less_cancel_right_pos mult_minus_left)+
  then show "k \<in> {- 1, 0, 1}" by auto
qed

lemma epoch_multiple:
  fixes D L :: int
  assumes "0 < D" "0 \<le> L"
  shows "L - L mod D = 0 \<or> D \<le> L - L mod D"
proof -
  have "L - L mod D = D * (L div D)" by (simp add: minus_mod_eq_mult_div)
  moreover have "L div D = 0 \<or> 1 \<le> L div D"
    using assms pos_imp_zdiv_nonneg_iff by force
  ultimately show ?thesis using assms by auto
qed

lemma uint_candidates:
  fixes l w :: PacketNumber and n :: nat
  defines "e \<equiv> l AND NOT (push_bit n 1 - 1)" and "D \<equiv> 2 ^ n :: int"
  assumes n: "n \<le> 48" and l: "uint l < 2 ^ 62" and w: "uint w < D"
  shows "uint e = uint l - uint l mod D"
    and "uint (e + w) = uint e + uint w"
    and "uint (e + push_bit n 1 + w) = uint e + D + uint w"
    and "uint (e - push_bit n 1 + w) =
           (if uint e = 0 then 2 ^ 64 - D + uint w else uint e - D + uint w)"
proof -
  have D: "0 < D" "D \<le> 2 ^ 48"
    unfolding D_def using n by (simp, intro power_increasing) auto
  have uD: "uint (push_bit n 1 :: 64 word) = D"
    using n by (simp add: D_def push_bit_eq_mult uint_2p word_gt_0)
  show e: "uint e = uint l - uint l mod D"
    unfolding e_def D_def using n by (intro uint_epoch) simp
  have lb: "0 \<le> uint l mod D" "uint l mod D < D" using D by auto
  have wb: "0 \<le> uint w" by simp
  have eD: "uint e = 0 \<or> D \<le> uint e"
    using epoch_multiple [of D "uint l"] D e by simp
  show "uint (e + w) = uint e + uint w"
    using l D e w wb lb by (simp add: uint_plus_if')
  show "uint (e + push_bit n 1 + w) = uint e + D + uint w"
    using l D e w wb lb uD by (simp add: uint_plus_if')
  show "uint (e - push_bit n 1 + w) =
      (if uint e = 0 then 2 ^ 64 - D + uint w else uint e - D + uint w)"
    using l D e w wb lb uD eD by (auto simp: uint_plus_if' uint_sub_if')
qed

text \<open>A candidate other than the packet number itself is at least an epoch away from it.\<close>

lemma candidate_far:
  fixes D E W p c :: int
  assumes D: "0 < D" "D \<le> 2 ^ 48" and p: "p = E + k * D + W" "0 \<le> p" "p < 2 ^ 62"
    and W: "0 \<le> W"
    and c: "c = E + W \<or> c = E + D + W \<or> (if E = 0 then c = 2 ^ 64 - D + W else c = E - D + W)"
    and "c \<noteq> p"
  shows "D \<le> \<bar>c - p\<bar>"
proof (cases "\<exists>j. c - p = j * D")
  case True
  then obtain j where j: "c - p = j * D" by blast
  with \<open>c \<noteq> p\<close> have "j \<noteq> 0" by auto
  then show ?thesis using D by (simp add: j abs_mult)
next
  case False
  have "c - p = (0 - k) * D" if "c = E + W" using that p by (simp add: algebra_simps)
  moreover have "c - p = (1 - k) * D" if "c = E + D + W" using that p by (simp add: algebra_simps)
  moreover have "c - p = (- 1 - k) * D" if "c = E - D + W"
    using that p by (simp add: algebra_simps)
  ultimately have "c = 2 ^ 64 - D + W" using c False by (metis (full_types))
  then have "p + D \<le> c" using D p(3) W by simp
  then show ?thesis by linarith
qed

lemma candidate_beaten:
  fixes D t p c :: int
  assumes "\<bar>p - t\<bar> * 2 < D" "D \<le> \<bar>c - p\<bar>"
  shows "\<bar>t - p\<bar> < \<bar>t - c\<bar>"
  using assms by (simp add: abs_if split: if_splits)

lemma InferPacketNumber_near:
  assumes n: "unat (len * 8) = n" "n \<le> 48"
    and bounds: "uint l < 2 ^ 62" "uint pn < 2 ^ 62"
    and near: "\<bar>uint pn - (uint l + 1)\<bar> * 2 < 2 ^ n"
  shows "InferPacketNumber len l (take_bit n pn) = pn"
proof -
  define e where "e = l AND NOT (push_bit n 1 - 1)"
  define w where "w = take_bit n pn"
  let ?t = "l + 1" and ?cs = "{e + w, e - push_bit n 1 + w, e + push_bit n 1 + w}"
  have w: "uint w = uint pn mod 2 ^ n"
    unfolding w_def by (simp only: unsigned_take_bit_eq) (simp only: take_bit_eq_mod)
  then have "uint w < 2 ^ n" by simp
  note u = uint_candidates [OF n(2) bounds(1) this, folded e_def]
  have D: "(0::int) < 2 ^ n" "(2::int) ^ n \<le> 2 ^ 48"
    using n(2) by (simp, intro power_increasing) auto
  obtain k where k: "k \<in> {- 1, 0, 1}" "uint pn = uint e + k * 2 ^ n + uint w"
    using epoch_distance [of "2 ^ n" "uint pn" "uint l"] near D u(1) w by metis
  have t: "uint ?t = uint l + 1" using bounds by (simp add: uint_plus_if')
  have far: "c = pn \<or> \<bar>uint ?t - uint pn\<bar> < \<bar>uint ?t - uint c\<bar>" if "c \<in> ?cs" for c
  proof (cases "c = pn")
    case False
    then have "uint c \<noteq> uint pn" by (simp add: word_uint_eq_iff)
    then have "2 ^ n \<le> \<bar>uint c - uint pn\<bar>"
      using that u(2-4) by (intro candidate_far [OF D k(2) _ bounds(2)])
        (auto simp del: push_bit_of_1)
    then show ?thesis using near t candidate_beaten by metis
  qed simp
  have pos: "uint e \<noteq> 0" if "k = - 1"
  proof
    assume "uint e = 0"
    with that k(2) have "uint pn = uint w - 2 ^ n" by simp
    with \<open>uint w < 2 ^ n\<close> uint_ge_0 [of pn] show False by linarith
  qed
  have some: "pn \<in> ?cs"
    using k u(2-4) pos by (auto simp: word_uint_eq_iff simp del: push_bit_of_1)
  have eq: "InferPacketNumber len l (take_bit n pn) =
      closestTo ?t (e + w) (closestTo ?t (e - push_bit n 1 + w) (e + push_bit n 1 + w))"
    by (simp only: InferPacketNumber_def Let_def n(1) e_def w_def)
  have inner: "closestTo ?t (e - push_bit n 1 + w) (e + push_bit n 1 + w) = pn"
    if "e + w \<noteq> pn"
    using that far some by (intro closestTo_near) blast+
  have "closestTo ?t (e - push_bit n 1 + w) (e + push_bit n 1 + w) \<in> ?cs"
    using closestTo_cases by blast
  then show ?thesis
    unfolding eq using far inner by (intro closestTo_near) blast+
qed

section \<open>Lemmas on versions\<close>

lemma IsSupportedVersion_iff [simp]: "IsSupportedVersion vs v \<longleftrightarrow> v \<in> set vs"
  by (induction vs) auto

lemma chooseInner_eq [simp]: "chooseInner v theirs = (if v \<in> set theirs then Some v else None)"
  by (induction theirs) auto

lemma ChooseSupportedVersion_none:
  "VersionUnsupported \<notin> set ours \<Longrightarrow>
   ChooseSupportedVersion ours theirs = VersionUnsupported \<longleftrightarrow> set ours \<inter> set theirs = {}"
  by (induction ours) auto

lemma ChooseSupportedVersion_first:
  "v \<in> set theirs \<Longrightarrow> set pre \<inter> set theirs = {} \<Longrightarrow>
   ChooseSupportedVersion (pre @ v # post) theirs = v"
  by (induction pre) auto

lemma ChooseSupportedVersion_split:
  "ChooseSupportedVersion ours theirs \<noteq> VersionUnsupported \<Longrightarrow>
   ChooseSupportedVersion ours theirs \<in> set theirs \<and>
   (\<exists>pre post. ours = pre @ ChooseSupportedVersion ours theirs # post \<and> set pre \<inter> set theirs = {})"
proof (induction ours)
  case (Cons a ours)
  show ?case
  proof (cases "a \<in> set theirs")
    case True
    then have "a # ours = [] @ ChooseSupportedVersion (a # ours) theirs # ours" by simp
    with True show ?thesis by fastforce
  next
    case False
    with Cons obtain pre post where "ours = pre @ ChooseSupportedVersion ours theirs # post"
      "set pre \<inter> set theirs = {}" "ChooseSupportedVersion ours theirs \<in> set theirs" by auto
    with False have "a # ours = (a # pre) @ ChooseSupportedVersion (a # ours) theirs # post"
      "set (a # pre) \<inter> set theirs = {}" "ChooseSupportedVersion (a # ours) theirs \<in> set theirs"
      by auto
    then show ?thesis by blast
  qed
qed simp

lemma decimal_digits:
  assumes "v < (1000::nat)"
  shows "v div 100 mod 10 * 100 + v div 10 mod 10 * 10 + v mod 10 = v"
proof -
  have "v div 100 = v div 10 div 10" by (simp add: div_mult2_eq [symmetric])
  moreover have "v div 100 < 10" using assms by simp
  ultimately have "v div 100 mod 10 = v div 10 div 10" by simp
  then show ?thesis
    using div_mult_mod_eq [of "v div 10" 10] div_mult_mod_eq [of v 10] by linarith
qed

lemma version_digits:
  fixes a b c :: nat
  assumes "a < 256" "b < 256" "c < 256"
  defines "x \<equiv> 81 + 256 * (a + 256 * (b + 256 * c))"
  shows "x div 256 mod 256 = a" "x div 65536 mod 256 = b" "x div 16777216 mod 256 = c"
proof -
  have d: "(r + 256 * y) div 256 = y" "(r + 256 * y) mod 256 = r" if "r < 256" for r y :: nat
    using that by simp_all
  have s1: "x div 256 = a + 256 * (b + 256 * c)" unfolding x_def by (rule d(1)) simp
  have "x div 65536 = x div 256 div 256" by (simp add: div_mult2_eq [symmetric])
  with s1 have s2: "x div 65536 = b + 256 * c" by (simp only: d(1) [OF assms(1)])
  have "x div 16777216 = x div 65536 div 256" by (simp add: div_mult2_eq [symmetric])
  with s2 have s3: "x div 16777216 = c" by (simp only: d(1) [OF assms(2)])
  show "x div 256 mod 256 = a" by (simp only: s1 d(2) [OF assms(1)])
  show "x div 65536 mod 256 = b" by (simp only: s2 d(2) [OF assms(2)])
  show "x div 16777216 mod 256 = c" using assms(3) by (simp add: s3)
qed

lemma unat_VersionNumberToTag:
  assumes "0 \<le> vn" "vn < 2 ^ 32"
  shows "unat (VersionNumberToTag vn) =
    81 + 256 * ((nat vn div 100 mod 10 + 48)
       + 256 * ((nat vn div 10 mod 10 + 48) + 256 * (nat vn mod 10 + 48)))"
proof -
  define v where "v = nat vn"
  define x where "x = 81 + 256 * ((v div 100 mod 10 + 48)
       + 256 * ((v div 10 mod 10 + 48) + 256 * (v mod 10 + 48)))"
  have v: "unat (word_of_int vn :: uint32) = v"
    using assms by (simp add: v_def unat_eq_nat_uint uint_word_of_int_eq take_bit_int_eq_self)
  have digit: "w = of_nat (unat w)" for w :: uint32 by simp
  have "VersionNumberToTag vn = of_nat x"
    unfolding VersionNumberToTag_def Let_def x_def
    by (subst digit [of "_ div 100 mod 10"], subst digit [of "_ div 10 mod 10"],
        subst digit [of "_ mod 10"])
      (simp add: push_bit_eq_mult unat_div_distrib unat_mod_distrib v)
  moreover have "v div 100 mod 10 < 10" "v div 10 mod 10 < 10" "v mod 10 < 10" by simp_all
  then have "x < 2 ^ 32" unfolding x_def by simp
  ultimately have "unat (VersionNumberToTag vn) = x"
    by (simp add: unat_of_nat)
  then show ?thesis by (simp only: v_def x_def)
qed

text \<open>
  The sender truncates packet number \<open>pn\<close> to the length that
  \<open>GetPacketNumberLengthForPublicHeader\<close> picks; a receiver whose largest packet number
  is not below what was acknowledged and that was overtaken by fewer than \<open>2^15\<close>
  packets reconstructs \<open>pn\<close>.
\<close>

lemma InferPacketNumber_truncated:
  assumes "uint leastUnacked \<le> uint pn" "uint pn < uint leastUnacked + 2 ^ 47"
    and "uint leastUnacked \<le> uint largest + 1" "uint largest + 1 < uint pn + 2 ^ 15"
    and "uint pn < 2 ^ 62" "uint largest < 2 ^ 62"
  defines "len \<equiv> GetPacketNumberLengthForPublicHeader pn leastUnacked"
  shows "InferPacketNumber len largest (take_bit (8 * unat len) pn) = pn"
proof -
  have diff: "uint (pn - leastUnacked) = uint pn - uint leastUnacked"
    using assms(1) by (simp add: uint_sub_if')
  have len: "len = 2 \<and> uint pn - uint leastUnacked < 2 ^ 15
      \<or> len = 4 \<and> uint pn - uint leastUnacked < 2 ^ 31 \<or> len = 6"
    unfolding len_def GetPacketNumberLengthForPublicHeader_def Let_def PacketNumberLen_defs
    by (simp add: word_less_def diff push_bit_eq_mult)
  then have "unat (len * 8) = 8 * unat len" "8 * unat len \<le> 48"
    and "\<bar>uint pn - (uint largest + 1)\<bar> * 2 < 2 ^ (8 * unat len)"
    using assms(1-4) by auto
  then show ?thesis by (rule InferPacketNumber_near [OF _ _ assms(6,5)])
qed

text \<open>Version tags of numbers with at most three decimal digits can be read back.\<close>

lemma VersionTagToNumber_ToTag:
  assumes "0 \<le> vn" "vn < 1000"
  shows "VersionTagToNumber (VersionNumberToTag vn) = vn"
proof -
  define v where "v = nat vn"
  define a b c where "a = v div 100 mod 10 + 48" and "b = v div 10 mod 10 + 48"
    and "c = v mod 10 + 48"
  have abc: "a < 256" "b < 256" "c < 256" by (simp_all add: a_def b_def c_def trans_less_add2)
  define t where "t = VersionNumberToTag vn"
  have t: "unat t = 81 + 256 * (a + 256 * (b + 256 * c))"
    unfolding t_def a_def b_def c_def v_def using assms by (intro unat_VersionNumberToTag) auto
  have w: "w = of_nat n" if "unat w = n" for w :: uint32 and n using that by auto
  have byte: "unat (drop_bit k t AND 255) = unat t div 2 ^ k mod 256" for k
    by (simp only: unat_and_255 unat_drop_bit)
  have "drop_bit 8 t AND 255 = of_nat a" "drop_bit 16 t AND 255 = of_nat b"
    "drop_bit 24 t AND 255 = of_nat c"
    using version_digits [OF abc, folded t] by (simp_all add: w byte)
  then have "VersionTagToNumber t =
      uint (of_nat ((a - 48) * 100 + (b - 48) * 10 + (c - 48)) :: uint32)"
    by (simp add: VersionTagToNumber_def a_def b_def c_def)
  also have "(a - 48) * 100 + (b - 48) * 10 + (c - 48) = v"
    unfolding a_def b_def c_def diff_add_inverse2
    by (rule decimal_digits) (use assms in \<open>simp add: v_def nat_less_iff\<close>)
  also have "uint (of_nat v :: uint32) = int v"
    using assms by (simp add: v_def uint_word_of_int_eq take_bit_int_eq_self)
  also have "\<dots> = vn" using assms by (simp add: v_def)
  finally show ?thesis by (simp only: t_def)
qed

section \<open>Properties\<close>

text \<open>
  Version negotiation: \<open>ChooseSupportedVersion\<close> returns our most preferred
  version among those the peer offers, and \<open>VersionUnsupported\<close> exactly when no
  version is shared.
\<close>

theorem ChooseSupportedVersion_best:
  assumes "VersionUnsupported \<notin> set ours"
  shows "(ChooseSupportedVersion ours theirs = VersionUnsupported
            \<longleftrightarrow> set ours \<inter> set theirs = {})
    \<and> (ChooseSupportedVersion ours theirs = v \<and> v \<noteq> VersionUnsupported
            \<longleftrightarrow> v \<in> set theirs \<and> (\<exists>pre post. ours = pre @ v # post \<and> set pre \<inter> set theirs = {}))"
  using assms ChooseSupportedVersion_none [of ours theirs] ChooseSupportedVersion_first
    ChooseSupportedVersion_split [of ours theirs]
  by (metis in_set_conv_decomp)

theorem ChooseSupportedVersion_best_witness:
  "ChooseSupportedVersion SupportedVersions [Version37, Version39] = Version39"
  using ChooseSupportedVersion_best [of SupportedVersions "[Version37, Version39]" Version39]
  by (simp add: SupportedVersions_def version_defs)

end
