(* ===== verification/ByteOrder.thy ===== *)
theory ByteOrder
  imports Protocol
begin

unbundle bit_operations_syntax

text \<open>
  The byte orders of \<open>internal/utils\<close> (\<open>byteorder.go\<close>, \<open>byteorder_little_endian.go\<close>,
  \<open>byteorder_big_endian.go\<close>) and the 16-bit floating point format of \<open>float16.go\<close>.
  The Go interface \<open>ByteOrder\<close> is a record of its methods; the locale \<open>byte_order\<close>
  states what an implementation promises, and both implementations interpret it. A
  write returns the bytes it appends to the buffer; the widths that are not native
  panic when the value does not fit.
\<close>

section \<open>The interface\<close>

record byteOrder =
  ReadUintN :: "reader \<Rightarrow> uint8 \<Rightarrow> go_error + (uint64 \<times> reader)"
  ReadUint64 :: "reader \<Rightarrow> go_error + (uint64 \<times> reader)"
  ReadUint32 :: "reader \<Rightarrow> go_error + (uint32 \<times> reader)"
  ReadUint16 :: "reader \<Rightarrow> go_error + (uint16 \<times> reader)"
  WriteUint64 :: "uint64 \<Rightarrow> byte list"
  WriteUint56 :: "uint64 \<Rightarrow> go_error + byte list"
  WriteUint48 :: "uint64 \<Rightarrow> go_error + byte list"
  WriteUint40 :: "uint64 \<Rightarrow> go_error + byte list"
  WriteUint32 :: "uint32 \<Rightarrow> byte list"
  WriteUint24 :: "uint32 \<Rightarrow> go_error + byte list"
  WriteUint16 :: "uint16 \<Rightarrow> byte list"

section \<open>Little endian\<close>

text \<open>The loop of \<open>ReadUintN\<close>; the counter and the shift amount are \<open>uint8\<close>.\<close>

function le_ReadUintN_loop ::
  "uint8 \<Rightarrow> uint8 \<Rightarrow> uint64 \<Rightarrow> reader \<Rightarrow> go_error + (uint64 \<times> reader)" where
  "le_ReadUintN_loop len i res b =
     (if i < len
      then andThen (ReadByte b) (\<lambda>bt b'.
             le_ReadUintN_loop len (i + 1) (res XOR push_bit (unat (i * 8)) (ucast bt)) b')
      else Inr (res, b))"
  by pat_completeness auto
termination
  by (relation "measure (\<lambda>(_, _, _, b). length b)") (auto simp: length_ReadByte)

declare le_ReadUintN_loop.simps [simp del]

definition le_ReadUintN :: "reader \<Rightarrow> uint8 \<Rightarrow> go_error + (uint64 \<times> reader)" where
  "le_ReadUintN b len = le_ReadUintN_loop len 0 0 b"

definition le_ReadUint64 :: "reader \<Rightarrow> go_error + (uint64 \<times> reader)" where
  "le_ReadUint64 b =
     andThen (ReadByte b) (\<lambda>b1 b. andThen (ReadByte b) (\<lambda>b2 b.
     andThen (ReadByte b) (\<lambda>b3 b. andThen (ReadByte b) (\<lambda>b4 b.
     andThen (ReadByte b) (\<lambda>b5 b. andThen (ReadByte b) (\<lambda>b6 b.
     andThen (ReadByte b) (\<lambda>b7 b. andThen (ReadByte b) (\<lambda>b8 b.
       Inr (ucast b1 + push_bit 8 (ucast b2) + push_bit 16 (ucast b3) + push_bit 24 (ucast b4)
            + push_bit 32 (ucast b5) + push_bit 40 (ucast b6) + push_bit 48 (ucast b7)
            + push_bit 56 (ucast b8), b)))))))))"

definition le_ReadUint32 :: "reader \<Rightarrow> go_error + (uint32 \<times> reader)" where
  "le_ReadUint32 b =
     andThen (ReadByte b) (\<lambda>b1 b. andThen (ReadByte b) (\<lambda>b2 b.
     andThen (ReadByte b) (\<lambda>b3 b. andThen (ReadByte b) (\<lambda>b4 b.
       Inr (ucast b1 + push_bit 8 (ucast b2) + push_bit 16 (ucast b3)
            + push_bit 24 (ucast b4), b)))))"

definition le_ReadUint16 :: "reader \<Rightarrow> go_error + (uint16 \<times> reader)" where
  "le_ReadUint16 b =
     andThen (ReadByte b) (\<lambda>b1 b. andThen (ReadByte b) (\<lambda>b2 b.
       Inr (ucast b1 + push_bit 8 (ucast b2), b)))"

definition le_WriteUint64 :: "uint64 \<Rightarrow> byte list" where
  "le_WriteUint64 i =
     [ucast i, ucast (drop_bit 8 i), ucast (drop_bit 16 i), ucast (drop_bit 24 i),
      ucast (drop_bit 32 i), ucast (drop_bit 40 i), ucast (drop_bit 48 i), ucast (drop_bit 56 i)]"

definition le_WriteUint56 :: "uint64 \<Rightarrow> go_error + byte list" where
  "le_WriteUint56 i =
     (if i \<ge> push_bit 56 1 then Inl (Panic ''doesn't fit into 56 bits'')
      else Inr [ucast i, ucast (drop_bit 8 i), ucast (drop_bit 16 i), ucast (drop_bit 24 i),
                ucast (drop_bit 32 i), ucast (drop_bit 40 i), ucast (drop_bit 48 i)])"

definition le_WriteUint48 :: "uint64 \<Rightarrow> go_error + byte list" where
  "le_WriteUint48 i =
     (if i \<ge> push_bit 48 1 then Inl (Panic ''doesn't fit into 48 bits'')
      else Inr [ucast i, ucast (drop_bit 8 i), ucast (drop_bit 16 i), ucast (drop_bit 24 i),
                ucast (drop_bit 32 i), ucast (drop_bit 40 i)])"

definition le_WriteUint40 :: "uint64 \<Rightarrow> go_error + byte list" where
  "le_WriteUint40 i =
     (if i \<ge> push_bit 40 1 then Inl (Panic ''doesn't fit into 40 bits'')
      else Inr [ucast i, ucast (drop_bit 8 i), ucast (drop_bit 16 i), ucast (drop_bit 24 i),
                ucast (drop_bit 32 i)])"

definition le_WriteUint32 :: "uint32 \<Rightarrow> byte list" where
  "le_WriteUint32 i =
     [ucast i, ucast (drop_bit 8 i), ucast (drop_bit 16 i), ucast (drop_bit 24 i)]"

definition le_WriteUint24 :: "uint32 \<Rightarrow> go_error + byte list" where
  "le_WriteUint24 i =
     (if i \<ge> push_bit 24 1 then Inl (Panic ''doesn't fit into 24 bits'')
      else Inr [ucast i, ucast (drop_bit 8 i), ucast (drop_bit 16 i)])"

definition le_WriteUint16 :: "uint16 \<Rightarrow> byte list" where
  "le_WriteUint16 i = [ucast i, ucast (drop_bit 8 i)]"

definition littleEndian :: byteOrder where
  "littleEndian =
     \<lparr> ReadUintN = le_ReadUintN, ReadUint64 = le_ReadUint64, ReadUint32 = le_ReadUint32,
       ReadUint16 = le_ReadUint16, WriteUint64 = le_WriteUint64, WriteUint56 = le_WriteUint56,
       WriteUint48 = le_WriteUint48, WriteUint40 = le_WriteUint40, WriteUint32 = le_WriteUint32,
       WriteUint24 = le_WriteUint24, WriteUint16 = le_WriteUint16 \<rparr>"

section \<open>Big endian\<close>

function be_ReadUintN_loop ::
  "uint8 \<Rightarrow> uint8 \<Rightarrow> uint64 \<Rightarrow> reader \<Rightarrow> go_error + (uint64 \<times> reader)" where
  "be_ReadUintN_loop len i res b =
     (if i < len
      then andThen (ReadByte b) (\<lambda>bt b'.
             be_ReadUintN_loop len (i + 1)
               (res XOR push_bit (unat ((len - 1 - i) * 8)) (ucast bt)) b')
      else Inr (res, b))"
  by pat_completeness auto
termination
  by (relation "measure (\<lambda>(_, _, _, b). length b)") (auto simp: length_ReadByte)

declare be_ReadUintN_loop.simps [simp del]

definition be_ReadUintN :: "reader \<Rightarrow> uint8 \<Rightarrow> go_error + (uint64 \<times> reader)" where
  "be_ReadUintN b len = be_ReadUintN_loop len 0 0 b"

definition be_ReadUint64 :: "reader \<Rightarrow> go_error + (uint64 \<times> reader)" where
  "be_ReadUint64 b =
     andThen (ReadByte b) (\<lambda>b8 b. andThen (ReadByte b) (\<lambda>b7 b.
     andThen (ReadByte b) (\<lambda>b6 b. andThen (ReadByte b) (\<lambda>b5 b.
     andThen (ReadByte b) (\<lambda>b4 b. andThen (ReadByte b) (\<lambda>b3 b.
     andThen (ReadByte b) (\<lambda>b2 b. andThen (ReadByte b) (\<lambda>b1 b.
       Inr (ucast b1 + push_bit 8 (ucast b2) + push_bit 16 (ucast b3) + push_bit 24 (ucast b4)
            + push_bit 32 (ucast b5) + push_bit 40 (ucast b6) + push_bit 48 (ucast b7)
            + push_bit 56 (ucast b8), b)))))))))"

definition be_ReadUint32 :: "reader \<Rightarrow> go_error + (uint32 \<times> reader)" where
  "be_ReadUint32 b =
     andThen (ReadByte b) (\<lambda>b4 b. andThen (ReadByte b) (\<lambda>b3 b.
     andThen (ReadByte b) (\<lambda>b2 b. andThen (ReadByte b) (\<lambda>b1 b.
       Inr (ucast b1 + push_bit 8 (ucast b2) + push_bit 16 (ucast b3)
            + push_bit 24 (ucast b4), b)))))"

definition be_ReadUint16 :: "reader \<Rightarrow> go_error + (uint16 \<times> reader)" where
  "be_ReadUint16 b =
     andThen (ReadByte b) (\<lambda>b2 b. andThen (ReadByte b) (\<lambda>b1 b.
       Inr (ucast b1 + push_bit 8 (ucast b2), b)))"

definition be_WriteUint64 :: "uint64 \<Rightarrow> byte list" where
  "be_WriteUint64 i =
     [ucast (drop_bit 56 i), ucast (drop_bit 48 i), ucast (drop_bit 40 i), ucast (drop_bit 32 i),
      ucast (drop_bit 24 i), ucast (drop_bit 16 i), ucast (drop_bit 8 i), ucast i]"

definition be_WriteUint56 :: "uint64 \<Rightarrow> go_error + byte list" where
  "be_WriteUint56 i =
     (if i \<ge> push_bit 56 1 then Inl (Panic ''doesn't fit into 56 bits'')
      else Inr [ucast (drop_bit 48 i), ucast (drop_bit 40 i), ucast (drop_bit 32 i),
                ucast (drop_bit 24 i), ucast (drop_bit 16 i), ucast (drop_bit 8 i), ucast i])"

definition be_WriteUint48 :: "uint64 \<Rightarrow> go_error + byte list" where
  "be_WriteUint48 i =
     (if i \<ge> push_bit 48 1 then Inl (Panic ''doesn't fit into 48 bits'')
      else Inr [ucast (drop_bit 40 i), ucast (drop_bit 32 i),
                ucast (drop_bit 24 i), ucast (drop_bit 16 i), ucast (drop_bit 8 i), ucast i])"

definition be_WriteUint40 :: "uint64 \<Rightarrow> go_error + byte list" where
  "be_WriteUint40 i =
     (if i \<ge> push_bit 40 1 then Inl (Panic ''doesn't fit into 40 bits'')
      else Inr [ucast (drop_bit 32 i),
                ucast (drop_bit 24 i), ucast (drop_bit 16 i), ucast (drop_bit 8 i), ucast i])"

definition be_WriteUint32 :: "uint32 \<Rightarrow> byte list" where
  "be_WriteUint32 i =
     [ucast (drop_bit 24 i), ucast (drop_bit 16 i), ucast (drop_bit 8 i), ucast i]"

definition be_WriteUint24 :: "uint32 \<Rightarrow> go_error + byte list" where
  "be_WriteUint24 i =
     (if i \<ge> push_bit 24 1 then Inl (Panic ''doesn't fit into 24 bits'')
      else Inr [ucast (drop_bit 16 i), ucast (drop_bit 8 i), ucast i])"

definition be_WriteUint16 :: "uint16 \<Rightarrow> byte list" where
  "be_WriteUint16 i = [ucast (drop_bit 8 i), ucast i]"

definition bigEndian :: byteOrder where
  "bigEndian =
     \<lparr> ReadUintN = be_ReadUintN, ReadUint64 = be_ReadUint64, ReadUint32 = be_ReadUint32,
       ReadUint16 = be_ReadUint16, WriteUint64 = be_WriteUint64, WriteUint56 = be_WriteUint56,
       WriteUint48 = be_WriteUint48, WriteUint40 = be_WriteUint40, WriteUint32 = be_WriteUint32,
       WriteUint24 = be_WriteUint24, WriteUint16 = be_WriteUint16 \<rparr>"

definition GetByteOrder :: "VersionNumber \<Rightarrow> byteOrder" where
  "GetByteOrder v = (if v < Version39 then littleEndian else bigEndian)"

section \<open>The 16-bit floating point format\<close>

definition uFloat16MaxValue :: uint64 where
  "uFloat16MaxValue = push_bit 30 (push_bit 12 1 - 1)"

definition decodeUfloat16 :: "uint16 \<Rightarrow> uint64" where
  "decodeUfloat16 val =
     (let res = ucast val :: uint64
      in if res < push_bit 12 1 then res
         else let exponent = drop_bit 11 val - 1;
                  res = res - push_bit 11 (ucast exponent)
              in push_bit (unat exponent) res)"

definition readUfloat16 :: "reader \<Rightarrow> byteOrder \<Rightarrow> go_error + (uint64 \<times> reader)" where
  "readUfloat16 b byteOrder =
     andThen (ReadUint16 byteOrder b) (\<lambda>val b. Inr (decodeUfloat16 val, b))"

text \<open>The binary search for the exponent: \<open>offset\<close> is halved until it is zero.\<close>

function writeUfloat16_loop :: "uint16 \<Rightarrow> uint16 \<Rightarrow> uint64 \<Rightarrow> uint16 \<times> uint64" where
  "writeUfloat16_loop offset exponent val =
     (if offset > 0
      then if val \<ge> push_bit (unat (11 + offset)) 1
           then writeUfloat16_loop (offset div 2) (exponent + offset) (drop_bit (unat offset) val)
           else writeUfloat16_loop (offset div 2) exponent val
      else (exponent, val))"
  by pat_completeness auto
termination
  by (relation "measure (\<lambda>(offset, _, _). unat offset)")
    (auto simp: unat_div_distrib word_less_nat_alt)

declare writeUfloat16_loop.simps [simp del]

definition encodeUfloat16 :: "uint64 \<Rightarrow> uint16" where
  "encodeUfloat16 val =
     (if val < push_bit 12 1 then ucast val
      else if val \<ge> uFloat16MaxValue then 0xFFFF
      else case writeUfloat16_loop 16 0 val of
             (exponent, v) \<Rightarrow> ucast v + push_bit 11 exponent)"

definition writeUfloat16 :: "byteOrder \<Rightarrow> uint64 \<Rightarrow> byte list" where
  "writeUfloat16 byteOrder val = WriteUint16 byteOrder (encodeUfloat16 val)"

definition ReadUfloat16 :: "byteOrder \<Rightarrow> reader \<Rightarrow> go_error + (uint64 \<times> reader)" where
  "ReadUfloat16 l b = readUfloat16 b l"

definition WriteUfloat16 :: "byteOrder \<Rightarrow> uint64 \<Rightarrow> byte list" where
  "WriteUfloat16 l val = writeUfloat16 l val"

section \<open>The encodings that the implementations realise\<close>

definition be_bytes :: "nat \<Rightarrow> nat \<Rightarrow> byte list" where
  "be_bytes n x = rev (le_bytes n x)"

definition wire_bytes :: "VersionNumber \<Rightarrow> nat \<Rightarrow> nat \<Rightarrow> byte list" where
  "wire_bytes v = (if v < Version39 then le_bytes else be_bytes)"

locale byte_order =
  fixes bo :: byteOrder and enc :: "nat \<Rightarrow> nat \<Rightarrow> byte list"
  assumes length_enc: "length (enc n x) = n"
    and enc_byte: "enc 1 (unat a) = [a]"
    and enc_surj: "\<exists>x < 256 ^ length bs. enc (length bs) x = bs"
    and ReadUintN_enc:
      "n \<le> 8 \<Longrightarrow> x < 256 ^ n \<Longrightarrow> ReadUintN bo (enc n x @ r) (of_nat n) = Inr (of_nat x, r)"
    and ReadUint64_enc: "ReadUint64 bo (enc 8 x @ r) = Inr (of_nat x, r)"
    and ReadUint32_enc: "ReadUint32 bo (enc 4 x @ r) = Inr (of_nat x, r)"
    and ReadUint16_enc: "ReadUint16 bo (enc 2 x @ r) = Inr (of_nat x, r)"
    and ReadUintN_short: "length b < n \<Longrightarrow> n \<le> 8 \<Longrightarrow> ReadUintN bo b (of_nat n) = Inl IoEOF"
    and ReadUintN_consumes:
      "ReadUintN bo b len = Inr (y, r) \<Longrightarrow> \<exists>bs. length bs = unat len \<and> b = bs @ r"
    and ReadUint64_short: "length b < 8 \<Longrightarrow> ReadUint64 bo b = Inl IoEOF"
    and ReadUint32_short: "length b < 4 \<Longrightarrow> ReadUint32 bo b = Inl IoEOF"
    and ReadUint16_short: "length b < 2 \<Longrightarrow> ReadUint16 bo b = Inl IoEOF"
    and WriteUint64_enc: "WriteUint64 bo i = enc 8 (unat i)"
    and WriteUint56_enc: "WriteUint56 bo i =
      (if i < 2 ^ 56 then Inr (enc 7 (unat i)) else Inl (Panic ''doesn't fit into 56 bits''))"
    and WriteUint48_enc: "WriteUint48 bo i =
      (if i < 2 ^ 48 then Inr (enc 6 (unat i)) else Inl (Panic ''doesn't fit into 48 bits''))"
    and WriteUint40_enc: "WriteUint40 bo i =
      (if i < 2 ^ 40 then Inr (enc 5 (unat i)) else Inl (Panic ''doesn't fit into 40 bits''))"
    and WriteUint32_enc: "WriteUint32 bo k = enc 4 (unat k)"
    and WriteUint24_enc: "WriteUint24 bo k =
      (if k < 2 ^ 24 then Inr (enc 3 (unat k)) else Inl (Panic ''doesn't fit into 24 bits''))"
    and WriteUint16_enc: "WriteUint16 bo h = enc 2 (unat h)"

text \<open>
  What the clients of the interface use: lengths, reading back what was written, and
  the shape of every successful read.
\<close>

context byte_order
begin

lemma length_writes [simp]:
  "length (WriteUint64 bo i) = 8" "length (WriteUint32 bo k) = 4" "length (WriteUint16 bo h) = 2"
  by (simp_all add: WriteUint64_enc WriteUint32_enc WriteUint16_enc length_enc)

lemma length_checked_writes:
  "WriteUint56 bo i = Inr bs \<Longrightarrow> length bs = 7" "WriteUint48 bo i = Inr bs \<Longrightarrow> length bs = 6"
  "WriteUint40 bo i = Inr bs \<Longrightarrow> length bs = 5" "WriteUint24 bo k = Inr bs \<Longrightarrow> length bs = 3"
  by (auto simp: WriteUint56_enc WriteUint48_enc WriteUint40_enc WriteUint24_enc length_enc
      split: if_splits)

lemma read_write [simp]:
  "ReadUint64 bo (WriteUint64 bo i @ r) = Inr (i, r)"
  "ReadUint32 bo (WriteUint32 bo k @ r) = Inr (k, r)"
  "ReadUint16 bo (WriteUint16 bo h @ r) = Inr (h, r)"
  by (simp_all add: WriteUint64_enc WriteUint32_enc WriteUint16_enc
      ReadUint64_enc ReadUint32_enc ReadUint16_enc)

lemma ReadUintN_byte [simp]: "ReadUintN bo (b # r) 1 = Inr (ucast b, r)"
proof -
  have "unat b < 256 ^ 1" using unsigned_less [of b] by simp
  then show ?thesis using ReadUintN_enc [of 1 "unat b" r] by (simp only: enc_byte) simp
qed

lemma ReadUintN_write [simp]:
  "ReadUintN bo (WriteUint64 bo i @ r) 8 = Inr (i, r)"
  "ReadUintN bo (WriteUint32 bo k @ r) 4 = Inr (ucast k, r)"
  "ReadUintN bo (WriteUint16 bo h @ r) 2 = Inr (ucast h, r)"
  using ReadUintN_enc [of 8 "unat i" r] ReadUintN_enc [of 4 "unat k" r]
    ReadUintN_enc [of 2 "unat h" r] unsigned_less [of i] unsigned_less [of k] unsigned_less [of h]
  by (simp_all add: WriteUint64_enc WriteUint32_enc WriteUint16_enc)

lemma ReadUintN_checked_write:
  "WriteUint56 bo i = Inr bs \<Longrightarrow> ReadUintN bo (bs @ r) 7 = Inr (i, r)"
  "WriteUint48 bo i = Inr bs \<Longrightarrow> ReadUintN bo (bs @ r) 6 = Inr (i, r)"
  "WriteUint40 bo i = Inr bs \<Longrightarrow> ReadUintN bo (bs @ r) 5 = Inr (i, r)"
  "WriteUint24 bo k = Inr bs \<Longrightarrow> ReadUintN bo (bs @ r) 3 = Inr (ucast k, r)"
  using ReadUintN_enc [of 7 "unat i" r] ReadUintN_enc [of 6 "unat i" r]
    ReadUintN_enc [of 5 "unat i" r] ReadUintN_enc [of 3 "unat k" r]
  by (auto simp: WriteUint56_enc WriteUint48_enc WriteUint40_enc WriteUint24_enc
      word_less_nat_alt split: if_splits)

lemma checked_write_ok:
  "i < 2 ^ 56 \<Longrightarrow> \<exists>bs. WriteUint56 bo i = Inr bs" "i < 2 ^ 48 \<Longrightarrow> \<exists>bs. WriteUint48 bo i = Inr bs"
  "i < 2 ^ 40 \<Longrightarrow> \<exists>bs. WriteUint40 bo i = Inr bs" "k < 2 ^ 24 \<Longrightarrow> \<exists>bs. WriteUint24 bo k = Inr bs"
  by (simp_all add: WriteUint56_enc WriteUint48_enc WriteUint40_enc WriteUint24_enc)

lemma ReadUintN_InrD:
  assumes "ReadUintN bo b (of_nat n) = Inr (x, r)" "n \<le> 8"
  obtains bs where "length bs = n" "b = bs @ r" "unat x < 256 ^ n"
proof -
  have n: "n \<le> length b"
    using assms ReadUintN_short [of b n] by (cases "length b < n") auto
  then have len: "length (take n b) = n" by simp
  obtain y where y: "y < 256 ^ n" "enc n y = take n b"
    using enc_surj [of "take n b"] len by metis
  then have "Inr (x, r) = Inr (of_nat y, drop n b)"
    using ReadUintN_enc [of n y "drop n b"] assms by simp
  moreover have "(256 :: nat) ^ n \<le> 256 ^ 8" using assms(2) by (intro power_increasing) auto
  then have "unat (of_nat y :: uint64) = y" using y(1) by (simp only: unat_of_nat) simp
  ultimately show thesis using that [of "take n b"] len y(1) by simp
qed

lemma ReadUint32_InrD: "ReadUint32 bo b = Inr (x, r) \<Longrightarrow> b = WriteUint32 bo x @ r"
proof -
  assume read: "ReadUint32 bo b = Inr (x, r)"
  then have len: "length (take 4 b) = 4"
    using ReadUint32_short [of b] by (cases "length b < 4") auto
  obtain y where y: "y < 256 ^ 4" "enc 4 y = take 4 b"
    using enc_surj [of "take 4 b"] len by metis
  then have "x = of_nat y" "r = drop 4 b"
    using ReadUint32_enc [of y "drop 4 b"] read by auto
  moreover have "unat (of_nat y :: uint32) = y" using y(1) by (simp only: unat_of_nat) simp
  ultimately show ?thesis using y by (simp add: WriteUint32_enc)
qed

lemma ReadUint16_InrD: "ReadUint16 bo b = Inr (x, r) \<Longrightarrow> b = WriteUint16 bo x @ r"
proof -
  assume read: "ReadUint16 bo b = Inr (x, r)"
  then have len: "length (take 2 b) = 2"
    using ReadUint16_short [of b] by (cases "length b < 2") auto
  obtain y where y: "y < 256 ^ 2" "enc 2 y = take 2 b"
    using enc_surj [of "take 2 b"] len by metis
  then have "x = of_nat y" "r = drop 2 b"
    using ReadUint16_enc [of y "drop 2 b"] read by auto
  moreover have "unat (of_nat y :: uint16) = y" using y(1) by (simp only: unat_of_nat) simp
  ultimately show ?thesis using y by (simp add: WriteUint16_enc)
qed

lemma ReadUint64_InrD: "ReadUint64 bo b = Inr (x, r) \<Longrightarrow> b = WriteUint64 bo x @ r"
proof -
  assume read: "ReadUint64 bo b = Inr (x, r)"
  then have len: "length (take 8 b) = 8"
    using ReadUint64_short [of b] by (cases "length b < 8") auto
  obtain y where y: "y < 256 ^ 8" "enc 8 y = take 8 b"
    using enc_surj [of "take 8 b"] len by metis
  then have "x = of_nat y" "r = drop 8 b"
    using ReadUint64_enc [of y "drop 8 b"] read by auto
  moreover have "unat (of_nat y :: uint64) = y" using y(1) by (simp only: unat_of_nat) simp
  ultimately show ?thesis using y by (simp add: WriteUint64_enc)
qed

lemma readUfloat16_writeUfloat16 [simp]:
  "readUfloat16 (writeUfloat16 bo x @ r) bo = Inr (decodeUfloat16 (encodeUfloat16 x), r)"
  by (simp add: readUfloat16_def writeUfloat16_def)

lemma length_writeUfloat16 [simp]: "length (writeUfloat16 bo x) = 2"
  by (simp add: writeUfloat16_def)

end

section \<open>Both implementations satisfy the interface\<close>

lemma byte_of_word: "(ucast w :: byte) = of_nat (unat w)"
  by simp

lemma byte_of_shifted: "(ucast (drop_bit k w) :: byte) = of_nat (unat w div 2 ^ k)"
  by (simp only: byte_of_word unat_drop_bit)

lemma le_bytes_numeral:
  "le_bytes (numeral k) x = of_nat x # le_bytes (pred_numeral k) (x div 256)"
  by (simp only: numeral_eq_Suc le_bytes.simps)

lemma le_bytes_unfold:
  "le_bytes 8 x = [of_nat x, of_nat (x div 2 ^ 8), of_nat (x div 2 ^ 16), of_nat (x div 2 ^ 24),
     of_nat (x div 2 ^ 32), of_nat (x div 2 ^ 40), of_nat (x div 2 ^ 48), of_nat (x div 2 ^ 56)]"
  "le_bytes 7 x = [of_nat x, of_nat (x div 2 ^ 8), of_nat (x div 2 ^ 16), of_nat (x div 2 ^ 24),
     of_nat (x div 2 ^ 32), of_nat (x div 2 ^ 40), of_nat (x div 2 ^ 48)]"
  "le_bytes 6 x = [of_nat x, of_nat (x div 2 ^ 8), of_nat (x div 2 ^ 16), of_nat (x div 2 ^ 24),
     of_nat (x div 2 ^ 32), of_nat (x div 2 ^ 40)]"
  "le_bytes 5 x = [of_nat x, of_nat (x div 2 ^ 8), of_nat (x div 2 ^ 16), of_nat (x div 2 ^ 24),
     of_nat (x div 2 ^ 32)]"
  "le_bytes 4 x = [of_nat x, of_nat (x div 2 ^ 8), of_nat (x div 2 ^ 16), of_nat (x div 2 ^ 24)]"
  "le_bytes 3 x = [of_nat x, of_nat (x div 2 ^ 8), of_nat (x div 2 ^ 16)]"
  "le_bytes 2 x = [of_nat x, of_nat (x div 2 ^ 8)]"
  by (simp_all add: le_bytes_numeral div_mult2_eq [symmetric])

lemma writes_le:
  "le_WriteUint64 i = le_bytes 8 (unat i)" "le_WriteUint32 k = le_bytes 4 (unat k)"
  "le_WriteUint16 h = le_bytes 2 (unat h)"
  by (simp_all only: le_WriteUint64_def le_WriteUint32_def le_WriteUint16_def
      byte_of_word unat_drop_bit le_bytes_unfold)

lemma writes_le_checked:
  "le_WriteUint56 i =
     (if i < 2 ^ 56 then Inr (le_bytes 7 (unat i)) else Inl (Panic ''doesn't fit into 56 bits''))"
  "le_WriteUint48 i =
     (if i < 2 ^ 48 then Inr (le_bytes 6 (unat i)) else Inl (Panic ''doesn't fit into 48 bits''))"
  "le_WriteUint40 i =
     (if i < 2 ^ 40 then Inr (le_bytes 5 (unat i)) else Inl (Panic ''doesn't fit into 40 bits''))"
  "le_WriteUint24 k =
     (if k < 2 ^ 24 then Inr (le_bytes 3 (unat k)) else Inl (Panic ''doesn't fit into 24 bits''))"
  unfolding le_WriteUint56_def le_WriteUint48_def le_WriteUint40_def le_WriteUint24_def
  by (simp_all only: byte_of_word unat_drop_bit le_bytes_unfold push_bit_of_1 linorder_not_le
      [symmetric] if_not_P not_not split: if_splits) auto

lemma writes_be:
  "be_WriteUint64 i = rev (le_WriteUint64 i)" "be_WriteUint32 k = rev (le_WriteUint32 k)"
  "be_WriteUint16 h = rev (le_WriteUint16 h)"
  "be_WriteUint56 i = map_sum id rev (le_WriteUint56 i)"
  "be_WriteUint48 i = map_sum id rev (le_WriteUint48 i)"
  "be_WriteUint40 i = map_sum id rev (le_WriteUint40 i)"
  "be_WriteUint24 k = map_sum id rev (le_WriteUint24 k)"
  by (simp_all add: be_WriteUint64_def le_WriteUint64_def be_WriteUint32_def le_WriteUint32_def
      be_WriteUint16_def le_WriteUint16_def be_WriteUint56_def le_WriteUint56_def
      be_WriteUint48_def le_WriteUint48_def be_WriteUint40_def le_WriteUint40_def
      be_WriteUint24_def le_WriteUint24_def)

lemma length_eq_conv:
  "length xs = 2 \<longleftrightarrow> (\<exists>a b. xs = [a, b])"
  "length xs = 4 \<longleftrightarrow> (\<exists>a b c d. xs = [a, b, c, d])"
  "length xs = 8 \<longleftrightarrow> (\<exists>a b c d e f g h. xs = [a, b, c, d, e, f, g, h])"
  by (auto simp: numeral_eq_Suc length_Suc_conv)

lemma reads_le:
  "length bs = 8 \<Longrightarrow> le_ReadUint64 (bs @ r) = Inr (of_nat (le_val bs), r)"
  "length bs = 4 \<Longrightarrow> le_ReadUint32 (bs @ r) = Inr (of_nat (le_val bs), r)"
  "length bs = 2 \<Longrightarrow> le_ReadUint16 (bs @ r) = Inr (of_nat (le_val bs), r)"
  by (auto simp: length_eq_conv le_ReadUint64_def le_ReadUint32_def le_ReadUint16_def
      push_bit_eq_mult algebra_simps)

lemma reads_be:
  "length bs = 8 \<Longrightarrow> be_ReadUint64 (bs @ r) = Inr (of_nat (le_val (rev bs)), r)"
  "length bs = 4 \<Longrightarrow> be_ReadUint32 (bs @ r) = Inr (of_nat (le_val (rev bs)), r)"
  "length bs = 2 \<Longrightarrow> be_ReadUint16 (bs @ r) = Inr (of_nat (le_val (rev bs)), r)"
  by (auto simp: length_eq_conv be_ReadUint64_def be_ReadUint32_def be_ReadUint16_def
      push_bit_eq_mult algebra_simps)

lemma andThen_ReadByte:
  "andThen (ReadByte b) f = (case b of [] \<Rightarrow> Inl IoEOF | c # cs \<Rightarrow> f c cs)"
  by (cases b) auto

lemma reads_short:
  "length b < 8 \<Longrightarrow> le_ReadUint64 b = Inl IoEOF" "length b < 8 \<Longrightarrow> be_ReadUint64 b = Inl IoEOF"
  "length b < 4 \<Longrightarrow> le_ReadUint32 b = Inl IoEOF" "length b < 4 \<Longrightarrow> be_ReadUint32 b = Inl IoEOF"
  "length b < 2 \<Longrightarrow> le_ReadUint16 b = Inl IoEOF" "length b < 2 \<Longrightarrow> be_ReadUint16 b = Inl IoEOF"
  by (auto simp: andThen_ReadByte le_ReadUint64_def be_ReadUint64_def le_ReadUint32_def
      be_ReadUint32_def le_ReadUint16_def be_ReadUint16_def split: list.splits)

lemma xor_disjoint_add:
  fixes a b :: uint64
  assumes "a = take_bit k a" and "b = push_bit k c"
  shows "a XOR b = a + b"
proof -
  have "a AND b = 0"
    by (subst assms(1), subst assms(2), rule bit_eqI) (auto simp: bit_simps)
  then show ?thesis by (simp add: disjunctive_add_eq_xor)
qed

lemma take_bit_id_iff: "unat w < 2 ^ k \<Longrightarrow> take_bit k w = w"
  by (simp add: word_unat_eq_iff unat_take_bit)

lemma push_bit_ucast: "push_bit k (ucast (b :: byte)) = (of_nat (2 ^ k * unat b) :: uint64)"
  by (simp add: push_bit_eq_mult)

lemma le_ReadUintN_loop_eq:
  assumes "unat len \<le> 8" "i \<le> len" "length bs = unat len - unat i" "unat res < 256 ^ unat i"
  shows "le_ReadUintN_loop len i res (bs @ r) =
    Inr (res + of_nat (256 ^ unat i * le_val bs), r)"
  using assms
proof (induction bs arbitrary: i res)
  case Nil
  then have "\<not> i < len" by (simp add: word_less_nat_alt)
  then show ?case by (simp add: le_ReadUintN_loop.simps)
next
  case (Cons b bs)
  then have lt: "unat i < unat len" by simp
  then have i8: "unat (i * 8) = 8 * unat i" and i1: "unat (i + 1) = unat i + 1"
    using Cons.prems(1) by (simp_all add: unat_word_ariths)
  have pow: "(2::nat) ^ (8 * unat i) = 256 ^ unat i" by (simp add: power_mult)
  have b: "unat b < 256" using unsigned_less [of b] by simp
  let ?d = "256 ^ unat i * unat b"
  have x: "res XOR push_bit (unat (i * 8)) (ucast b) = res + of_nat ?d"
    using Cons.prems(4) xor_disjoint_add [of res "8 * unat i" "of_nat ?d" "ucast b"]
      take_bit_id_iff [of res "8 * unat i"]
    by (simp only: i8 pow push_bit_ucast)
  have "?d \<le> 256 ^ unat i * 255" using b by (intro mult_le_mono2) simp
  then have bound: "unat res + ?d < 256 ^ (unat i + 1)"
    using Cons.prems(4) by (simp only: power_add power_one_right)
  moreover have "(256::nat) ^ (unat i + 1) \<le> 256 ^ 8"
    using lt Cons.prems(1) by (intro power_increasing) auto
  ultimately have small: "unat res + ?d < 2 ^ LENGTH(64)" by simp
  then have "unat (of_nat ?d :: uint64) = ?d"
    by (simp only: unat_of_nat) simp
  with small have "unat (res + of_nat ?d) = unat res + ?d"
    by (simp only: unat_word_ariths(1)) simp
  then have "le_ReadUintN_loop len (i + 1) (res + of_nat ?d) (bs @ r) =
      Inr (res + of_nat ?d + of_nat (256 ^ unat (i + 1) * le_val bs), r)"
    using Cons.prems lt bound i1 by (intro Cons.IH) (auto simp: word_le_nat_alt)
  then show ?case
    using lt by (subst le_ReadUintN_loop.simps) (simp add: x i1 i1 [unfolded add.commute [of i 1]] word_less_nat_alt algebra_simps)
qed

lemma be_ReadUintN_loop_eq:
  assumes "unat len \<le> 8" "i \<le> len" "length bs = unat len - unat i"
    and "res = push_bit (8 * (unat len - unat i)) c"
  shows "be_ReadUintN_loop len i res (bs @ r) = Inr (res + of_nat (le_val (rev bs)), r)"
  using assms
proof (induction bs arbitrary: i res c)
  case Nil
  then have "\<not> i < len" by (simp add: word_less_nat_alt)
  then show ?case by (simp add: be_ReadUintN_loop.simps)
next
  case (Cons b bs)
  define k where "k = length bs"
  have lt: "unat i < unat len" and k: "unat len - unat i = k + 1"
    using Cons.prems(3) by (auto simp: k_def)
  then have i1: "unat (i + 1) = unat i + 1" and "unat (len - 1 - i) = k"
    using Cons.prems(1) by (simp_all add: unat_word_ariths unat_sub_if') arith
  then have i8: "unat ((len - 1 - i) * 8) = 8 * k"
    using Cons.prems(1) k by (simp only: unat_word_ariths(2)) simp
  have k1: "unat len - unat (i + 1) = k" using k i1 by simp
  have pow: "(2 :: uint64) ^ (8 * k) = 256 ^ k" by (simp add: power_mult)
  let ?d = "of_nat (256 ^ k * unat b) :: uint64"
  have d: "push_bit (8 * k) (ucast b) = ?d"
    by (simp add: push_bit_eq_mult power_mult)
  have "take_bit (8 * (k + 1)) (push_bit (8 * k) (ucast b) :: uint64) = push_bit (8 * k) (ucast b)"
    by (rule bit_eqI) (auto simp: bit_simps dest: bit_imp_le_length)
  then have "res XOR push_bit (8 * k) (ucast b) = res + ?d"
    using xor_disjoint_add [of ?d "8 * (k + 1)" res c] Cons.prems(4)
    by (simp only: d k) (simp add: xor.commute add.commute)
  then have step: "be_ReadUintN_loop len i res ((b # bs) @ r) =
      be_ReadUintN_loop len (i + 1) (res + ?d) (bs @ r)"
    using lt by (subst be_ReadUintN_loop.simps)
      (simp only: i8 word_less_nat_alt append_Cons ReadByte.simps andThen_simps if_True)
  have "res + ?d = push_bit (8 * (unat len - unat (i + 1))) (push_bit 8 c + ucast b)"
    unfolding k1 Cons.prems(4) k push_bit_eq_mult
    by (simp add: power_add pow [unfolded mult.commute [of 8 k]] algebra_simps)
  then have "be_ReadUintN_loop len (i + 1) (res + ?d) (bs @ r) =
      Inr (res + ?d + of_nat (le_val (rev bs)), r)"
    using Cons.prems lt i1 by (intro Cons.IH) (auto simp: word_le_nat_alt)
  then show ?case
    by (simp only: step) (simp add: le_val_append k_def algebra_simps)
qed

lemma le_ReadUintN_loop_short:
  "unat len \<le> 8 \<Longrightarrow> length b < unat len - unat i \<Longrightarrow> le_ReadUintN_loop len i res b = Inl IoEOF"
proof (induction b arbitrary: i res)
  case (Cons a b)
  then have "unat (i + 1) = unat i + 1" by (simp add: unat_word_ariths)
  with Cons show ?case
    by (subst le_ReadUintN_loop.simps) (simp add: word_less_nat_alt)
qed (simp add: le_ReadUintN_loop.simps word_less_nat_alt)

lemma be_ReadUintN_loop_short:
  "unat len \<le> 8 \<Longrightarrow> length b < unat len - unat i \<Longrightarrow> be_ReadUintN_loop len i res b = Inl IoEOF"
proof (induction b arbitrary: i res)
  case (Cons a b)
  then have "unat (i + 1) = unat i + 1" by (simp add: unat_word_ariths)
  with Cons show ?case
    by (subst be_ReadUintN_loop.simps) (simp add: word_less_nat_alt)
qed (simp add: be_ReadUintN_loop.simps word_less_nat_alt)

lemma loop_counter:
  fixes i len :: uint8
  assumes "i < len"
  shows "unat (i + 1) = unat i + 1" "i + 1 \<le> len"
proof -
  have "unat len < 256" using unsigned_less [of len] by simp
  then show "unat (i + 1) = unat i + 1" "i + 1 \<le> len"
    using assms by (auto simp: word_less_nat_alt word_le_nat_alt unat_word_ariths)
qed

lemma le_ReadUintN_loop_consumes:
  "le_ReadUintN_loop len i res b = Inr (x, r) \<Longrightarrow> i \<le> len \<Longrightarrow>
   \<exists>bs. length bs = unat len - unat i \<and> b = bs @ r"
proof (induction len i res b rule: le_ReadUintN_loop.induct)
  case (1 len i res b)
  show ?case
  proof (cases "i < len")
    case True
    note i1 = loop_counter [OF True]
    from 1(2) True obtain c cs where c: "ReadByte b = Inr (c, cs)" "b = c # cs"
      "le_ReadUintN_loop len (i + 1) (res XOR push_bit (unat (i * 8)) (ucast c)) cs = Inr (x, r)"
      by (subst (asm) le_ReadUintN_loop.simps) (auto elim!: andThen_InrE simp: ReadByte_Inr_iff)
    then obtain bs where "length bs = unat len - unat (i + 1)" "cs = bs @ r"
      using 1(1) [OF True c(1)] i1 by blast
    then show ?thesis
      using c i1 True by (intro exI [of _ "c # bs"]) (auto simp: word_less_nat_alt)
  next
    case False
    with 1 show ?thesis by (subst (asm) le_ReadUintN_loop.simps) auto
  qed
qed

lemma be_ReadUintN_loop_consumes:
  "be_ReadUintN_loop len i res b = Inr (x, r) \<Longrightarrow> i \<le> len \<Longrightarrow>
   \<exists>bs. length bs = unat len - unat i \<and> b = bs @ r"
proof (induction len i res b rule: be_ReadUintN_loop.induct)
  case (1 len i res b)
  show ?case
  proof (cases "i < len")
    case True
    note i1 = loop_counter [OF True]
    from 1(2) True obtain c cs where c: "ReadByte b = Inr (c, cs)" "b = c # cs"
      "be_ReadUintN_loop len (i + 1)
         (res XOR push_bit (unat ((len - 1 - i) * 8)) (ucast c)) cs = Inr (x, r)"
      by (subst (asm) be_ReadUintN_loop.simps) (auto elim!: andThen_InrE simp: ReadByte_Inr_iff)
    then obtain bs where "length bs = unat len - unat (i + 1)" "cs = bs @ r"
      using 1(1) [OF True c(1)] i1 by blast
    then show ?thesis
      using c i1 True by (intro exI [of _ "c # bs"]) (auto simp: word_less_nat_alt)
  next
    case False
    with 1 show ?thesis by (subst (asm) be_ReadUintN_loop.simps) auto
  qed
qed

lemma unat_small [simp]: "n \<le> 8 \<Longrightarrow> unat (of_nat n :: uint8) = n"
  by (simp only: unat_of_nat) simp

lemma of_nat_mod_word:
  "(of_nat (x mod 18446744073709551616) :: uint64) = of_nat x"
  "(of_nat (x mod 4294967296) :: uint32) = of_nat x"
  "(of_nat (x mod 65536) :: uint16) = of_nat x"
  by (simp_all add: word_unat_eq_iff unat_of_nat)

lemma be_bytes_val: "le_val (rev (be_bytes n x)) = x mod 256 ^ n"
  by (simp add: be_bytes_def le_val_le_bytes)

interpretation le: byte_order littleEndian le_bytes
proof
  fix bs :: "byte list"
  show "\<exists>x < 256 ^ length bs. le_bytes (length bs) x = bs"
    using le_val_bound le_bytes_le_val by blast
next
  fix n x :: nat and r
  assume "n \<le> 8" "x < 256 ^ n"
  then show "ReadUintN littleEndian (le_bytes n x @ r) (of_nat n) = Inr (of_nat x, r)"
    by (simp add: littleEndian_def le_ReadUintN_def le_ReadUintN_loop_eq le_val_le_bytes)
next
  fix b len y r
  assume "ReadUintN littleEndian b len = Inr (y, r)"
  then show "\<exists>bs. length bs = unat len \<and> b = bs @ r"
    using le_ReadUintN_loop_consumes [of len 0 0 b] by (simp add: littleEndian_def le_ReadUintN_def)
qed (simp_all add: littleEndian_def reads_le reads_short writes_le writes_le_checked
    le_val_le_bytes of_nat_mod_word le_ReadUintN_def le_ReadUintN_loop_short)

interpretation be: byte_order bigEndian be_bytes
proof
  fix bs :: "byte list"
  show "\<exists>x < 256 ^ length bs. be_bytes (length bs) x = bs"
    using le_val_bound [of "rev bs"] le_bytes_le_val [of "rev bs"]
    by (auto simp: be_bytes_def intro!: exI [of _ "le_val (rev bs)"])
next
  fix n x :: nat and r
  assume "n \<le> 8" "x < 256 ^ n"
  then show "ReadUintN bigEndian (be_bytes n x @ r) (of_nat n) = Inr (of_nat x, r)"
    using be_ReadUintN_loop_eq [of "of_nat n" 0 "be_bytes n x" 0 0 r]
    by (simp add: bigEndian_def be_ReadUintN_def be_bytes_val) (simp add: be_bytes_def)
next
  fix b len y r
  assume "ReadUintN bigEndian b len = Inr (y, r)"
  then show "\<exists>bs. length bs = unat len \<and> b = bs @ r"
    using be_ReadUintN_loop_consumes [of len 0 0 b] by (simp add: bigEndian_def be_ReadUintN_def)
qed (simp_all add: bigEndian_def reads_be reads_short writes_be writes_le writes_le_checked
    be_bytes_def le_val_le_bytes of_nat_mod_word be_ReadUintN_def be_ReadUintN_loop_short)

interpretation bo: byte_order "GetByteOrder v" "wire_bytes v" for v
  by (cases "v < Version39")
    (simp_all add: GetByteOrder_def wire_bytes_def le.byte_order_axioms be.byte_order_axioms)

section \<open>The floating point format\<close>

text \<open>
  \<open>exponent_search n off\<close>: started with step \<open>off\<close> on a value below \<open>2^(11 + n)\<close> the
  binary search shifts out exactly the bits above the 12-bit mantissa.
\<close>

definition exponent_search :: "nat \<Rightarrow> uint16 \<Rightarrow> bool" where
  "exponent_search n off \<longleftrightarrow>
     (\<forall>e v. 2 ^ 11 \<le> unat v \<and> unat v < 2 ^ (11 + n) \<longrightarrow>
        (\<exists>d<n. writeUfloat16_loop off e v = (e + of_nat d, drop_bit d v)
           \<and> 2 ^ 11 \<le> unat v div 2 ^ d \<and> unat v div 2 ^ d < 2 ^ 12))"

lemma exponent_search_0: "exponent_search 1 0"
  by (simp add: exponent_search_def writeUfloat16_loop.simps)

lemma exponent_search_step:
  assumes IH: "exponent_search n (off div 2)" and off: "unat off = n" "0 < n" "n \<le> 16"
  shows "exponent_search (2 * n) off"
  unfolding exponent_search_def
proof (intro allI impI, elim conjE)
  fix e :: uint16 and v :: uint64
  assume v: "2 ^ 11 \<le> unat v" "unat v < 2 ^ (11 + 2 * n)"
  have u: "unat (11 + off) = 11 + n" using off by (simp add: unat_word_ariths)
  have p: "unat (push_bit (11 + n) 1 :: uint64) = 2 ^ (11 + n)"
    using off by (intro unat_push_bit_1) simp
  have pos: "0 < off" using off by (simp add: word_less_nat_alt)
  show "\<exists>d<2 * n. writeUfloat16_loop off e v = (e + of_nat d, drop_bit d v)
      \<and> 2 ^ 11 \<le> unat v div 2 ^ d \<and> unat v div 2 ^ d < 2 ^ 12"
  proof (cases "2 ^ (11 + n) \<le> unat v")
    case True
    let ?w = "drop_bit n v"
    have w: "unat ?w = unat v div 2 ^ n" by (rule unat_drop_bit)
    have "2 ^ 11 \<le> unat ?w"
      using True by (simp add: w power_add less_eq_div_iff_mult_less_eq algebra_simps)
    moreover have "unat v < 2 ^ (11 + n) * 2 ^ n"
      using v(2) by (simp only: power_add [symmetric] mult_2 add.assoc)
    then have "unat ?w < 2 ^ (11 + n)" unfolding w by (rule less_mult_imp_div_less)
    ultimately obtain d where d: "d < n"
      "writeUfloat16_loop (off div 2) (e + off) ?w = (e + off + of_nat d, drop_bit d ?w)"
      "2 ^ 11 \<le> unat ?w div 2 ^ d" "unat ?w div 2 ^ d < 2 ^ 12"
      using IH unfolding exponent_search_def by blast
    moreover have "writeUfloat16_loop off e v = writeUfloat16_loop (off div 2) (e + off) ?w"
      using True pos by (subst writeUfloat16_loop.simps) (simp add: u off p word_le_nat_alt del: push_bit_of_1)
    moreover have "of_nat n = off" using off(1) by auto
    ultimately show ?thesis
      by (intro exI [of _ "d + n"])
        (simp add: w div_mult2_eq [symmetric] power_add mult.commute algebra_simps)
  next
    case False
    then obtain d where d: "d < n" "writeUfloat16_loop (off div 2) e v = (e + of_nat d, drop_bit d v)"
      "2 ^ 11 \<le> unat v div 2 ^ d" "unat v div 2 ^ d < 2 ^ 12"
      using IH v unfolding exponent_search_def by (meson linorder_not_le)
    moreover have "writeUfloat16_loop off e v = writeUfloat16_loop (off div 2) e v"
      using False pos by (subst writeUfloat16_loop.simps) (simp add: u p word_le_nat_alt del: push_bit_of_1)
    ultimately show ?thesis by (intro exI [of _ d]) simp
  qed
qed

lemma exponent_search_16: "exponent_search 32 16"
proof -
  have "exponent_search 2 1" using exponent_search_step [of 1 1] exponent_search_0 by simp
  then have "exponent_search 4 2" using exponent_search_step [of 2 2] by simp
  then have "exponent_search 8 4" using exponent_search_step [of 4 4] by simp
  then have "exponent_search 16 8" using exponent_search_step [of 8 8] by simp
  then show ?thesis using exponent_search_step [of 16 16] by simp
qed

lemma unat_uFloat16MaxValue: "unat uFloat16MaxValue = 4095 * 2 ^ 30"
  by (simp add: uFloat16MaxValue_def push_bit_eq_mult)

lemma unat_2p12: "unat (push_bit 12 1 :: uint64) = 4096"
  by (simp add: push_bit_eq_mult)

lemma encodeUfloat16_small: "unat v < 4096 \<Longrightarrow> unat (encodeUfloat16 v) = unat v"
  by (simp add: encodeUfloat16_def word_less_nat_alt unat_2p12 unsigned_ucast_eq
      take_bit_nat_eq_self del: push_bit_of_1)

lemma encodeUfloat16_big:
  assumes "4096 \<le> unat v" "unat v < 4095 * 2 ^ 30"
  obtains d where "1 \<le> d" "d \<le> 30" "2048 \<le> unat v div 2 ^ d" "unat v div 2 ^ d < 4096"
    "unat (encodeUfloat16 v) = unat v div 2 ^ d + d * 2048"
proof -
  obtain d where d: "d < 32" "writeUfloat16_loop 16 0 v = (of_nat d, drop_bit d v)"
    "2048 \<le> unat v div 2 ^ d" "unat v div 2 ^ d < 4096"
    using exponent_search_16 [unfolded exponent_search_def, rule_format, of v 0] assms by auto
  have "d \<noteq> 0" using d(4) assms(1) by (cases "d = 0") auto
  moreover have "d \<noteq> 31"
  proof
    assume "d = 31"
    moreover have "unat v div 2 ^ 31 < 2048"
      using assms(2) by (intro less_mult_imp_div_less) simp
    ultimately show False using d(3) by simp
  qed
  ultimately have dd: "1 \<le> d" "d \<le> 30" using d(1) by auto
  let ?m = "unat v div 2 ^ d"
  have "ucast (drop_bit d v) = (of_nat ?m :: uint16)" by (simp only: ucast_as_nat unat_drop_bit)
  moreover have "\<not> v < push_bit 12 1" "\<not> uFloat16MaxValue \<le> v"
    using assms unfolding word_less_nat_alt word_le_nat_alt unat_2p12 unat_uFloat16MaxValue by auto
  ultimately have "encodeUfloat16 v = of_nat (?m + d * 2048)"
    using d(2) by (simp add: encodeUfloat16_def push_bit_eq_mult del: push_bit_of_1)
  moreover have "?m + d * 2048 < 2 ^ 16" using d(4) dd by simp
  ultimately have "unat (encodeUfloat16 v) = ?m + d * 2048"
    by (simp only: unat_of_nat) simp
  then show thesis using that dd d by blast
qed

lemma decodeUfloat16_small: "unat w < 4096 \<Longrightarrow> unat (decodeUfloat16 w) = unat w"
  by (simp add: decodeUfloat16_def Let_def word_less_nat_alt unat_2p12 unsigned_ucast_eq
      take_bit_nat_eq_self del: push_bit_of_1)

lemma decodeUfloat16_big:
  assumes "1 \<le> d" "d \<le> 30" "2048 \<le> m" "m < 4096" "unat w = m + d * 2048"
  shows "unat (decodeUfloat16 w) = m * 2 ^ d"
proof -
  have e: "unat (drop_bit 11 w - 1) = d"
    using assms by (simp add: unat_word_ariths unat_sub_if' unat_drop_bit)
  have big: "\<not> (ucast w :: uint64) < push_bit 12 1"
    using assms by (simp add: word_less_nat_alt unat_2p12 unsigned_ucast_eq take_bit_nat_eq_self
        del: push_bit_of_1)
  have "(ucast w :: uint64) = of_nat (unat w)" "(ucast (drop_bit 11 w - 1) :: uint64) = of_nat d"
    by (simp_all only: ucast_as_nat e)
  then have "decodeUfloat16 w = of_nat (m * 2 ^ d)"
    using big e assms(5) by (simp add: decodeUfloat16_def Let_def push_bit_eq_mult)
  moreover have "(2 :: nat) ^ d \<le> 2 ^ 30" using assms by (intro power_increasing) auto
  then have "m * 2 ^ d < 4096 * 2 ^ 30"
    using assms by (intro mult_less_le_imp_less) auto
  ultimately show ?thesis by (simp only: unat_of_nat) simp
qed

text \<open>The exponent of a value is unique.\<close>

lemma mantissa_unique:
  fixes x :: nat
  assumes "2048 \<le> x div 2 ^ d" "x div 2 ^ d < 4096" "2048 \<le> x div 2 ^ e" "x div 2 ^ e < 4096"
  shows "d = e"
proof -
  have le: "k \<le> j" if "2048 \<le> x div 2 ^ k" "x div 2 ^ j < 4096" for k j
  proof (rule ccontr)
    assume "\<not> k \<le> j"
    then have "x div 2 ^ k \<le> x div 2 ^ Suc j" by (intro div_le_mono2 power_increasing) auto
    also have "\<dots> = x div 2 ^ j div 2" by (metis div_mult2_eq power_Suc2)
    finally show False using that by simp
  qed
  show ?thesis using le [OF assms(1,4)] le [OF assms(3,2)] by simp
qed

lemma encodeUfloat16_max: "4095 * 2 ^ 30 \<le> unat v \<Longrightarrow> encodeUfloat16 v = 0xFFFF"
proof -
  assume v: "4095 * 2 ^ 30 \<le> unat v"
  then have "\<not> v < push_bit 12 1" "uFloat16MaxValue \<le> v"
    unfolding word_less_nat_alt word_le_nat_alt unat_2p12 unat_uFloat16MaxValue by auto
  then show ?thesis by (simp add: encodeUfloat16_def del: push_bit_of_1)
qed

lemma decode_encode_ufloat16:
  defines "y \<equiv> \<lambda>x. unat (decodeUfloat16 (encodeUfloat16 x))"
  shows "y x \<le> unat x \<and> 2048 * (min (unat x) (unat uFloat16MaxValue) - y x) \<le> unat x
     \<and> (if unat x < 4096 then decodeUfloat16 (encodeUfloat16 x) = x else 4096 \<le> y x)"
proof -
  consider "unat x < 4096" | "4096 \<le> unat x" "unat x < 4095 * 2 ^ 30" | "4095 * 2 ^ 30 \<le> unat x"
    by linarith
  then show ?thesis
  proof cases
    case 1
    then have "y x = unat x"
      by (simp add: y_def encodeUfloat16_small decodeUfloat16_small)
    then show ?thesis using 1 by (simp add: y_def word_unat_eq_iff)
  next
    case 2
    obtain d where d: "1 \<le> d" "d \<le> 30" "2048 \<le> unat x div 2 ^ d" "unat x div 2 ^ d < 4096"
      "unat (encodeUfloat16 x) = unat x div 2 ^ d + d * 2048"
      using encodeUfloat16_big [OF 2] by blast
    then have y: "y x = unat x div 2 ^ d * 2 ^ d"
      unfolding y_def by (intro decodeUfloat16_big)
    have rest: "unat x - y x = unat x mod 2 ^ d" "y x \<le> unat x"
      by (simp_all add: y minus_div_mult_eq_mod)
    have low: "2048 * 2 ^ d \<le> y x" unfolding y using d(3) by (rule mult_le_mono1)
    have "unat x mod 2 ^ d \<le> 2 ^ d" by (simp add: less_imp_le)
    then have "2048 * (unat x mod 2 ^ d) \<le> 2048 * 2 ^ d" by (rule mult_le_mono2)
    with low rest(2) have "2048 * (unat x mod 2 ^ d) \<le> unat x" by linarith
    moreover have "(2 :: nat) ^ 1 \<le> 2 ^ d" using d(1) by (intro power_increasing) auto
    ultimately show ?thesis
      using rest low 2 by (simp add: unat_uFloat16MaxValue)
  next
    case 3
    then have "y x = 4095 * 2 ^ 30"
      unfolding y_def encodeUfloat16_max [OF 3] by (intro decodeUfloat16_big) simp_all
    then show ?thesis using 3 by (simp add: unat_uFloat16MaxValue)
  qed
qed

lemma encode_decode_ufloat16: "encodeUfloat16 (decodeUfloat16 w) = w"
proof (cases "unat w < 4096")
  case True
  then show ?thesis
    by (simp add: word_unat_eq_iff decodeUfloat16_small encodeUfloat16_small)
next
  case False
  define d m where "d = unat w div 2048 - 1" and "m = unat w - d * 2048"
  have wb: "unat w < 65536" using unsigned_less [of w] by simp
  have d: "1 \<le> d" "d \<le> 30" using False wb by (auto simp: d_def)
  have m: "2048 \<le> m" "m < 4096" "unat w = m + d * 2048"
    using False by (auto simp: d_def m_def)
  have dec: "unat (decodeUfloat16 w) = m * 2 ^ d" using decodeUfloat16_big [OF d m] .
  show ?thesis
  proof (cases "m * 2 ^ d < 4095 * 2 ^ 30")
    case True
    have "(2 :: nat) ^ 1 \<le> 2 ^ d" using d by (intro power_increasing) auto
    then have "2048 * 2 \<le> m * 2 ^ d" using m by (intro mult_le_mono) auto
    then obtain e where e: "2048 \<le> m * 2 ^ d div 2 ^ e" "m * 2 ^ d div 2 ^ e < 4096"
      "unat (encodeUfloat16 (decodeUfloat16 w)) = m * 2 ^ d div 2 ^ e + e * 2048"
      using encodeUfloat16_big [of "decodeUfloat16 w"] True dec by auto
    then have "d = e" using m by (intro mantissa_unique [of "m * 2 ^ d"]) auto
    then show ?thesis using e m by (simp add: word_unat_eq_iff)
  next
    case False
    have "d = 30"
    proof (rule ccontr)
      assume "d \<noteq> 30"
      then have "(2 :: nat) ^ d \<le> 2 ^ 29" using d by (intro power_increasing) auto
      then have "m * 2 ^ d \<le> 4095 * 2 ^ 29" using m by (intro mult_le_mono) auto
      then show False using False by simp
    qed
    with False m have "unat w = unat (0xFFFF :: uint16)" by simp
    then have "w = 0xFFFF" by (simp only: word_unat_eq_iff)
    then show ?thesis using False dec encodeUfloat16_max [of "decodeUfloat16 w"] by simp
  qed
qed

section \<open>Properties\<close>

text \<open>
  Both byte orders: whatever the version, reading back a value just written returns
  it and leaves the rest of the input, for all four native widths and for the four
  widths that are written with a bounds check; those panic exactly when the value
  does not fit.
\<close>

theorem byteOrder_roundtrip:
  "ReadUint64 (GetByteOrder v) (WriteUint64 (GetByteOrder v) i @ r) = Inr (i, r)
   \<and> ReadUint32 (GetByteOrder v) (WriteUint32 (GetByteOrder v) k @ r) = Inr (k, r)
   \<and> ReadUint16 (GetByteOrder v) (WriteUint16 (GetByteOrder v) h @ r) = Inr (h, r)
   \<and> okThen (WriteUint56 (GetByteOrder v) i) (\<lambda>bs. ReadUintN (GetByteOrder v) (bs @ r) 7) =
       (if unat i < 2 ^ 56 then Inr (i, r) else Inl (Panic ''doesn't fit into 56 bits''))
   \<and> okThen (WriteUint48 (GetByteOrder v) i) (\<lambda>bs. ReadUintN (GetByteOrder v) (bs @ r) 6) =
       (if unat i < 2 ^ 48 then Inr (i, r) else Inl (Panic ''doesn't fit into 48 bits''))
   \<and> okThen (WriteUint40 (GetByteOrder v) i) (\<lambda>bs. ReadUintN (GetByteOrder v) (bs @ r) 5) =
       (if unat i < 2 ^ 40 then Inr (i, r) else Inl (Panic ''doesn't fit into 40 bits''))
   \<and> okThen (WriteUint24 (GetByteOrder v) k) (\<lambda>bs. ReadUintN (GetByteOrder v) (bs @ r) 3) =
       (if unat k < 2 ^ 24 then Inr (ucast k, r) else Inl (Panic ''doesn't fit into 24 bits''))"
proof -
  have lt: "i < 2 ^ 56 \<longleftrightarrow> unat i < 2 ^ 56" "i < 2 ^ 48 \<longleftrightarrow> unat i < 2 ^ 48"
    "i < 2 ^ 40 \<longleftrightarrow> unat i < 2 ^ 40" "k < 2 ^ 24 \<longleftrightarrow> unat k < 2 ^ 24"
    by (simp_all add: word_less_nat_alt)
  show ?thesis
    using bo.ReadUintN_checked_write(1-3) [of v i _ r] bo.ReadUintN_checked_write(4) [of v k _ r]
    by (simp add: bo.WriteUint56_enc bo.WriteUint48_enc bo.WriteUint40_enc bo.WriteUint24_enc lt
        del: power_numeral)
qed

text \<open>
  The ACK delay format: writing a value as a 16-bit float and reading it back
  returns the value itself below 4096, rounds down with a relative error below
  \<open>2^(-11)\<close> up to the largest representable value, and clamps above it; conversely
  every one of the 65536 encodings survives being read and written again.
\<close>

theorem ufloat16_roundtrip:
  "(\<exists>y. readUfloat16 (writeUfloat16 (GetByteOrder v) x @ r) (GetByteOrder v) = Inr (y, r)
      \<and> unat y \<le> unat x
      \<and> 2048 * (min (unat x) (unat uFloat16MaxValue) - unat y) \<le> unat x
      \<and> (if unat x < 4096 then y = x else 4096 \<le> unat y))
   \<and> encodeUfloat16 (decodeUfloat16 w) = w"
  using decode_encode_ufloat16 [of x] encode_decode_ufloat16 [of w] by simp

end
