(* ===== verification/Frames.thy ===== *)
theory Frames
  imports ByteOrder
begin

unbundle bit_operations_syntax

text \<open>
  The frames of \<open>internal/wire\<close> whose encoding has a fixed layout: RST_STREAM,
  WINDOW_UPDATE, BLOCKED, PING, GOAWAY, CONNECTION_CLOSE, STOP_WAITING, ADD_ADDRESS
  and PATHS. A \<open>Write\<close> method returns the bytes it appends to the buffer, or the
  error (the callers drop the buffer then). A parser starts at the type byte and
  returns the frame with the unread rest. The locale \<open>frame_codec\<close> is the contract
  between the packer, which relies on \<open>MinLength\<close>, and the unpacker.
\<close>

section \<open>Error codes\<close>

definition InternalError :: ErrorCode where "InternalError = 1"
definition InvalidPacketHeader :: ErrorCode where "InvalidPacketHeader = 3"
definition InvalidFrameData :: ErrorCode where "InvalidFrameData = 4"
definition InvalidRstStreamData :: ErrorCode where "InvalidRstStreamData = 6"
definition InvalidConnectionCloseData :: ErrorCode where "InvalidConnectionCloseData = 7"
definition InvalidGoawayData :: ErrorCode where "InvalidGoawayData = 8"
definition InvalidAckData :: ErrorCode where "InvalidAckData = 9"
definition DecryptionFailure :: ErrorCode where "DecryptionFailure = 12"
definition InvalidStreamID :: ErrorCode where "InvalidStreamID = 17"
definition InvalidStreamData :: ErrorCode where "InvalidStreamData = 46"
definition MissingPayload :: ErrorCode where "MissingPayload = 48"
definition EmptyStreamFrameNoFin :: ErrorCode where "EmptyStreamFrameNoFin = 50"
definition InvalidWindowUpdateData :: ErrorCode where "InvalidWindowUpdateData = 57"
definition InvalidBlockedData :: ErrorCode where "InvalidBlockedData = 58"
definition InvalidStopWaitingData :: ErrorCode where "InvalidStopWaitingData = 60"
definition UnencryptedStreamData :: ErrorCode where "UnencryptedStreamData = 61"
definition InvalidPathCloseData :: ErrorCode where "InvalidPathCloseData = 78"

section \<open>Numbers in the width of a packet number\<close>

text \<open>
  The \<open>switch\<close> over \<open>PacketNumberLen1/2/4/6\<close> that STOP_WAITING, ACK and the public
  header share; \<open>other\<close> is what the \<open>default\<close> branch does.
\<close>

definition writeNumber ::
  "VersionNumber \<Rightarrow> PacketNumberLen \<Rightarrow> uint64 \<Rightarrow> go_error + byte list \<Rightarrow> go_error + byte list" where
  "writeNumber version len x other =
     (if len = PacketNumberLen1 then Inr [ucast x]
      else if len = PacketNumberLen2 then Inr (WriteUint16 (GetByteOrder version) (ucast x))
      else if len = PacketNumberLen4 then Inr (WriteUint32 (GetByteOrder version) (ucast x))
      else if len = PacketNumberLen6
      then WriteUint48 (GetByteOrder version) (x AND (push_bit 48 1 - 1))
      else other)"

lemma writeNumber_read:
  assumes "len \<in> {1, 2, 4, 6}"
  obtains ds where "\<And>other. writeNumber v len x other = Inr ds" "length ds = unat len"
    "\<And>r. ReadUintN (GetByteOrder v) (ds @ r) len = Inr (take_bit (8 * unat len) x, r)"
proof -
  have trunc: "(ucast (ucast x :: byte) :: uint64) = take_bit 8 x"
    "(ucast (ucast x :: uint16) :: uint64) = take_bit 16 x"
    "(ucast (ucast x :: uint32) :: uint64) = take_bit 32 x"
    by (rule bit_eqI; auto simp: bit_simps)+
  have m: "x AND (push_bit 48 1 - 1) = take_bit 48 x"
    by (simp add: take_bit_eq_mask mask_eq_exp_minus_1 push_bit_eq_mult)
  have "unat (take_bit 48 x) < 2 ^ 48" by (simp add: unat_take_bit)
  then have "take_bit 48 x < 2 ^ 48" by (simp add: word_less_nat_alt)
  from bo.checked_write_ok(2) [OF this, of v] obtain b6
    where b6: "WriteUint48 (GetByteOrder v) (take_bit 48 x) = Inr b6" by blast
  note r6 = bo.ReadUintN_checked_write(2) [OF b6] bo.length_checked_writes(2) [OF b6]
  from assms consider "len = 1" | "len = 2" | "len = 4" | "len = 6" by blast
  then show thesis
  proof cases
    case 1
    show thesis by (rule that [of "[ucast x]"])
      (use 1 trunc in \<open>simp_all add: writeNumber_def PacketNumberLen_defs\<close>)
  next
    case 2
    show thesis by (rule that [of "WriteUint16 (GetByteOrder v) (ucast x)"])
      (use 2 trunc in \<open>simp_all add: writeNumber_def PacketNumberLen_defs\<close>)
  next
    case 3
    show thesis by (rule that [of "WriteUint32 (GetByteOrder v) (ucast x)"])
      (use 3 trunc in \<open>simp_all add: writeNumber_def PacketNumberLen_defs\<close>)
  next
    case 4
    show thesis by (rule that [of b6])
      (use 4 r6 b6 in \<open>simp_all add: writeNumber_def PacketNumberLen_defs m del: push_bit_of_1\<close>)
  qed
qed

lemma take_bit_bytes: "unat x < 256 ^ n \<Longrightarrow> take_bit (8 * n) x = x"
  by (rule take_bit_id_iff) (simp add: power_mult)

section \<open>RST_STREAM\<close>

record RstStreamFrame =
  rst_StreamID :: StreamID
  rst_ErrorCode :: uint32
  rst_ByteOffset :: ByteCount

definition RstStreamFrame_Write :: "RstStreamFrame \<Rightarrow> VersionNumber \<Rightarrow> go_error + byte list" where
  "RstStreamFrame_Write f version =
     Inr ([0x01] @ WriteUint32 (GetByteOrder version) (rst_StreamID f)
          @ WriteUint64 (GetByteOrder version) (rst_ByteOffset f)
          @ WriteUint32 (GetByteOrder version) (rst_ErrorCode f))"

definition RstStreamFrame_MinLength :: "RstStreamFrame \<Rightarrow> VersionNumber \<Rightarrow> go_error + ByteCount" where
  "RstStreamFrame_MinLength f version = Inr (1 + 4 + 8 + 4)"

definition ParseRstStreamFrame ::
  "reader \<Rightarrow> VersionNumber \<Rightarrow> go_error + (RstStreamFrame \<times> reader)" where
  "ParseRstStreamFrame r version =
     andThen (ReadByte r) (\<lambda>_ r.
     andThen (ReadUint32 (GetByteOrder version) r) (\<lambda>sid r.
     andThen (ReadUint64 (GetByteOrder version) r) (\<lambda>byteOffset r.
     andThen (ReadUint32 (GetByteOrder version) r) (\<lambda>errorCode r.
       Inr (\<lparr> rst_StreamID = sid, rst_ErrorCode = errorCode, rst_ByteOffset = byteOffset \<rparr>, r)))))"

section \<open>WINDOW_UPDATE\<close>

record WindowUpdateFrame =
  wuf_StreamID :: StreamID
  wuf_ByteOffset :: ByteCount

definition WindowUpdateFrame_Write ::
  "WindowUpdateFrame \<Rightarrow> VersionNumber \<Rightarrow> go_error + byte list" where
  "WindowUpdateFrame_Write f version =
     Inr ([0x4] @ WriteUint32 (GetByteOrder version) (wuf_StreamID f)
          @ WriteUint64 (GetByteOrder version) (wuf_ByteOffset f))"

definition WindowUpdateFrame_MinLength ::
  "WindowUpdateFrame \<Rightarrow> VersionNumber \<Rightarrow> go_error + ByteCount" where
  "WindowUpdateFrame_MinLength f version = Inr (1 + 4 + 8)"

definition ParseWindowUpdateFrame ::
  "reader \<Rightarrow> VersionNumber \<Rightarrow> go_error + (WindowUpdateFrame \<times> reader)" where
  "ParseWindowUpdateFrame r version =
     andThen (ReadByte r) (\<lambda>_ r.
     andThen (ReadUint32 (GetByteOrder version) r) (\<lambda>sid r.
     andThen (ReadUint64 (GetByteOrder version) r) (\<lambda>byteOffset r.
       Inr (\<lparr> wuf_StreamID = sid, wuf_ByteOffset = byteOffset \<rparr>, r))))"

section \<open>BLOCKED\<close>

record BlockedFrame =
  blocked_StreamID :: StreamID

definition BlockedFrame_Write :: "BlockedFrame \<Rightarrow> VersionNumber \<Rightarrow> go_error + byte list" where
  "BlockedFrame_Write f version =
     Inr ([0x05] @ WriteUint32 (GetByteOrder version) (blocked_StreamID f))"

definition BlockedFrame_MinLength :: "BlockedFrame \<Rightarrow> VersionNumber \<Rightarrow> go_error + ByteCount" where
  "BlockedFrame_MinLength f version = Inr (1 + 4)"

definition ParseBlockedFrame ::
  "reader \<Rightarrow> VersionNumber \<Rightarrow> go_error + (BlockedFrame \<times> reader)" where
  "ParseBlockedFrame r version =
     andThen (ReadByte r) (\<lambda>_ r.
     andThen (ReadUint32 (GetByteOrder version) r) (\<lambda>sid r.
       Inr (\<lparr> blocked_StreamID = sid \<rparr>, r)))"

section \<open>PING\<close>

datatype PingFrame = PingFrame

definition PingFrame_Write :: "PingFrame \<Rightarrow> VersionNumber \<Rightarrow> go_error + byte list" where
  "PingFrame_Write f version = Inr [0x07]"

definition PingFrame_MinLength :: "PingFrame \<Rightarrow> VersionNumber \<Rightarrow> go_error + ByteCount" where
  "PingFrame_MinLength f version = Inr 1"

definition ParsePingFrame :: "reader \<Rightarrow> VersionNumber \<Rightarrow> go_error + (PingFrame \<times> reader)" where
  "ParsePingFrame r version = andThen (ReadByte r) (\<lambda>_ r. Inr (PingFrame, r))"

section \<open>GOAWAY\<close>

record GoawayFrame =
  goaway_ErrorCode :: ErrorCode
  goaway_LastGoodStream :: StreamID
  goaway_ReasonPhrase :: "byte list"

definition ParseGoawayFrame ::
  "reader \<Rightarrow> VersionNumber \<Rightarrow> go_error + (GoawayFrame \<times> reader)" where
  "ParseGoawayFrame r version =
     andThen (ReadByte r) (\<lambda>_ r.
     andThen (ReadUint32 (GetByteOrder version) r) (\<lambda>errorCode r.
     andThen (ReadUint32 (GetByteOrder version) r) (\<lambda>lastGoodStream r.
     andThen (ReadUint16 (GetByteOrder version) r) (\<lambda>reasonPhraseLen r.
       if reasonPhraseLen > ucast MaxPacketSize
       then Inl (QuicError InvalidGoawayData ''reason phrase too long'')
       else andThen (ReadFull (unat reasonPhraseLen) r) (\<lambda>reasonPhrase r.
         Inr (\<lparr> goaway_ErrorCode = errorCode, goaway_LastGoodStream = lastGoodStream,
                goaway_ReasonPhrase = reasonPhrase \<rparr>, r))))))"

definition GoawayFrame_Write :: "GoawayFrame \<Rightarrow> VersionNumber \<Rightarrow> go_error + byte list" where
  "GoawayFrame_Write f version =
     Inr ([0x03] @ WriteUint32 (GetByteOrder version) (goaway_ErrorCode f)
          @ WriteUint32 (GetByteOrder version) (goaway_LastGoodStream f)
          @ WriteUint16 (GetByteOrder version) (of_nat (length (goaway_ReasonPhrase f)))
          @ goaway_ReasonPhrase f)"

definition GoawayFrame_MinLength :: "GoawayFrame \<Rightarrow> VersionNumber \<Rightarrow> go_error + ByteCount" where
  "GoawayFrame_MinLength f version =
     Inr (of_nat (1 + 4 + 4 + 2 + length (goaway_ReasonPhrase f)))"

section \<open>CONNECTION_CLOSE\<close>

record ConnectionCloseFrame =
  ccf_ErrorCode :: ErrorCode
  ccf_ReasonPhrase :: "byte list"

definition ParseConnectionCloseFrame ::
  "reader \<Rightarrow> VersionNumber \<Rightarrow> go_error + (ConnectionCloseFrame \<times> reader)" where
  "ParseConnectionCloseFrame r version =
     andThen (ReadByte r) (\<lambda>_ r.
     andThen (ReadUint32 (GetByteOrder version) r) (\<lambda>errorCode r.
     andThen (ReadUint16 (GetByteOrder version) r) (\<lambda>reasonPhraseLen r.
       if reasonPhraseLen > ucast MaxPacketSize
       then Inl (QuicError InvalidConnectionCloseData ''reason phrase too long'')
       else andThen (ReadFull (unat reasonPhraseLen) r) (\<lambda>reasonPhrase r.
         Inr (\<lparr> ccf_ErrorCode = errorCode, ccf_ReasonPhrase = reasonPhrase \<rparr>, r)))))"

definition ConnectionCloseFrame_MinLength ::
  "ConnectionCloseFrame \<Rightarrow> VersionNumber \<Rightarrow> go_error + ByteCount" where
  "ConnectionCloseFrame_MinLength f version =
     Inr (1 + 4 + 2 + of_nat (length (ccf_ReasonPhrase f)))"

definition ConnectionCloseFrame_Write ::
  "ConnectionCloseFrame \<Rightarrow> VersionNumber \<Rightarrow> go_error + byte list" where
  "ConnectionCloseFrame_Write f version =
     (let b = [0x02] @ WriteUint32 (GetByteOrder version) (ccf_ErrorCode f)
      in if length (ccf_ReasonPhrase f) > 65535
         then Inl (GoErr ''ConnectionFrame: ReasonPhrase too long'')
         else Inr (b @ WriteUint16 (GetByteOrder version) (of_nat (length (ccf_ReasonPhrase f)))
                     @ ccf_ReasonPhrase f))"

section \<open>STOP_WAITING\<close>

record StopWaitingFrame =
  swf_LeastUnacked :: PacketNumber
  swf_PacketNumberLen :: PacketNumberLen
  swf_PacketNumber :: PacketNumber

definition errLeastUnackedHigherThanPacketNumber :: go_error where
  "errLeastUnackedHigherThanPacketNumber =
     GoErr ''StopWaitingFrame: LeastUnacked can't be greater than the packet number''"

definition errPacketNumberNotSet :: go_error where
  "errPacketNumberNotSet = GoErr ''StopWaitingFrame: PacketNumber not set''"

definition errPacketNumberLenNotSet :: go_error where
  "errPacketNumberLenNotSet = GoErr ''StopWaitingFrame: PacketNumberLen not set''"

definition StopWaitingFrame_Write ::
  "StopWaitingFrame \<Rightarrow> VersionNumber \<Rightarrow> go_error + byte list" where
  "StopWaitingFrame_Write f version =
     (if swf_PacketNumber f = 0 then Inl errPacketNumberNotSet
      else if swf_LeastUnacked f > swf_PacketNumber f
      then Inl errLeastUnackedHigherThanPacketNumber
      else let leastUnackedDelta = swf_PacketNumber f - swf_LeastUnacked f;
               len = swf_PacketNumberLen f
           in okThen (writeNumber version len leastUnackedDelta (Inl errPacketNumberLenNotSet))
                (\<lambda>d. Inr ([0x06] @ d)))"

definition StopWaitingFrame_MinLength ::
  "StopWaitingFrame \<Rightarrow> VersionNumber \<Rightarrow> go_error + ByteCount" where
  "StopWaitingFrame_MinLength f version =
     (if swf_PacketNumberLen f = PacketNumberLenInvalid then Inl errPacketNumberLenNotSet
      else Inr (1 + ucast (swf_PacketNumberLen f)))"

definition ParseStopWaitingFrame ::
  "reader \<Rightarrow> PacketNumber \<Rightarrow> PacketNumberLen \<Rightarrow> VersionNumber
     \<Rightarrow> go_error + (StopWaitingFrame \<times> reader)" where
  "ParseStopWaitingFrame r packetNumber packetNumberLen version =
     andThen (ReadByte r) (\<lambda>_ r.
     andThen (ReadUintN (GetByteOrder version) r packetNumberLen) (\<lambda>leastUnackedDelta r.
       if leastUnackedDelta \<ge> packetNumber
       then Inl (QuicError InvalidStopWaitingData ''invalid LeastUnackedDelta'')
       else Inr (\<lparr> swf_LeastUnacked = packetNumber - leastUnackedDelta,
                   swf_PacketNumberLen = 0, swf_PacketNumber = 0 \<rparr>, r)))"

section \<open>ADD_ADDRESS\<close>

text \<open>
  An address of \<open>net.UDPAddr\<close>: the IP is a byte slice of length 4 or 16. \<open>To4\<close>,
  \<open>To16\<close> and \<open>net.IPv4\<close> are those of the standard library.
\<close>

record UDPAddr =
  IP :: "byte list"
  Port :: int

definition v4InV6Prefix :: "byte list" where
  "v4InV6Prefix = [0, 0, 0, 0, 0, 0, 0, 0, 0, 0, 0xff, 0xff]"

definition IPv4 :: "byte \<Rightarrow> byte \<Rightarrow> byte \<Rightarrow> byte \<Rightarrow> byte list" where
  "IPv4 a b c d = v4InV6Prefix @ [a, b, c, d]"

definition To4 :: "byte list \<Rightarrow> byte list option" where
  "To4 ip = (if length ip = 4 then Some ip
             else if length ip = 16 \<and> take 12 ip = v4InV6Prefix then Some (drop 12 ip)
             else None)"

definition To16 :: "byte list \<Rightarrow> byte list option" where
  "To16 ip = (if length ip = 4 then Some (v4InV6Prefix @ ip)
              else if length ip = 16 then Some ip else None)"

record AddAddressFrame =
  IPVersion :: uint8
  Addr :: UDPAddr

definition ErrUnknownIPVersion :: go_error where
  "ErrUnknownIPVersion = GoErr ''AddAddressFrame: unknown IP version''"

definition errInconsistentAddrIPVersion :: go_error where
  "errInconsistentAddrIPVersion =
     GoErr ''internal inconsistency: Addr does not match IP version''"

definition AddAddressFrame_Write ::
  "AddAddressFrame \<Rightarrow> VersionNumber \<Rightarrow> go_error + byte list" where
  "AddAddressFrame_Write f version =
     okThen
       (if IPVersion f = 4
        then case To4 (IP (Addr f)) of None \<Rightarrow> Inl errInconsistentAddrIPVersion
             | Some ip \<Rightarrow> Inr (map (\<lambda>i. ip ! i) [0..<4])
        else if IPVersion f = 6
        then case To16 (IP (Addr f)) of None \<Rightarrow> Inl errInconsistentAddrIPVersion
             | Some ip \<Rightarrow> Inr (map (\<lambda>i. ip ! i) [0..<16])
        else Inl ErrUnknownIPVersion)
       (\<lambda>ip. Inr ([0x10, IPVersion f] @ ip
                  @ WriteUint16 (GetByteOrder version) (word_of_int (Port (Addr f)))))"

fun readBytes :: "nat \<Rightarrow> byte list \<Rightarrow> reader \<Rightarrow> go_error + (byte list \<times> reader)" where
  "readBytes 0 ip r = Inr (ip, r)"
| "readBytes (Suc n) ip r = andThen (ReadByte r) (\<lambda>b r. readBytes n (ip @ [b]) r)"

definition ParseAddAddressFrame ::
  "reader \<Rightarrow> VersionNumber \<Rightarrow> go_error + (AddAddressFrame \<times> reader)" where
  "ParseAddAddressFrame r version =
     andThen (ReadByte r) (\<lambda>_ r.
     andThen (ReadByte r) (\<lambda>ipv r.
     andThen
       (if ipv = 4
        then andThen (ReadByte r) (\<lambda>a r. andThen (ReadByte r) (\<lambda>b r.
             andThen (ReadByte r) (\<lambda>c r. andThen (ReadByte r) (\<lambda>d r. Inr (IPv4 a b c d, r)))))
        else if ipv = 6 then readBytes 16 [] r
        else Inl ErrUnknownIPVersion) (\<lambda>ip r.
     andThen (ReadUint16 (GetByteOrder version) r) (\<lambda>port r.
       Inr (\<lparr> IPVersion = ipv, Addr = \<lparr> IP = ip, Port = uint port \<rparr> \<rparr>, r)))))"

definition AddAddressFrame_MinLength ::
  "AddAddressFrame \<Rightarrow> VersionNumber \<Rightarrow> go_error + ByteCount" where
  "AddAddressFrame_MinLength f version =
     (if IPVersion f = 4 then Inr (1 + 1 + 4 + 2)
      else if IPVersion f = 6 then Inr (1 + 1 + 16 + 2)
      else Inl ErrUnknownIPVersion)"

section \<open>PATHS\<close>

record PathsFrame =
  MaxNumPaths :: uint8
  NumPaths :: uint8
  PathIDs :: "PathID list"
  RemoteRTTs :: "Duration list"

definition ErrTooManyPaths :: go_error where
  "ErrTooManyPaths = GoErr ''PathsFrame: more paths than the maximum enabled''"

definition ErrPathsNumber :: go_error where
  "ErrPathsNumber =
     GoErr ''PathsFrame: number of paths advertised and # of paths do not match''"

definition ErrMissingRTT :: go_error where
  "ErrMissingRTT =
     GoErr ''PathsFrame: number of paths IDs and number of remote RTTs do not match''"

definition PathsFrame_Write :: "PathsFrame \<Rightarrow> VersionNumber \<Rightarrow> go_error + byte list" where
  "PathsFrame_Write f version =
     (let b = [0x12, MaxNumPaths f, NumPaths f]
      in if unat (NumPaths f) \<noteq> length (PathIDs f) then Inl ErrPathsNumber
         else if length (PathIDs f) \<noteq> length (RemoteRTTs f) then Inl ErrMissingRTT
         else Inr (b @ concat (map (\<lambda>i. PathIDs f ! i #
                 WriteUfloat16 (GetByteOrder version) (word_of_int (quot (RemoteRTTs f ! i) Microsecond)))
               [0..<length (PathIDs f)])))"

fun parsePaths :: "nat \<Rightarrow> VersionNumber \<Rightarrow> PathID list \<Rightarrow> Duration list \<Rightarrow> reader
     \<Rightarrow> go_error + ((PathID list \<times> Duration list) \<times> reader)" where
  "parsePaths 0 version ids rtts r = Inr ((ids, rtts), r)"
| "parsePaths (Suc n) version ids rtts r =
     andThen (ReadByte r) (\<lambda>pathID r.
     andThen (ReadUfloat16 (GetByteOrder version) r) (\<lambda>remoteRTT r.
       parsePaths n version (ids @ [pathID]) (rtts @ [int64 (int64 (uint remoteRTT) * Microsecond)]) r))"

definition ParsePathsFrame ::
  "reader \<Rightarrow> VersionNumber \<Rightarrow> go_error + (PathsFrame \<times> reader)" where
  "ParsePathsFrame r version =
     andThen (ReadByte r) (\<lambda>_ r.
     andThen (ReadByte r) (\<lambda>maxNum r.
     andThen (ReadByte r) (\<lambda>num r.
       if num > maxNum then Inl ErrTooManyPaths
       else andThen (parsePaths (unat num) version [] [] r) (\<lambda>(ids, rtts) r.
         Inr (\<lparr> MaxNumPaths = maxNum, NumPaths = num, PathIDs = ids, RemoteRTTs = rtts \<rparr>, r)))))"

definition PathsFrame_MinLength :: "PathsFrame \<Rightarrow> VersionNumber \<Rightarrow> go_error + ByteCount" where
  "PathsFrame_MinLength f version = Inr (ucast (1 + 1 + 1 + 3 * NumPaths f :: uint8))"

section \<open>The contract of a frame type\<close>

text \<open>
  \<open>carried f\<close> is the part of \<open>f\<close> that travels on the wire. The laws: a valid frame
  can be written, \<open>MinLength\<close> is the exact number of bytes written, the parser reads
  the frame back and leaves what follows, and a parser that succeeds consumes input.
\<close>

locale frame_codec =
  fixes encode :: "'f \<Rightarrow> VersionNumber \<Rightarrow> go_error + byte list"
    and decode :: "reader \<Rightarrow> VersionNumber \<Rightarrow> go_error + ('f \<times> reader)"
    and minLength :: "'f \<Rightarrow> VersionNumber \<Rightarrow> go_error + ByteCount"
    and valid :: "'f \<Rightarrow> bool" and carried :: "'f \<Rightarrow> 'f"
  assumes write_parse: "valid f \<Longrightarrow> \<exists>bs. encode f v = Inr bs
      \<and> (\<forall>r. decode (bs @ r) v = Inr (carried f, r))
      \<and> minLength f v = Inr (of_nat (length bs)) \<and> length bs < 2 ^ 32"
    and progress: "decode r v = Inr (f, r') \<Longrightarrow> length r' < length r"
begin

lemma write_ok: "valid f \<Longrightarrow> \<exists>bs. encode f v = Inr bs"
  using write_parse by blast

lemma parse_write: "valid f \<Longrightarrow> encode f v = Inr bs \<Longrightarrow> decode (bs @ r) v = Inr (carried f, r)"
  using write_parse [of f v] by auto

lemma minLength_exact:
  "valid f \<Longrightarrow> encode f v = Inr bs \<Longrightarrow> minLength f v = Inr n \<Longrightarrow> unat n = length bs"
  using write_parse [of f v] by (auto simp: unat_of_nat)

lemma roundtrip:
  "valid f \<Longrightarrow> okThen (encode f v) (\<lambda>bs. decode (bs @ r) v) = Inr (carried f, r)"
  "valid f \<Longrightarrow> map_sum id length (encode f v) = map_sum id unat (minLength f v)"
  using write_parse [of f v] by (auto simp: unat_of_nat)

lemma write_nonempty: "valid f \<Longrightarrow> encode f v = Inr bs \<Longrightarrow> bs \<noteq> []"
  using parse_write [of f v bs "[]"] progress [of "[]"] by auto

lemma prefix_free:
  assumes "valid f" "valid g" "encode f v = Inr bs" "encode g v = Inr cs" "bs @ r = cs @ r'"
  shows "carried f = carried g \<and> r = r'"
  using parse_write [OF assms(1,3), of r] parse_write [OF assms(2,4), of r'] assms(5) by simp

end

text \<open>Successful reads consume input.\<close>

lemma reads_progress:
  "ReadByte r = Inr (x, r') \<Longrightarrow> length r = Suc (length r')"
  "ReadUint16 (GetByteOrder v) r = Inr (h, r') \<Longrightarrow> length r = length r' + 2"
  "ReadUint32 (GetByteOrder v) r = Inr (k, r') \<Longrightarrow> length r = length r' + 4"
  "ReadUint64 (GetByteOrder v) r = Inr (i, r') \<Longrightarrow> length r = length r' + 8"
  "ReadFull n r = Inr (bs, r') \<Longrightarrow> length r = length r' + n"
  by (auto dest!: length_ReadByte bo.ReadUint16_InrD bo.ReadUint32_InrD bo.ReadUint64_InrD
      ReadFull_length)

lemma ReadUintN_progress:
  assumes "ReadUintN (GetByteOrder v) r n = Inr (i, r')"
  shows "length r = length r' + unat n"
  using bo.ReadUintN_consumes [OF assms] by auto

interpretation rst: frame_codec RstStreamFrame_Write ParseRstStreamFrame RstStreamFrame_MinLength
  "\<lambda>_. True" id
  by unfold_locales
    (auto simp: RstStreamFrame_Write_def ParseRstStreamFrame_def RstStreamFrame_MinLength_def
      elim!: andThen_InrE dest!: reads_progress)

interpretation wuf: frame_codec WindowUpdateFrame_Write ParseWindowUpdateFrame
  WindowUpdateFrame_MinLength "\<lambda>_. True" id
  by unfold_locales
    (auto simp: WindowUpdateFrame_Write_def ParseWindowUpdateFrame_def
      WindowUpdateFrame_MinLength_def elim!: andThen_InrE dest!: reads_progress)

interpretation blocked: frame_codec BlockedFrame_Write ParseBlockedFrame BlockedFrame_MinLength
  "\<lambda>_. True" id
  by unfold_locales
    (auto simp: BlockedFrame_Write_def ParseBlockedFrame_def BlockedFrame_MinLength_def
      elim!: andThen_InrE dest!: reads_progress)

lemma PingFrame_unique: "PingFrame = f"
  by (cases f) simp

interpretation ping: frame_codec PingFrame_Write ParsePingFrame PingFrame_MinLength "\<lambda>_. True" id
  by unfold_locales
    (auto simp: PingFrame_Write_def ParsePingFrame_def PingFrame_MinLength_def
      elim!: andThen_InrE dest!: reads_progress intro: PingFrame_unique)

lemma phrase_length:
  "n \<le> 1350 \<Longrightarrow> unat (of_nat n :: uint16) = n"
  "n \<le> 1350 \<Longrightarrow> \<not> (of_nat n :: uint16) > ucast MaxPacketSize"
  by (simp_all add: unat_of_nat word_less_nat_alt MaxPacketSize_def)

interpretation goaway: frame_codec GoawayFrame_Write ParseGoawayFrame GoawayFrame_MinLength
  "\<lambda>f. length (goaway_ReasonPhrase f) \<le> 1350" id
  by unfold_locales
    (auto simp: GoawayFrame_Write_def ParseGoawayFrame_def GoawayFrame_MinLength_def phrase_length
      ReadFull_append elim!: andThen_InrE dest!: reads_progress split: if_splits)

interpretation ccf: frame_codec ConnectionCloseFrame_Write ParseConnectionCloseFrame
  ConnectionCloseFrame_MinLength "\<lambda>f. length (ccf_ReasonPhrase f) \<le> 1350" id
  by unfold_locales
    (auto simp: ConnectionCloseFrame_Write_def ParseConnectionCloseFrame_def
      ConnectionCloseFrame_MinLength_def phrase_length
      ReadFull_append elim!: andThen_InrE dest!: reads_progress split: if_splits)

text \<open>
  STOP_WAITING carries the distance of the least unacknowledged packet to the packet
  it is sent in, in as many bytes as the packet number has.
\<close>

definition StopWaitingFrame_valid ::
  "PacketNumber \<Rightarrow> PacketNumberLen \<Rightarrow> StopWaitingFrame \<Rightarrow> bool" where
  "StopWaitingFrame_valid pn len f \<longleftrightarrow>
     swf_PacketNumber f = pn \<and> swf_PacketNumberLen f = len \<and> len \<in> {1, 2, 4, 6}
     \<and> 0 < swf_LeastUnacked f \<and> swf_LeastUnacked f \<le> pn
     \<and> unat (pn - swf_LeastUnacked f) < 256 ^ unat len"

definition StopWaitingFrame_carried :: "StopWaitingFrame \<Rightarrow> StopWaitingFrame" where
  "StopWaitingFrame_carried f = f\<lparr> swf_PacketNumberLen := 0, swf_PacketNumber := 0 \<rparr>"

lemma StopWaitingFrame_write_parse:
  assumes "StopWaitingFrame_valid pn len f"
  shows "\<exists>bs. StopWaitingFrame_Write f v = Inr bs
      \<and> (\<forall>r. ParseStopWaitingFrame (bs @ r) pn len v = Inr (StopWaitingFrame_carried f, r))
      \<and> StopWaitingFrame_MinLength f v = Inr (of_nat (length bs)) \<and> length bs < 2 ^ 32"
proof -
  define d where "d = pn - swf_LeastUnacked f"
  have f: "swf_PacketNumber f = pn" "swf_PacketNumberLen f = len" "swf_LeastUnacked f \<le> pn"
    "0 < swf_LeastUnacked f" and small: "unat d < 256 ^ unat len"
    using assms by (auto simp: StopWaitingFrame_valid_def d_def)
  have d: "d < pn" "pn - d = swf_LeastUnacked f" "pn \<noteq> 0" "\<not> swf_LeastUnacked f > pn"
    using f by (auto simp: d_def word_less_nat_alt word_le_nat_alt unat_sub_if')
  obtain ds where ds: "\<And>other. writeNumber v len d other = Inr ds" "length ds = unat len"
    "\<And>r. ReadUintN (GetByteOrder v) (ds @ r) len = Inr (d, r)"
    using writeNumber_read [of len v d] assms take_bit_bytes [OF small]
    unfolding StopWaitingFrame_valid_def by metis
  have "StopWaitingFrame_Write f v = Inr ([6] @ ds)"
    unfolding StopWaitingFrame_Write_def Let_def f d_def [symmetric] ds(1)
    using d by simp
  moreover have "ParseStopWaitingFrame (([6] @ ds) @ r) pn len v =
      Inr (StopWaitingFrame_carried f, r)" for r
    using d ds(3) by (simp add: ParseStopWaitingFrame_def StopWaitingFrame_carried_def)
  moreover have "StopWaitingFrame_MinLength f v = Inr (of_nat (length ([6] @ ds)))"
    using assms ds(2) f
    by (auto simp: StopWaitingFrame_MinLength_def StopWaitingFrame_valid_def PacketNumberLen_defs)
  moreover have "length ([6] @ ds) < 2 ^ 32"
    using ds(2) assms by (auto simp: StopWaitingFrame_valid_def)
  ultimately show ?thesis by blast
qed

lemma ParseStopWaitingFrame_progress:
  "ParseStopWaitingFrame r pn len v = Inr (f, r') \<Longrightarrow> length r' < length r"
  by (auto simp: ParseStopWaitingFrame_def
      elim!: andThen_InrE dest!: reads_progress ReadUintN_progress split: if_splits)

interpretation swf: frame_codec StopWaitingFrame_Write
  "\<lambda>r. ParseStopWaitingFrame r pn len" StopWaitingFrame_MinLength
  "StopWaitingFrame_valid pn len" StopWaitingFrame_carried for pn len
  using StopWaitingFrame_write_parse ParseStopWaitingFrame_progress by unfold_locales

definition AddAddressFrame_valid :: "AddAddressFrame \<Rightarrow> bool" where
  "AddAddressFrame_valid f \<longleftrightarrow>
     length (IP (Addr f)) = 16 \<and> 0 \<le> Port (Addr f) \<and> Port (Addr f) < 65536
     \<and> (IPVersion f = 6 \<or> IPVersion f = 4 \<and> take 12 (IP (Addr f)) = v4InV6Prefix)"

lemma readBytes_append: "length bs = n \<Longrightarrow> readBytes n ip (bs @ r) = Inr (ip @ bs, r)"
  by (induction n arbitrary: bs ip) (auto simp: length_Suc_conv)

lemma readBytes_progress: "readBytes n ip r = Inr (bs, r') \<Longrightarrow> length r = length r' + n"
  by (induction n arbitrary: ip r) (auto elim!: andThen_InrE dest!: length_ReadByte)

lemma map_nth_take: "length xs = n \<Longrightarrow> map (\<lambda>i. xs ! i) [0..<n] = xs"
  using map_nth by fastforce

lemma AddAddressFrame_write_parse:
  assumes "AddAddressFrame_valid f"
  shows "\<exists>bs. AddAddressFrame_Write f v = Inr bs
      \<and> (\<forall>r. ParseAddAddressFrame (bs @ r) v = Inr (f, r))
      \<and> AddAddressFrame_MinLength f v = Inr (of_nat (length bs)) \<and> length bs < 2 ^ 32"
proof -
  have len: "length (IP (Addr f)) = 16" using assms by (simp add: AddAddressFrame_valid_def)
  have port: "uint (word_of_int (Port (Addr f)) :: uint16) = Port (Addr f)"
    using assms by (simp add: AddAddressFrame_valid_def uint_word_of_int_eq take_bit_int_eq_self)
  show ?thesis
  proof (cases "IPVersion f = 6")
    case True
    then show ?thesis
      using len port
      by (simp add: AddAddressFrame_Write_def ParseAddAddressFrame_def
          AddAddressFrame_MinLength_def To16_def readBytes_append map_nth_take)
  next
    case False
    obtain a b c d where abcd: "drop 12 (IP (Addr f)) = [a, b, c, d]"
      using len length_eq_conv(2) [of "drop 12 (IP (Addr f))"] by auto
    then have "IP (Addr f) = IPv4 a b c d"
      using assms False append_take_drop_id [of 12 "IP (Addr f)"]
      by (simp add: AddAddressFrame_valid_def IPv4_def)
    moreover have "To4 (IP (Addr f)) = Some [a, b, c, d]"
      using assms False abcd by (auto simp: To4_def AddAddressFrame_valid_def)
    moreover have "IPVersion f = 4" using assms False by (simp add: AddAddressFrame_valid_def)
    ultimately show ?thesis
      using port map_nth_take [of "[a, b, c, d]" 4]
      by (simp add: AddAddressFrame_Write_def ParseAddAddressFrame_def
          AddAddressFrame_MinLength_def)
  qed
qed

lemma ParseAddAddressFrame_progress:
  "ParseAddAddressFrame r v = Inr (f, r') \<Longrightarrow> length r' < length r"
  by (auto simp: ParseAddAddressFrame_def
      elim!: andThen_InrE dest!: reads_progress readBytes_progress split: if_splits)

interpretation addr: frame_codec AddAddressFrame_Write ParseAddAddressFrame
  AddAddressFrame_MinLength AddAddressFrame_valid id
  using AddAddressFrame_write_parse ParseAddAddressFrame_progress by unfold_locales auto

text \<open>
  PATHS carries each round trip time in microseconds in the 16-bit float format.
\<close>

definition carriedRTT :: "Duration \<Rightarrow> Duration" where
  "carriedRTT d =
     uint (decodeUfloat16 (encodeUfloat16 (word_of_int (quot d Microsecond)))) * Microsecond"

definition PathsFrame_valid :: "PathsFrame \<Rightarrow> bool" where
  "PathsFrame_valid f \<longleftrightarrow>
     length (PathIDs f) = unat (NumPaths f) \<and> length (RemoteRTTs f) = unat (NumPaths f)
     \<and> NumPaths f \<le> MaxNumPaths f"

definition PathsFrame_carried :: "PathsFrame \<Rightarrow> PathsFrame" where
  "PathsFrame_carried f = f\<lparr> RemoteRTTs := map carriedRTT (RemoteRTTs f) \<rparr>"

lemma decodeUfloat16_bound: "unat (decodeUfloat16 w) \<le> 4095 * 2 ^ 30"
proof -
  show ?thesis
  proof (rule ccontr)
    assume big: "\<not> ?thesis"
    then have "encodeUfloat16 (decodeUfloat16 w) = 0xFFFF" by (intro encodeUfloat16_max) simp
    then have "w = 0xFFFF" by (simp add: encode_decode_ufloat16)
    moreover have "unat (decodeUfloat16 0xFFFF) = 4095 * 2 ^ 30"
      by (intro decodeUfloat16_big) simp_all
    ultimately show False using big by simp
  qed
qed

lemma carriedRTT_no_overflow:
  "int64 (int64 (uint (decodeUfloat16 w)) * Microsecond) = uint (decodeUfloat16 w) * Microsecond"
proof -
  have le: "uint (decodeUfloat16 w) \<le> 4095 * 2 ^ 30"
    using decodeUfloat16_bound [of w] of_nat_mono [where 'a = int] by fastforce
  have gen: "int64 (int64 x * 1000) = x * 1000" if "0 \<le> x" "x \<le> 4095 * 2 ^ 30" for x
    using that by simp
  show ?thesis unfolding Microsecond_def by (rule gen [OF uint_ge_0 le])
qed

lemma map_nth_map2:
  "length xs = n \<Longrightarrow> length ys = n \<Longrightarrow> map (\<lambda>i. F (xs ! i) (ys ! i)) [0..<n] = map2 F xs ys"
  by (rule nth_equalityI) auto

lemma parsePaths_step:
  "parsePaths (Suc n) v ids0 rtts0 (p # WriteUfloat16 (GetByteOrder v)
       (word_of_int (quot d Microsecond)) @ r) =
   parsePaths n v (ids0 @ [p]) (rtts0 @ [carriedRTT d]) r"
  unfolding parsePaths.simps WriteUfloat16_def ReadUfloat16_def ReadByte.simps andThen_simps
    bo.readUfloat16_writeUfloat16 carriedRTT_no_overflow carriedRTT_def ..

lemma parsePaths_write:
  assumes "length ids = length rtts"
  shows "parsePaths (length ids) v ids0 rtts0 (concat (map2 (\<lambda>p d. p #
       WriteUfloat16 (GetByteOrder v) (word_of_int (quot d Microsecond))) ids rtts) @ r) =
     Inr ((ids0 @ ids, rtts0 @ map carriedRTT rtts), r)"
  using assms
  by (induction ids rtts arbitrary: ids0 rtts0 rule: list_induct2)
    (simp_all del: parsePaths.simps(2) add: parsePaths_step)

lemma length_paths:
  "length ids = length rtts \<Longrightarrow>
   length (concat (map2 (\<lambda>p d. p # WriteUfloat16 (GetByteOrder v) (g d)) ids rtts)) = 3 * length ids"
  by (induction ids rtts rule: list_induct2) (auto simp: WriteUfloat16_def)

lemma PathsFrame_write_parse:
  assumes "PathsFrame_valid f"
  obtains bs where "PathsFrame_Write f v = Inr bs"
    "\<And>r. ParsePathsFrame (bs @ r) v = Inr (PathsFrame_carried f, r)"
    "length bs = 3 + 3 * unat (NumPaths f)"
proof -
  let ?w = "\<lambda>p d. p # WriteUfloat16 (GetByteOrder v) (word_of_int (quot d Microsecond))"
  let ?bs = "[0x12, MaxNumPaths f, NumPaths f] @ concat (map2 ?w (PathIDs f) (RemoteRTTs f))"
  have len: "length (PathIDs f) = unat (NumPaths f)" "length (RemoteRTTs f) = unat (NumPaths f)"
    using assms by (auto simp: PathsFrame_valid_def)
  show thesis
  proof (rule that [of ?bs])
    show "PathsFrame_Write f v = Inr ?bs"
      using map_nth_map2 [of "PathIDs f" _ "RemoteRTTs f" ?w] len
      by (simp add: PathsFrame_Write_def)
    show "ParsePathsFrame (?bs @ r) v = Inr (PathsFrame_carried f, r)" for r
      using assms len parsePaths_write [of "PathIDs f" "RemoteRTTs f" v "[]" "[]" r]
      by (simp add: ParsePathsFrame_def PathsFrame_valid_def PathsFrame_carried_def)
    show "length ?bs = 3 + 3 * unat (NumPaths f)"
      using len by (simp add: length_paths)
  qed
qed

lemma parsePaths_progress:
  "parsePaths n v ids rtts r = Inr (x, r') \<Longrightarrow> length r' \<le> length r"
proof (induction n arbitrary: ids rtts r)
  case (Suc n)
  then obtain p t r1 r2 ids2 rtts2 where r: "ReadByte r = Inr (p, r1)"
    "ReadUfloat16 (GetByteOrder v) r1 = Inr (t, r2)" "parsePaths n v ids2 rtts2 r2 = Inr (x, r')"
    by (auto elim!: andThen_InrE)
  then have "length r2 \<le> length r1"
    by (auto simp: ReadUfloat16_def readUfloat16_def elim!: andThen_InrE dest!: reads_progress)
  with r Suc.IH [OF r(3)] show ?case by (auto dest!: reads_progress)
qed simp

lemma ParsePathsFrame_progress:
  "ParsePathsFrame r v = Inr (f, r') \<Longrightarrow> length r' < length r"
  by (auto simp: ParsePathsFrame_def
      elim!: andThen_InrE dest!: reads_progress parsePaths_progress split: if_splits)

lemma PathsFrame_MinLength_small:
  "unat (NumPaths f) < 85 \<Longrightarrow>
   PathsFrame_MinLength f v = Inr (of_nat (3 + 3 * unat (NumPaths f)))"
proof -
  assume small: "unat (NumPaths f) < 85"
  then have "unat (1 + 1 + 1 + 3 * NumPaths f) = 3 + 3 * unat (NumPaths f)"
    by (simp add: unat_word_ariths)
  then show ?thesis unfolding PathsFrame_MinLength_def ucast_as_nat by (simp only:)
qed

interpretation paths: frame_codec PathsFrame_Write ParsePathsFrame PathsFrame_MinLength
  "\<lambda>f. PathsFrame_valid f \<and> unat (NumPaths f) < 85" PathsFrame_carried
proof
  fix f v
  assume f: "PathsFrame_valid f \<and> unat (NumPaths f) < 85"
  then show "\<exists>bs. PathsFrame_Write f v = Inr bs
      \<and> (\<forall>r. ParsePathsFrame (bs @ r) v = Inr (PathsFrame_carried f, r))
      \<and> PathsFrame_MinLength f v = Inr (of_nat (length bs)) \<and> length bs < 2 ^ 32"
  proof -
    obtain bs where bs: "PathsFrame_Write f v = Inr bs"
      "\<And>r. ParsePathsFrame (bs @ r) v = Inr (PathsFrame_carried f, r)"
      "length bs = 3 + 3 * unat (NumPaths f)"
      using f PathsFrame_write_parse [of f v] by blast
    moreover have "PathsFrame_MinLength f v = Inr (of_nat (length bs))"
      unfolding bs(3) using f by (intro PathsFrame_MinLength_small) simp
    moreover have "length bs < 2 ^ 32" using bs(3) f by simp
    ultimately show ?thesis by blast
  qed
qed (rule ParsePathsFrame_progress)

section \<open>Properties\<close>

text \<open>
  Control frames: for every version, parsing what \<open>Write\<close> produced gives back the
  frame and leaves the bytes that follow it, and \<open>MinLength\<close> is exactly the number of
  bytes written, for RST_STREAM, WINDOW_UPDATE, BLOCKED, PING, GOAWAY, CONNECTION_CLOSE
  (reason phrases within a packet) and ADD_ADDRESS.
\<close>

theorem control_frames_roundtrip:
  assumes "length (goaway_ReasonPhrase g) \<le> 1350" "length (ccf_ReasonPhrase c) \<le> 1350"
    and "AddAddressFrame_valid a"
  shows "okThen (RstStreamFrame_Write s v) (\<lambda>bs. ParseRstStreamFrame (bs @ r) v) = Inr (s, r)
    \<and> okThen (WindowUpdateFrame_Write w v) (\<lambda>bs. ParseWindowUpdateFrame (bs @ r) v) = Inr (w, r)
    \<and> okThen (BlockedFrame_Write b v) (\<lambda>bs. ParseBlockedFrame (bs @ r) v) = Inr (b, r)
    \<and> okThen (PingFrame_Write p v) (\<lambda>bs. ParsePingFrame (bs @ r) v) = Inr (p, r)
    \<and> okThen (GoawayFrame_Write g v) (\<lambda>bs. ParseGoawayFrame (bs @ r) v) = Inr (g, r)
    \<and> okThen (ConnectionCloseFrame_Write c v) (\<lambda>bs. ParseConnectionCloseFrame (bs @ r) v)
        = Inr (c, r)
    \<and> okThen (AddAddressFrame_Write a v) (\<lambda>bs. ParseAddAddressFrame (bs @ r) v) = Inr (a, r)
    \<and> map_sum id length (RstStreamFrame_Write s v) = map_sum id unat (RstStreamFrame_MinLength s v)
    \<and> map_sum id length (WindowUpdateFrame_Write w v)
        = map_sum id unat (WindowUpdateFrame_MinLength w v)
    \<and> map_sum id length (BlockedFrame_Write b v) = map_sum id unat (BlockedFrame_MinLength b v)
    \<and> map_sum id length (PingFrame_Write p v) = map_sum id unat (PingFrame_MinLength p v)
    \<and> map_sum id length (GoawayFrame_Write g v) = map_sum id unat (GoawayFrame_MinLength g v)
    \<and> map_sum id length (ConnectionCloseFrame_Write c v)
        = map_sum id unat (ConnectionCloseFrame_MinLength c v)
    \<and> map_sum id length (AddAddressFrame_Write a v)
        = map_sum id unat (AddAddressFrame_MinLength a v)"
  using assms rst.roundtrip [of s v] wuf.roundtrip [of w v] blocked.roundtrip [of b v]
    ping.roundtrip [of p v] goaway.roundtrip [of g v] ccf.roundtrip [of c v] addr.roundtrip [of a v]
  by simp

theorem control_frames_roundtrip_witness:
  "okThen (GoawayFrame_Write \<lparr> goaway_ErrorCode = 1, goaway_LastGoodStream = 5,
       goaway_ReasonPhrase = [65, 66] \<rparr> 39) (\<lambda>bs. ParseGoawayFrame (bs @ [7]) 39) =
   Inr (\<lparr> goaway_ErrorCode = 1, goaway_LastGoodStream = 5, goaway_ReasonPhrase = [65, 66] \<rparr>, [7])"
  using control_frames_roundtrip
    [of "\<lparr> goaway_ErrorCode = 1, goaway_LastGoodStream = 5, goaway_ReasonPhrase = [65, 66] \<rparr>"
        "\<lparr> ccf_ErrorCode = 1, ccf_ReasonPhrase = [] \<rparr>"
        "\<lparr> IPVersion = 4, Addr = \<lparr> IP = IPv4 10 0 0 1, Port = 443 \<rparr> \<rparr>" _ 39 "[7]"]
  by (simp add: AddAddressFrame_valid_def IPv4_def v4InV6Prefix_def)

text \<open>
  STOP_WAITING: sent in packet \<open>pn\<close> with the packet number length the packer picks,
  the receiver recovers exactly the sender's least unacknowledged packet number; the
  delta is never truncated.
\<close>

theorem StopWaitingFrame_roundtrip:
  assumes "0 < leastUnacked" "leastUnacked \<le> pn" "unat (pn - leastUnacked) < 2 ^ 48"
  defines "len \<equiv> GetPacketNumberLengthForPublicHeader pn leastUnacked"
  shows "okThen (StopWaitingFrame_Write
            \<lparr> swf_LeastUnacked = leastUnacked, swf_PacketNumberLen = len, swf_PacketNumber = pn \<rparr> v)
          (\<lambda>bs. ParseStopWaitingFrame (bs @ r) pn len v) =
         Inr (\<lparr> swf_LeastUnacked = leastUnacked, swf_PacketNumberLen = 0, swf_PacketNumber = 0 \<rparr>, r)"
proof -
  have "len \<in> {1, 2, 4, 6} \<and> unat (pn - leastUnacked) < 256 ^ unat len"
    using assms(3) unfolding len_def GetPacketNumberLengthForPublicHeader_def Let_def
    by (simp add: PacketNumberLen_defs word_less_nat_alt push_bit_eq_mult)
  then show ?thesis
    using swf.roundtrip(1) [of pn len _ v r] assms(1,2)
    by (simp add: StopWaitingFrame_valid_def StopWaitingFrame_carried_def)
qed

theorem StopWaitingFrame_roundtrip_witness:
  "okThen (StopWaitingFrame_Write
      \<lparr> swf_LeastUnacked = 10, swf_PacketNumberLen = GetPacketNumberLengthForPublicHeader 300 10,
        swf_PacketNumber = 300 \<rparr> 39)
     (\<lambda>bs. ParseStopWaitingFrame (bs @ [1, 2]) 300 (GetPacketNumberLengthForPublicHeader 300 10) 39) =
   Inr (\<lparr> swf_LeastUnacked = 10, swf_PacketNumberLen = 0, swf_PacketNumber = 0 \<rparr>, [1, 2])"
  by (rule StopWaitingFrame_roundtrip) simp_all

text \<open>
  PATHS: the path identifiers survive the wire and the round trip times come back
  in the precision of the 16-bit float; \<open>MinLength\<close> agrees with the number of bytes
  written exactly when fewer than 85 paths are listed (its sum is computed in \<open>uint8\<close>).
\<close>

theorem PathsFrame_roundtrip:
  assumes "PathsFrame_valid f"
  shows "okThen (PathsFrame_Write f v) (\<lambda>bs. ParsePathsFrame (bs @ r) v) =
           Inr (f\<lparr> RemoteRTTs := map carriedRTT (RemoteRTTs f) \<rparr>, r)
    \<and> (map_sum id length (PathsFrame_Write f v) = map_sum id unat (PathsFrame_MinLength f v)
         \<longleftrightarrow> unat (NumPaths f) < 85)"
proof -
  obtain bs where bs: "PathsFrame_Write f v = Inr bs"
    "\<And>r. ParsePathsFrame (bs @ r) v = Inr (PathsFrame_carried f, r)"
    "length bs = 3 + 3 * unat (NumPaths f)"
    using PathsFrame_write_parse [OF assms, of v] by blast
  have big: "unat (ucast (1 + 1 + 1 + 3 * NumPaths f :: uint8) :: uint64) < 256"
    unfolding unat_ucast_down
    by (rule le_less_trans [OF mod_less_eq_dividend unat_byte_less])
  have "length bs = unat (ucast (1 + 1 + 1 + 3 * NumPaths f :: uint8) :: uint64)"
    if small: "unat (NumPaths f) < 85"
  proof -
    have "(ucast (1 + 1 + 1 + 3 * NumPaths f :: uint8) :: uint64) =
        of_nat (3 + 3 * unat (NumPaths f))"
      using PathsFrame_MinLength_small [OF small, of v]
      by (simp only: PathsFrame_MinLength_def sum.inject)
    moreover have "unat (of_nat (3 + 3 * unat (NumPaths f)) :: uint64) = 3 + 3 * unat (NumPaths f)"
      using small by (simp only: unat_of_nat) simp
    ultimately show ?thesis by (simp only: bs(3))
  qed
  then have "length bs = unat (ucast (1 + 1 + 1 + 3 * NumPaths f :: uint8) :: uint64)
      \<longleftrightarrow> unat (NumPaths f) < 85"
    using big bs(3) by linarith
  with bs show ?thesis by (simp add: PathsFrame_carried_def PathsFrame_MinLength_def)
qed

theorem PathsFrame_roundtrip_witness:
  "\<exists>f. unat (NumPaths f) = 100
     \<and> map_sum id length (PathsFrame_Write f 39) \<noteq> map_sum id unat (PathsFrame_MinLength f 39)"
  using PathsFrame_roundtrip [of "\<lparr> MaxNumPaths = 200, NumPaths = 100,
      PathIDs = replicate 100 1, RemoteRTTs = replicate 100 0 \<rparr>" 39]
  by (auto simp: PathsFrame_valid_def intro!: exI [of _ "\<lparr> MaxNumPaths = 200, NumPaths = 100,
      PathIDs = replicate 100 1, RemoteRTTs = replicate 100 0 \<rparr>"])

end
