(* ===== verification/WireStream.thy ===== *)
theory WireStream
  imports Frames
begin

unbundle bit_operations_syntax

text \<open>
  STREAM frames (\<open>internal/wire/stream_frame.go\<close>). The type byte packs the FIN bit, the
  presence of a data length and the widths of the stream identifier and of the offset;
  the writer picks the shortest widths.
\<close>

section \<open>Model\<close>

record StreamFrame =
  sf_StreamID :: StreamID
  sf_FinBit :: bool
  sf_DataLenPresent :: bool
  sf_Offset :: ByteCount
  sf_Data :: "byte list"

definition errInvalidStreamIDLen :: go_error where
  "errInvalidStreamIDLen = GoErr ''StreamFrame: Invalid StreamID length''"

definition errInvalidOffsetLen :: go_error where
  "errInvalidOffsetLen = GoErr ''StreamFrame: Invalid offset length''"

definition StreamFrame_DataLen :: "StreamFrame \<Rightarrow> ByteCount" where
  "StreamFrame_DataLen f = of_nat (length (sf_Data f))"

text \<open>
  \<open>ParseStreamFrame\<close>: the type byte, identifier, offset and length; then the data
  (the rest of the packet when no length is present); then the final checks.
\<close>

definition readStreamData :: "bool \<Rightarrow> uint16 \<Rightarrow> reader \<Rightarrow> go_error + (byte list \<times> reader)" where
  "readStreamData dataLenPresent dataLen r =
     (if dataLen > ucast MaxPacketSize
      then Inl (QuicError InvalidStreamData ''data len too large'')
      else let dataLen = (if \<not> dataLenPresent then of_nat (length r) else dataLen)
           in if dataLen \<noteq> 0 then ReadFull (unat dataLen) r else Inr ([], r))"

definition checkStreamFrame :: "StreamFrame \<Rightarrow> reader \<Rightarrow> go_error + (StreamFrame \<times> reader)" where
  "checkStreamFrame frame r =
     (if sf_Offset frame + StreamFrame_DataLen frame < sf_Offset frame
      then Inl (QuicError InvalidStreamData ''data overflows maximum offset'')
      else if \<not> sf_FinBit frame \<and> StreamFrame_DataLen frame = 0
      then Inl (QuicErrCode EmptyStreamFrameNoFin)
      else Inr (frame, r))"

definition ParseStreamFrame ::
  "reader \<Rightarrow> VersionNumber \<Rightarrow> go_error + (StreamFrame \<times> reader)" where
  "ParseStreamFrame r version =
     andThen (ReadByte r) (\<lambda>typeByte r.
     let finBit = (typeByte AND 0x40 > 0);
         dataLenPresent = (typeByte AND 0x20 > 0);
         offsetLen = drop_bit 2 (typeByte AND 0x1c);
         offsetLen = (if offsetLen \<noteq> 0 then offsetLen + 1 else offsetLen);
         streamIDLen = (typeByte AND 0x3) + 1
     in andThen (ReadUintN (GetByteOrder version) r streamIDLen) (\<lambda>sid r.
        andThen (ReadUintN (GetByteOrder version) r offsetLen) (\<lambda>offset r.
        andThen (if dataLenPresent then ReadUint16 (GetByteOrder version) r else Inr (0, r))
          (\<lambda>dataLen r.
        andThen (readStreamData dataLenPresent dataLen r) (\<lambda>dat r.
          checkStreamFrame
            \<lparr> sf_StreamID = ucast sid, sf_FinBit = finBit, sf_DataLenPresent = dataLenPresent,
              sf_Offset = offset, sf_Data = dat \<rparr> r)))))"

definition calculateStreamIDLength :: "StreamFrame \<Rightarrow> uint8" where
  "calculateStreamIDLength f =
     (if sf_StreamID f < push_bit 8 1 then 1
      else if sf_StreamID f < push_bit 16 1 then 2
      else if sf_StreamID f < push_bit 24 1 then 3
      else 4)"

definition getOffsetLength :: "StreamFrame \<Rightarrow> ByteCount" where
  "getOffsetLength f =
     (if sf_Offset f = 0 then 0
      else if sf_Offset f < push_bit 16 1 then 2
      else if sf_Offset f < push_bit 24 1 then 3
      else if sf_Offset f < push_bit 32 1 then 4
      else if sf_Offset f < push_bit 40 1 then 5
      else if sf_Offset f < push_bit 48 1 then 6
      else if sf_Offset f < push_bit 56 1 then 7
      else 8)"

definition streamTypeByte :: "bool \<Rightarrow> bool \<Rightarrow> ByteCount \<Rightarrow> uint8 \<Rightarrow> uint8" where
  "streamTypeByte finBit dataLenPresent offsetLength streamIDLen =
     (let typeByte = 0x80;
          typeByte = (if finBit then typeByte XOR 0x40 else typeByte);
          typeByte = (if dataLenPresent then typeByte XOR 0x20 else typeByte);
          typeByte = (if offsetLength > 0
                      then typeByte XOR push_bit 2 (ucast offsetLength - 1) else typeByte)
      in typeByte XOR (streamIDLen - 1))"

definition writeStreamID :: "VersionNumber \<Rightarrow> uint8 \<Rightarrow> StreamID \<Rightarrow> go_error + byte list" where
  "writeStreamID version streamIDLen sid =
     (if streamIDLen = 1 then Inr [ucast sid]
      else if streamIDLen = 2 then Inr (WriteUint16 (GetByteOrder version) (ucast sid))
      else if streamIDLen = 3 then WriteUint24 (GetByteOrder version) sid
      else if streamIDLen = 4 then Inr (WriteUint32 (GetByteOrder version) sid)
      else Inl errInvalidStreamIDLen)"

definition writeOffset :: "VersionNumber \<Rightarrow> ByteCount \<Rightarrow> ByteCount \<Rightarrow> go_error + byte list" where
  "writeOffset version offsetLength offset =
     (if offsetLength = 0 then Inr []
      else if offsetLength = 2 then Inr (WriteUint16 (GetByteOrder version) (ucast offset))
      else if offsetLength = 3 then WriteUint24 (GetByteOrder version) (ucast offset)
      else if offsetLength = 4 then Inr (WriteUint32 (GetByteOrder version) (ucast offset))
      else if offsetLength = 5 then WriteUint40 (GetByteOrder version) offset
      else if offsetLength = 6 then WriteUint48 (GetByteOrder version) offset
      else if offsetLength = 7 then WriteUint56 (GetByteOrder version) offset
      else if offsetLength = 8 then Inr (WriteUint64 (GetByteOrder version) offset)
      else Inl errInvalidOffsetLen)"

definition StreamFrame_Write :: "StreamFrame \<Rightarrow> VersionNumber \<Rightarrow> go_error + byte list" where
  "StreamFrame_Write f version =
     (if sf_Data f = [] \<and> \<not> sf_FinBit f
      then Inl (GoErr ''StreamFrame: attempting to write empty frame without FIN'')
      else let offsetLength = getOffsetLength f;
               streamIDLen = calculateStreamIDLength f
           in okThen (writeStreamID version streamIDLen (sf_StreamID f)) (\<lambda>sid.
              okThen (writeOffset version offsetLength (sf_Offset f)) (\<lambda>offset.
                Inr ([streamTypeByte (sf_FinBit f) (sf_DataLenPresent f) offsetLength streamIDLen]
                     @ sid @ offset
                     @ (if sf_DataLenPresent f
                        then WriteUint16 (GetByteOrder version) (of_nat (length (sf_Data f)))
                        else [])
                     @ sf_Data f))))"

definition StreamFrame_MinLength :: "StreamFrame \<Rightarrow> VersionNumber \<Rightarrow> go_error + ByteCount" where
  "StreamFrame_MinLength f version =
     (let len = 1 + ucast (calculateStreamIDLength f) + getOffsetLength f
      in Inr (if sf_DataLenPresent f then len + 2 else len))"

section \<open>Lemmas\<close>

text \<open>The type byte determines its four fields.\<close>

lemma streamTypeByte_fields:
  fixes fin dlp :: bool
  assumes "offsetLength \<in> {0, 2, 3, 4, 5, 6, 7, 8}" "streamIDLen \<in> {1, 2, 3, 4}"
  defines "t \<equiv> streamTypeByte fin dlp offsetLength streamIDLen"
  shows "t AND 0x40 > 0 \<longleftrightarrow> fin" "t AND 0x20 > 0 \<longleftrightarrow> dlp" "(t AND 0x3) + 1 = streamIDLen"
    and "(if drop_bit 2 (t AND 0x1c) \<noteq> 0 then drop_bit 2 (t AND 0x1c) + 1
          else drop_bit 2 (t AND 0x1c)) = ucast offsetLength"
    and "t AND 0x80 > 0"
  using assms(1,2) unfolding t_def streamTypeByte_def Let_def
  by (cases fin; cases dlp; auto)+

lemma unat_bounds:
  fixes k :: uint32 and i :: uint64
  shows "k < push_bit 8 1 \<longleftrightarrow> unat k < 2 ^ 8" "k < push_bit 16 1 \<longleftrightarrow> unat k < 2 ^ 16"
    "k < push_bit 24 1 \<longleftrightarrow> unat k < 2 ^ 24"
    "i < push_bit 16 1 \<longleftrightarrow> unat i < 2 ^ 16" "i < push_bit 24 1 \<longleftrightarrow> unat i < 2 ^ 24"
    "i < push_bit 32 1 \<longleftrightarrow> unat i < 2 ^ 32" "i < push_bit 40 1 \<longleftrightarrow> unat i < 2 ^ 40"
    "i < push_bit 48 1 \<longleftrightarrow> unat i < 2 ^ 48" "i < push_bit 56 1 \<longleftrightarrow> unat i < 2 ^ 56"
  by (simp_all only: word_less_nat_alt unat_push_bit_1 len_of_numeral_defs)

lemma unat_ranges:
  fixes k :: uint32 and i :: uint64
  shows "k < 2 ^ 24 \<longleftrightarrow> unat k < 2 ^ 24" "i < 2 ^ 40 \<longleftrightarrow> unat i < 2 ^ 40"
    "i < 2 ^ 48 \<longleftrightarrow> unat i < 2 ^ 48" "i < 2 ^ 56 \<longleftrightarrow> unat i < 2 ^ 56"
  by (simp_all add: word_less_nat_alt)

lemma ucast_32_64: 
  "unat k < 2 ^ 8 \<Longrightarrow> (ucast (ucast (k :: uint32) :: byte) :: uint64) = ucast k"
  "unat k < 2 ^ 16 \<Longrightarrow> (ucast (ucast (k :: uint32) :: uint16) :: uint64) = ucast k"
  by (simp_all only: word_unat_eq_iff unat_ucast_down) simp_all

lemma writeStreamID_read:
  obtains bs where "writeStreamID v (calculateStreamIDLength f) (sf_StreamID f) = Inr bs"
    "length bs = unat (calculateStreamIDLength f)" "calculateStreamIDLength f \<in> {1, 2, 3, 4}"
    "\<And>r. ReadUintN (GetByteOrder v) (bs @ r) (calculateStreamIDLength f) =
        Inr (ucast (sf_StreamID f), r)"
proof -
  let ?k = "sf_StreamID f"
  consider "unat ?k < 2 ^ 8" | "\<not> unat ?k < 2 ^ 8" "unat ?k < 2 ^ 16"
    | "\<not> unat ?k < 2 ^ 8" "\<not> unat ?k < 2 ^ 16" "unat ?k < 2 ^ 24"
    | "\<not> unat ?k < 2 ^ 8" "\<not> unat ?k < 2 ^ 16" "\<not> unat ?k < 2 ^ 24" by blast
  then show thesis
  proof cases
    case 1
    then have len: "calculateStreamIDLength f = 1"
      by (simp only: calculateStreamIDLength_def unat_bounds if_True)
    show thesis by (rule that [of "[ucast ?k]"])
      (use ucast_32_64(1) [OF 1] in \<open>simp_all add: len writeStreamID_def\<close>)
  next
    case 2
    then have len: "calculateStreamIDLength f = 2"
      by (simp only: calculateStreamIDLength_def unat_bounds if_True if_False)
    show thesis by (rule that [of "WriteUint16 (GetByteOrder v) (ucast ?k)"])
      (use ucast_32_64(2) [OF 2(2)] in \<open>simp_all add: len writeStreamID_def\<close>)
  next
    case 3
    then have len: "calculateStreamIDLength f = 3"
      by (simp only: calculateStreamIDLength_def unat_bounds if_True if_False)
    obtain bs where bs: "WriteUint24 (GetByteOrder v) ?k = Inr bs"
      using 3 bo.checked_write_ok(4) [of ?k v] unfolding unat_ranges by blast
    show thesis by (rule that [of bs])
      (use bo.ReadUintN_checked_write(4) [OF bs] bo.length_checked_writes(4) [OF bs] bs
        in \<open>simp_all add: len writeStreamID_def\<close>)
  next
    case 4
    then have len: "calculateStreamIDLength f = 4"
      by (simp only: calculateStreamIDLength_def unat_bounds if_False)
    show thesis by (rule that [of "WriteUint32 (GetByteOrder v) ?k"])
      (simp_all add: len writeStreamID_def)
  qed
qed

text \<open>Writing offset \<open>x\<close> with width \<open>n\<close> can be read back.\<close>

definition offset_ok :: "VersionNumber \<Rightarrow> ByteCount \<Rightarrow> ByteCount \<Rightarrow> bool" where
  "offset_ok v n x \<longleftrightarrow> (\<exists>bs. writeOffset v n x = Inr bs \<and> length bs = unat n
     \<and> (\<forall>r. ReadUintN (GetByteOrder v) (bs @ r) (ucast n) = Inr (x, r)))"

lemma ReadUintN_0 [simp]: "ReadUintN (GetByteOrder v) r 0 = Inr (0, r)"
  using bo.ReadUintN_enc [of 0 0 v r] bo.length_enc [of v 0 0] by simp

lemma offset_ok_native:
  "offset_ok v 0 0"
  "unat x < 2 ^ 16 \<Longrightarrow> offset_ok v 2 x" "unat x < 2 ^ 32 \<Longrightarrow> offset_ok v 4 x" "offset_ok v 8 x"
  unfolding offset_ok_def writeOffset_def
  using ucast_down_up [of x, where 'b = 16] ucast_down_up [of x, where 'b = 32] by simp_all

lemma offset_ok_24: "unat x < 2 ^ 24 \<Longrightarrow> offset_ok v 3 x"
proof -
  assume x: "unat x < 2 ^ 24"
  then have up: "ucast (ucast x :: uint32) = x" by (intro ucast_down_up) simp
  have "unat (ucast x :: uint32) < 2 ^ 24" using x by (simp add: unat_ucast_down)
  then obtain bs where bs: "WriteUint24 (GetByteOrder v) (ucast x) = Inr bs"
    using bo.checked_write_ok(4) unfolding unat_ranges by blast
  then show ?thesis
    using bo.ReadUintN_checked_write(4) [OF bs] bo.length_checked_writes(4) [OF bs] up
    by (simp add: offset_ok_def writeOffset_def)
qed

lemma offset_ok_checked:
  "unat x < 2 ^ 40 \<Longrightarrow> offset_ok v 5 x" "unat x < 2 ^ 48 \<Longrightarrow> offset_ok v 6 x"
  "unat x < 2 ^ 56 \<Longrightarrow> offset_ok v 7 x"
  unfolding unat_ranges(2-4) [symmetric] offset_ok_def writeOffset_def
  using bo.checked_write_ok(1-3) [of x v] bo.ReadUintN_checked_write(1-3) [of v x]
    bo.length_checked_writes(1-3) [of v x]
  by fastforce+

lemma getOffsetLength_ok: "offset_ok v (getOffsetLength f) (sf_Offset f)"
  unfolding getOffsetLength_def unat_bounds
  by (simp add: offset_ok_native offset_ok_24 offset_ok_checked)

lemma getOffsetLength_range: "getOffsetLength f \<in> {0, 2, 3, 4, 5, 6, 7, 8}"
  by (simp add: getOffsetLength_def)

text \<open>Which frames fit on the wire: the data length is sent in 16 bits.\<close>

definition StreamFrame_valid :: "StreamFrame \<Rightarrow> bool" where
  "StreamFrame_valid f \<longleftrightarrow>
     (sf_Data f \<noteq> [] \<or> sf_FinBit f)
     \<and> length (sf_Data f) \<le> (if sf_DataLenPresent f then 1350 else 65535)
     \<and> unat (sf_Offset f) + length (sf_Data f) < 2 ^ 64"

lemma StreamFrame_data:
  assumes "StreamFrame_valid f"
  shows "unat (of_nat (length (sf_Data f)) :: uint16) = length (sf_Data f)"
    and "sf_DataLenPresent f \<Longrightarrow> \<not> of_nat (length (sf_Data f)) > (ucast MaxPacketSize :: uint16)"
    and "unat (StreamFrame_DataLen f) = length (sf_Data f)"
    and "\<not> sf_Offset f + StreamFrame_DataLen f < sf_Offset f"
    and "\<not> (\<not> sf_FinBit f \<and> StreamFrame_DataLen f = 0)"
proof -
  let ?n = "length (sf_Data f)"
  have n: "?n < 65536" using assms by (auto simp: StreamFrame_valid_def split: if_splits)
  then show u: "unat (of_nat ?n :: uint16) = ?n" by (simp add: unat_of_nat)
  show "\<not> of_nat ?n > (ucast MaxPacketSize :: uint16)" if "sf_DataLenPresent f"
    using assms that u by (simp add: StreamFrame_valid_def word_less_nat_alt MaxPacketSize_def)
  show dl: "unat (StreamFrame_DataLen f) = ?n"
    using n by (simp add: StreamFrame_DataLen_def unat_of_nat)
  then show "\<not> sf_Offset f + StreamFrame_DataLen f < sf_Offset f"
    using assms by (simp add: StreamFrame_valid_def word_less_nat_alt unat_word_ariths)
  show "\<not> (\<not> sf_FinBit f \<and> StreamFrame_DataLen f = 0)"
    using assms dl by (auto simp: StreamFrame_valid_def)
qed

lemma readStreamData_ok:
  assumes "StreamFrame_valid f"
  shows "sf_DataLenPresent f \<Longrightarrow>
      readStreamData True (of_nat (length (sf_Data f))) (sf_Data f @ r) = Inr (sf_Data f, r)"
    and "readStreamData False 0 (sf_Data f) = Inr (sf_Data f, [])"
proof -
  let ?n = "length (sf_Data f)"
  have zero: "of_nat ?n = (0 :: uint16) \<longleftrightarrow> sf_Data f = []"
    using StreamFrame_data(1) [OF assms] by (simp add: word_unat_eq_iff)
  show "readStreamData True (of_nat ?n) (sf_Data f @ r) = Inr (sf_Data f, r)"
    if "sf_DataLenPresent f"
    using StreamFrame_data(1,2) [OF assms] that zero
    by (simp add: readStreamData_def ReadFull_append)
  show "readStreamData False 0 (sf_Data f) = Inr (sf_Data f, [])"
    using StreamFrame_data(1) [OF assms] zero ReadFull_append [of "sf_Data f" ?n "[]"]
    by (simp add: readStreamData_def MaxPacketSize_def)
qed

lemma checkStreamFrame_ok: "StreamFrame_valid f \<Longrightarrow> checkStreamFrame f r = Inr (f, r)"
  using StreamFrame_data(4,5) [of f] by (simp add: checkStreamFrame_def)

text \<open>The parser on the pieces that the writer concatenates.\<close>

lemma ParseStreamFrame_pieces:
  assumes f: "StreamFrame_valid f" "sf_DataLenPresent f \<or> r = []"
    and t: "t AND 0x40 > 0 \<longleftrightarrow> sf_FinBit f" "t AND 0x20 > 0 \<longleftrightarrow> sf_DataLenPresent f"
      "(t AND 0x3) + 1 = sl"
      "(if drop_bit 2 (t AND 0x1c) \<noteq> 0 then drop_bit 2 (t AND 0x1c) + 1
        else drop_bit 2 (t AND 0x1c)) = ol"
    and reads: "\<And>r. ReadUintN (GetByteOrder v) (sid @ r) sl = Inr (ucast (sf_StreamID f), r)"
      "\<And>r. ReadUintN (GetByteOrder v) (off @ r) ol = Inr (sf_Offset f, r)"
  shows "ParseStreamFrame (t # sid @ off @ (if sf_DataLenPresent f
      then WriteUint16 (GetByteOrder v) (of_nat (length (sf_Data f))) else []) @ sf_Data f @ r) v =
    Inr (f, r)"
proof -
  have sid: "ucast (ucast (sf_StreamID f) :: uint64) = sf_StreamID f"
    by (rule bit_eqI) (auto simp: bit_simps dest: bit_imp_le_length)
  have eta: "\<lparr> sf_StreamID = sf_StreamID f, sf_FinBit = sf_FinBit f, sf_DataLenPresent = b,
      sf_Offset = sf_Offset f, sf_Data = sf_Data f \<rparr> = f" if "sf_DataLenPresent f = b" for b
    using that by simp
  have chk: "checkStreamFrame \<lparr> sf_StreamID = sf_StreamID f, sf_FinBit = sf_FinBit f,
      sf_DataLenPresent = b, sf_Offset = sf_Offset f, sf_Data = sf_Data f \<rparr> r = Inr (f, r)"
    if "sf_DataLenPresent f = b" for b r
    by (simp only: eta [OF that] checkStreamFrame_ok [OF f(1)])
  show ?thesis
    unfolding ParseStreamFrame_def Let_def ReadByte.simps andThen_simps t reads
    using sid f readStreamData_ok [OF f(1)]
    by (cases "sf_DataLenPresent f") (simp_all add: chk)
qed

lemma StreamFrame_write_parse:
  assumes "StreamFrame_valid f" "sf_DataLenPresent f \<or> r = []"
  obtains bs where "StreamFrame_Write f v = Inr bs" "ParseStreamFrame (bs @ r) v = Inr (f, r)"
    "StreamFrame_MinLength f v = Inr (of_nat (length bs) - StreamFrame_DataLen f)"
    "length bs < 2 ^ 32" "hd bs AND 0x80 > 0" "bs \<noteq> []"
proof -
  let ?bo = "GetByteOrder v" and ?sl = "calculateStreamIDLength f" and ?ol = "getOffsetLength f"
  define t where "t = streamTypeByte (sf_FinBit f) (sf_DataLenPresent f) ?ol ?sl"
  obtain sid where sid: "writeStreamID v ?sl (sf_StreamID f) = Inr sid" "length sid = unat ?sl"
    "?sl \<in> {1, 2, 3, 4}" "\<And>r. ReadUintN ?bo (sid @ r) ?sl = Inr (ucast (sf_StreamID f), r)"
    using writeStreamID_read by blast
  obtain off where off: "writeOffset v ?ol (sf_Offset f) = Inr off" "length off = unat ?ol"
    "\<And>r. ReadUintN ?bo (off @ r) (ucast ?ol) = Inr (sf_Offset f, r)"
    using getOffsetLength_ok [of v f] unfolding offset_ok_def by blast
  note t = streamTypeByte_fields [OF getOffsetLength_range [of f] sid(3),
      of "sf_FinBit f" "sf_DataLenPresent f", folded t_def]
  let ?len = "if sf_DataLenPresent f then WriteUint16 ?bo (of_nat (length (sf_Data f))) else []"
  let ?bs = "[t] @ sid @ off @ ?len @ sf_Data f"
  show thesis
  proof (rule that [of ?bs])
    show "StreamFrame_Write f v = Inr ?bs"
      using assms(1) sid(1) off(1)
      by (auto simp: StreamFrame_Write_def StreamFrame_valid_def t_def)
    show "ParseStreamFrame (?bs @ r) v = Inr (f, r)"
      using ParseStreamFrame_pieces [OF assms t(1-4) sid(4) off(3)] by simp
    show "StreamFrame_MinLength f v = Inr (of_nat (length ?bs) - StreamFrame_DataLen f)"
      using sid(2) off(2) by (simp add: StreamFrame_MinLength_def StreamFrame_DataLen_def Let_def)
    show "length ?bs < 2 ^ 32"
      using sid off(2) assms(1) getOffsetLength_range [of f]
      by (auto simp: StreamFrame_valid_def split: if_splits)
    show "hd ?bs AND 0x80 > 0" "?bs \<noteq> []" using t(5) by simp_all
  qed
qed

text \<open>The parser accepts nothing that the writer could not have produced.\<close>

lemma readStreamData_InrD:
  assumes "readStreamData dlp n r = Inr (dat, r')"
  shows "length r' \<le> length r" "length dat \<le> (if dlp then 1350 else 65535)"
proof -
  define m where "m = (if \<not> dlp then of_nat (length r) else n)"
  have n: "unat n \<le> 1350"
    using assms by (simp add: readStreamData_def word_less_nat_alt MaxPacketSize_def split: if_splits)
  have m: "unat m \<le> (if dlp then 1350 else 65535)"
    using n unat_uint16_less [of m] by (auto simp: m_def)
  have "(if m \<noteq> 0 then ReadFull (unat m) r else Inr ([], r)) = Inr (dat, r')"
    using assms unfolding readStreamData_def Let_def m_def [symmetric] by (auto split: if_splits)
  then have "r = dat @ r'" "length dat = unat m"
    by (auto dest: ReadFull_length split: if_splits)
  then show "length r' \<le> length r" "length dat \<le> (if dlp then 1350 else 65535)"
    using m by simp_all
qed

lemma checkStreamFrame_InrD:
  assumes "checkStreamFrame f r = Inr (g, r')" "length (sf_Data f) < 65536"
  shows "g = f" "r' = r" "sf_Data f \<noteq> [] \<or> sf_FinBit f"
    "unat (sf_Offset f) + length (sf_Data f) < 2 ^ 64"
proof -
  have dl: "unat (StreamFrame_DataLen f) = length (sf_Data f)"
    using assms(2) by (simp add: StreamFrame_DataLen_def unat_of_nat)
  show "g = f" "r' = r" "sf_Data f \<noteq> [] \<or> sf_FinBit f"
    using assms(1) by (auto simp: checkStreamFrame_def StreamFrame_DataLen_def split: if_splits)
  have "sf_Offset f \<le> sf_Offset f + StreamFrame_DataLen f"
    using assms(1) by (auto simp: checkStreamFrame_def split: if_splits)
  then show "unat (sf_Offset f) + length (sf_Data f) < 2 ^ 64"
    using dl no_olen_add_nat [of "sf_Offset f" "StreamFrame_DataLen f"] by simp
qed

lemma ParseStreamFrame_InrD:
  assumes "ParseStreamFrame r v = Inr (f, r')"
  shows "StreamFrame_valid f \<and> length r' < length r"
proof -
  from assms obtain t r1 sid r2 offset r3 dataLen r4 dat r5 where
    "ReadByte r = Inr (t, r1)"
    "ReadUintN (GetByteOrder v) r1 ((t AND 0x3) + 1) = Inr (sid, r2)"
    "ReadUintN (GetByteOrder v) r2 (if drop_bit 2 (t AND 0x1c) \<noteq> 0
       then drop_bit 2 (t AND 0x1c) + 1 else drop_bit 2 (t AND 0x1c)) = Inr (offset, r3)"
    "(if t AND 0x20 > 0 then ReadUint16 (GetByteOrder v) r3 else Inr (0, r3)) = Inr (dataLen, r4)"
    and dat: "readStreamData (t AND 0x20 > 0) dataLen r4 = Inr (dat, r5)"
    and chk: "checkStreamFrame \<lparr> sf_StreamID = ucast sid, sf_FinBit = (t AND 0x40 > 0),
        sf_DataLenPresent = (t AND 0x20 > 0), sf_Offset = offset, sf_Data = dat \<rparr> r5 = Inr (f, r')"
    unfolding ParseStreamFrame_def Let_def by (elim andThen_InrE) blast
  then have "length r4 < length r"
    by (auto dest!: reads_progress ReadUintN_progress split: if_split_asm)
  moreover have "length dat < 65536"
    using readStreamData_InrD(2) [OF dat] by (auto split: if_splits)
  ultimately show ?thesis
    using checkStreamFrame_InrD [OF chk] readStreamData_InrD [OF dat]
    by (auto simp: StreamFrame_valid_def)
qed

interpretation sf: frame_codec StreamFrame_Write ParseStreamFrame
  "\<lambda>f v. okThen (StreamFrame_MinLength f v) (\<lambda>n. Inr (n + StreamFrame_DataLen f))"
  "\<lambda>f. StreamFrame_valid f \<and> sf_DataLenPresent f" id
proof
  fix f v
  assume f: "StreamFrame_valid f \<and> sf_DataLenPresent f"
  then obtain bs where bs: "StreamFrame_Write f v = Inr bs"
    "StreamFrame_MinLength f v = Inr (of_nat (length bs) - StreamFrame_DataLen f)"
    "length bs < 2 ^ 32"
    using StreamFrame_write_parse by metis
  moreover have "ParseStreamFrame (bs @ r) v = Inr (f, r)" for r
    using f bs(1) StreamFrame_write_parse [of f r v] by fastforce
  ultimately show "\<exists>bs. StreamFrame_Write f v = Inr bs
      \<and> (\<forall>r. ParseStreamFrame (bs @ r) v = Inr (id f, r))
      \<and> okThen (StreamFrame_MinLength f v) (\<lambda>n. Inr (n + StreamFrame_DataLen f)) =
          Inr (of_nat (length bs)) \<and> length bs < 2 ^ 32"
    by simp
qed (simp add: ParseStreamFrame_InrD)

section \<open>Properties\<close>

text \<open>
  C7. STREAM frames: a frame with data or FIN that fits the offset space is read back
  exactly as written, in front of anything when it carries its data length and at the
  end of the packet otherwise; header length plus data length is the number of bytes
  written.
\<close>

theorem StreamFrame_roundtrip:
  assumes "StreamFrame_valid f" "sf_DataLenPresent f \<or> r = []"
  shows "okThen (StreamFrame_Write f v) (\<lambda>bs. ParseStreamFrame (bs @ r) v) = Inr (f, r)
    \<and> map_sum id length (StreamFrame_Write f v) =
        map_sum id (\<lambda>n. unat (n + StreamFrame_DataLen f)) (StreamFrame_MinLength f v)"
proof -
  obtain bs where "StreamFrame_Write f v = Inr bs" "ParseStreamFrame (bs @ r) v = Inr (f, r)"
    "StreamFrame_MinLength f v = Inr (of_nat (length bs) - StreamFrame_DataLen f)"
    "length bs < 2 ^ 32"
    using StreamFrame_write_parse [OF assms] by metis
  then show ?thesis by (simp add: unat_of_nat)
qed

theorem StreamFrame_roundtrip_witness:
  "okThen (StreamFrame_Write \<lparr> sf_StreamID = 1337, sf_FinBit = True, sf_DataLenPresent = True,
       sf_Offset = 70000, sf_Data = [1, 2, 3] \<rparr> 512) (\<lambda>bs. ParseStreamFrame (bs @ [9]) 512) =
   Inr (\<lparr> sf_StreamID = 1337, sf_FinBit = True, sf_DataLenPresent = True,
       sf_Offset = 70000, sf_Data = [1, 2, 3] \<rparr>, [9])"
  using StreamFrame_roundtrip [of "\<lparr> sf_StreamID = 1337, sf_FinBit = True,
      sf_DataLenPresent = True, sf_Offset = 70000, sf_Data = [1, 2, 3] \<rparr>" "[9]" 512]
  by (simp add: StreamFrame_valid_def)

text \<open>
  STREAM parser: on arbitrary input, an accepted frame has data or FIN, its data end
  does not overflow the 64-bit offset space, its length respects the packet limit when
  it is stated explicitly, and input was consumed.
\<close>

theorem ParseStreamFrame_safe:
  assumes "ParseStreamFrame r v = Inr (f, r')"
  shows "(sf_Data f \<noteq> [] \<or> sf_FinBit f)
    \<and> unat (sf_Offset f) + length (sf_Data f) < 2 ^ 64
    \<and> length (sf_Data f) \<le> (if sf_DataLenPresent f then unat MaxPacketSize else 65535)
    \<and> length r' < length r"
  using ParseStreamFrame_InrD [OF assms]
  by (auto simp: StreamFrame_valid_def MaxPacketSize_def split: if_splits)

theorem ParseStreamFrame_safe_witness:
  "ParseStreamFrame [0xa0, 5, 0, 2, 7, 8, 9] 39 =
     Inr (\<lparr> sf_StreamID = 5, sf_FinBit = False, sf_DataLenPresent = True, sf_Offset = 0,
            sf_Data = [7, 8] \<rparr>, [9])
   \<and> unat (0 :: ByteCount) + length ([7, 8] :: byte list) < 2 ^ 64"
proof -
  let ?f = "\<lparr> sf_StreamID = 5, sf_FinBit = False, sf_DataLenPresent = True, sf_Offset = 0,
      sf_Data = [7, 8] \<rparr>"
  have p: "ParseStreamFrame [0xa0, 5, 0, 2, 7, 8, 9] 39 = Inr (?f, [9])"
    by code_simp
  from ParseStreamFrame_safe [OF p] p show ?thesis by simp
qed

end
