(* ===== verification/WireAckBlocks.thy ===== *)
theory WireAckBlocks
  imports Frames
begin

unbundle bit_operations_syntax

text \<open>
  The acknowledged ranges of ACK and CLOSE_PATH frames (\<open>internal/wire/ack_frame.go\<close>,
  \<open>close_path_frame.go\<close>) and their encoding as blocks, pairs of a gap and a length,
  highest range first. A gap above 255 packets is spread over several blocks, and at
  most 255 blocks fit, so a frame may carry only a prefix of its ranges. The two Go
  types repeat the same methods; methods that are textually equal share a definition.
\<close>

section \<open>Ranges\<close>

record AckRange =
  ar_First :: PacketNumber
  ar_Last :: PacketNumber

definition HasMissingRanges :: "AckRange list \<Rightarrow> bool" where
  "HasMissingRanges ranges \<longleftrightarrow> length ranges > 0"

fun consistentRanges :: "AckRange list \<Rightarrow> bool" where
  "consistentRanges (lastAckRange # ackRange # rs) =
     (if ar_First lastAckRange \<le> ar_First ackRange then False
      else if ar_First lastAckRange \<le> ar_Last ackRange + 1 then False
      else consistentRanges (ackRange # rs))"
| "consistentRanges _ = True"

definition validateAckRanges :: "PacketNumber \<Rightarrow> AckRange list \<Rightarrow> bool" where
  "validateAckRanges largestAcked ranges =
     (if length ranges = 0 then True
      else if length ranges = 1 then False
      else if ar_Last (hd ranges) \<noteq> largestAcked then False
      else if \<not> list_all (\<lambda>ackRange. \<not> ar_First ackRange > ar_Last ackRange) ranges then False
      else consistentRanges ranges)"

text \<open>The number of blocks that the gap below a range needs.\<close>

definition gapBlocks :: "uint64 \<Rightarrow> uint64" where
  "gapBlocks gap = (let n = 1 + gap div 0xFF in if gap mod 0xFF = 0 then n - 1 else n)"

fun numWritable_loop :: "uint64 \<Rightarrow> AckRange \<Rightarrow> AckRange list \<Rightarrow> uint64" where
  "numWritable_loop numRanges lastAckRange [] = numRanges"
| "numWritable_loop numRanges lastAckRange (ackRange # rs) =
     (let gap = ar_First lastAckRange - ar_Last ackRange - 1;
          rangeLength = gapBlocks gap
      in if numRanges + rangeLength < 0xFF
         then numWritable_loop (numRanges + rangeLength) ackRange rs
         else numRanges)"

fun numWritableNackRanges :: "AckRange list \<Rightarrow> uint64" where
  "numWritableNackRanges [] = 0"
| "numWritableNackRanges (ackRange # rs) = numWritable_loop 0 ackRange rs + 1"

fun maxRangeLength :: "PacketNumber \<Rightarrow> AckRange list \<Rightarrow> PacketNumber" where
  "maxRangeLength m [] = m"
| "maxRangeLength m (ackRange # rs) =
     (let rangeLength = ar_Last ackRange - ar_First ackRange + 1
      in maxRangeLength (if rangeLength > m then rangeLength else m) rs)"

definition getMissingSequenceNumberDeltaLen ::
  "PacketNumber \<Rightarrow> PacketNumber \<Rightarrow> AckRange list \<Rightarrow> PacketNumberLen" where
  "getMissingSequenceNumberDeltaLen largestAcked lowestAcked ranges =
     (let m = (if HasMissingRanges ranges then maxRangeLength 0 ranges
               else largestAcked - lowestAcked + 1)
      in if m \<le> 0xFF then PacketNumberLen1
         else if m \<le> 0xFFFF then PacketNumberLen2
         else if m \<le> 0xFFFFFFFF then PacketNumberLen4
         else PacketNumberLen6)"

fun inRanges :: "AckRange list \<Rightarrow> PacketNumber \<Rightarrow> bool" where
  "inRanges [] p = False"
| "inRanges (ackRange # rs) p =
     (if p \<ge> ar_First ackRange \<and> p \<le> ar_Last ackRange then True else inRanges rs p)"

definition acksPacket ::
  "PacketNumber \<Rightarrow> PacketNumber \<Rightarrow> AckRange list \<Rightarrow> PacketNumber \<Rightarrow> bool" where
  "acksPacket largestAcked lowestAcked ranges p =
     (if p < lowestAcked \<or> p > largestAcked then False
      else if HasMissingRanges ranges then inRanges ranges p
      else p \<ge> lowestAcked \<and> p \<le> largestAcked)"

section \<open>Writing blocks\<close>

text \<open>
  The inner loop for a gap of more than 255 packets, with the number of blocks still
  to write: all but the last have gap 255 and length 0. \<open>wr\<close> is the \<open>switch\<close> over
  the length of the block length field.
\<close>

fun writeLongGap :: "(uint64 \<Rightarrow> go_error + byte list) \<Rightarrow> uint64 \<Rightarrow> uint64 \<Rightarrow> nat
    \<Rightarrow> go_error + byte list" where
  "writeLongGap wr gap len 0 = Inr []"
| "writeLongGap wr gap len (Suc n) =
     (let lengthWritten = (if n = 0 then len else 0);
          gapWritten = (if n = 0 then ucast (1 + (gap - 1) mod 255) else 0xFF)
      in okThen (wr lengthWritten) (\<lambda>l.
         okThen (writeLongGap wr gap len n) (\<lambda>bs. Inr ([gapWritten] @ l @ bs))))"

text \<open>The outer loop: the bytes written and the final \<open>numRangesWritten\<close>.\<close>

fun writeRanges :: "(uint64 \<Rightarrow> go_error + byte list) \<Rightarrow> uint64 \<Rightarrow> uint64 \<Rightarrow> AckRange
    \<Rightarrow> AckRange list \<Rightarrow> go_error + (byte list \<times> uint64)" where
  "writeRanges wr numRanges numRangesWritten lastAckRange [] = Inr ([], numRangesWritten)"
| "writeRanges wr numRanges numRangesWritten lastAckRange (ackRange # rs) =
     (let len = ar_Last ackRange - ar_First ackRange + 1;
          gap = ar_First lastAckRange - ar_Last ackRange - 1;
          num = (let n = gap div 0xFF + 1 in if gap mod 0xFF = 0 then n - 1 else n)
      in okThen (if num = 1 then okThen (wr len) (\<lambda>l. Inr ([ucast gap] @ l))
                 else writeLongGap wr gap len (unat num)) (\<lambda>bs.
         let numRangesWritten = numRangesWritten + num
         in if numRangesWritten \<ge> numRanges then Inr (bs, numRangesWritten)
            else okThen (writeRanges wr numRanges numRangesWritten ackRange rs)
                   (\<lambda>(bs', n). Inr (bs @ bs', n))))"

section \<open>Reading blocks\<close>

text \<open>
  The loop over \<open>numAckBlocks\<close> blocks: the ranges read so far, whether the previous
  block had length 0, and whether the last range is complete.
\<close>

fun parseAckBlocks :: "(reader \<Rightarrow> go_error + (uint64 \<times> reader)) \<Rightarrow> nat \<Rightarrow> AckRange list
    \<Rightarrow> bool \<Rightarrow> bool \<Rightarrow> reader \<Rightarrow> go_error + ((AckRange list \<times> bool) \<times> reader)" where
  "parseAckBlocks rd 0 ranges inLongBlock lastRangeComplete r =
     Inr ((ranges, lastRangeComplete), r)"
| "parseAckBlocks rd (Suc n) ranges inLongBlock lastRangeComplete r =
     andThen (ReadByte r) (\<lambda>gap r.
     andThen (rd r) (\<lambda>len r.
       let cur = last ranges;
           (ranges, lastRangeComplete) =
             (if inLongBlock
              then (butlast ranges @ [\<lparr> ar_First = ar_First cur - (ucast gap + len),
                                        ar_Last = ar_Last cur - ucast gap \<rparr>],
                    lastRangeComplete)
              else let l = ar_First cur - ucast gap - 1
                   in (ranges @ [\<lparr> ar_First = l - len + 1, ar_Last = l \<rparr>], False));
           lastRangeComplete = (if len > 0 then True else lastRangeComplete)
       in parseAckBlocks rd n ranges (len = 0) lastRangeComplete r))"

definition ErrInvalidAckRanges :: go_error where
  "ErrInvalidAckRanges = GoErr ''AckFrame: ACK frame contains invalid ACK ranges''"

definition ErrInvalidFirstAckRange :: go_error where
  "ErrInvalidFirstAckRange = GoErr ''AckFrame: ACK frame has invalid first ACK range''"

definition errInconsistentAckLargestAcked :: go_error where
  "errInconsistentAckLargestAcked =
     GoErr ''internal inconsistency: LargestAcked does not match ACK ranges''"

definition errInconsistentAckLowestAcked :: go_error where
  "errInconsistentAckLowestAcked =
     GoErr ''internal inconsistency: LowestAcked does not match ACK ranges''"

text \<open>
  From the first block length to the validated ranges: returns \<open>LowestAcked\<close> and
  \<open>AckRanges\<close>.
\<close>

definition parseRanges :: "(reader \<Rightarrow> go_error + (uint64 \<times> reader)) \<Rightarrow> bool \<Rightarrow> uint8
    \<Rightarrow> PacketNumber \<Rightarrow> reader \<Rightarrow> go_error + ((PacketNumber \<times> AckRange list) \<times> reader)" where
  "parseRanges rd hasMissingRanges numAckBlocks largestAcked r =
     andThen (rd r) (\<lambda>ackBlockLength r.
       if largestAcked > 0 \<and> ackBlockLength < 1 then Inl ErrInvalidFirstAckRange
       else if ackBlockLength > largestAcked then Inl ErrInvalidAckRanges
       else andThen
         (if hasMissingRanges
          then andThen (parseAckBlocks rd (unat numAckBlocks)
                  [\<lparr> ar_First = largestAcked - ackBlockLength + 1, ar_Last = largestAcked \<rparr>]
                  False False r) (\<lambda>(ranges, lastRangeComplete) r.
                 let ranges = (if \<not> lastRangeComplete then butlast ranges else ranges)
                 in Inr ((ar_First (last ranges), ranges), r))
          else if largestAcked = 0 then Inr ((0, []), r)
          else Inr ((largestAcked + 1 - ackBlockLength, []), r))
         (\<lambda>(lowestAcked, ranges) r.
            if \<not> validateAckRanges largestAcked ranges then Inl ErrInvalidAckRanges
            else Inr ((lowestAcked, ranges), r)))"

text \<open>
  The part of \<open>Write\<close> shared by both frames, from the first block length to the check
  of the number of blocks; \<open>bug\<close> is the error of that check.
\<close>

definition writeAckBlocks :: "(uint64 \<Rightarrow> go_error + byte list) \<Rightarrow> go_error \<Rightarrow> uint64
    \<Rightarrow> PacketNumber \<Rightarrow> PacketNumber \<Rightarrow> AckRange list \<Rightarrow> go_error + byte list" where
  "writeAckBlocks wr bug numRanges largestAcked lowestAcked ranges =
     (case ranges of
        [] \<Rightarrow> okThen (wr (largestAcked - lowestAcked + 1)) (\<lambda>l.
                if numRanges \<noteq> 0 then Inl bug else Inr l)
      | range0 # rs \<Rightarrow>
          if largestAcked \<noteq> ar_Last range0 then Inl errInconsistentAckLargestAcked
          else if lowestAcked \<noteq> ar_First (last ranges) then Inl errInconsistentAckLowestAcked
          else okThen (wr (largestAcked - ar_First range0 + 1)) (\<lambda>l.
               okThen (writeRanges wr numRanges 1 range0 rs) (\<lambda>(bs, numRangesWritten).
                 if numRanges \<noteq> numRangesWritten then Inl bug else Inr (l @ bs))))"

section \<open>Block counts\<close>

lemma unat_gapBlocks: "gap \<noteq> 0 \<Longrightarrow> unat (gapBlocks gap) = (unat gap - 1) div 255 + 1"
proof -
  assume "gap \<noteq> 0"
  then have pos: "0 < unat gap" by (simp add: word_unat_eq_iff)
  define q s where "q = unat gap div 255" and "s = unat gap mod 255"
  have g: "unat gap = 255 * q + s" "s < 255" by (auto simp: q_def s_def)
  have q: "unat (gap div 255) = q" and z: "gap mod 255 = 0 \<longleftrightarrow> s = 0"
    by (simp_all add: q_def s_def unat_div_distrib word_unat_eq_iff unat_mod_distrib)
  have "q < 2 ^ 64 - 1" using g unat_uint64_less [of gap] by simp
  then have q1: "unat (1 + gap div 255) = q + 1" using q by (simp add: unat_word_ariths)
  show ?thesis
  proof (cases "s = 0")
    case True
    then have "(unat gap - 1) div 255 = q - 1" "0 < q" using g pos by (cases q; simp)+
    moreover have "unat (1 + gap div 255 - 1) = q" using q by simp
    ultimately show ?thesis using True z by (simp add: gapBlocks_def)
  next
    case False
    then have "(unat gap - 1) div 255 = q" using g by simp
    then show ?thesis using False z q1 by (simp add: gapBlocks_def)
  qed
qed

text \<open>A gap is the sum of the gaps of its blocks.\<close>

lemma gap_sum:
  fixes gap :: uint64
  assumes "gap \<noteq> 0"
  shows "of_nat (255 * ((unat gap - 1) div 255)) + (1 + (gap - 1) mod 255) = gap"
proof -
  have pos: "0 < unat gap" using assms by (simp add: word_unat_eq_iff)
  have "unat (gap - 1) = unat gap - 1" using pos by (simp add: unat_sub_if')
  then have "(gap - 1) mod 255 = of_nat ((unat gap - 1) mod 255)"
    by (simp add: word_unat_eq_iff unat_mod_distrib unat_of_nat)
  then have "of_nat (255 * ((unat gap - 1) div 255)) + (1 + (gap - 1) mod 255) =
      (of_nat (255 * ((unat gap - 1) div 255) + (1 + (unat gap - 1) mod 255)) :: uint64)"
    by (simp only: of_nat_add of_nat_1)
  also have "255 * ((unat gap - 1) div 255) + (1 + (unat gap - 1) mod 255) = unat gap"
    using pos mult_div_mod_eq [of 255 "unat gap - 1"] by linarith
  finally show ?thesis by simp
qed

lemma gap_byte:
  fixes gap :: uint64
  shows "(ucast (ucast (1 + (gap - 1) mod 255) :: byte) :: uint64) = 1 + (gap - 1) mod 255"
proof (rule ucast_down_up)
  have "unat ((gap - 1) mod 255) < 255" by (simp add: unat_mod_distrib)
  then show "unat (1 + (gap - 1) mod 255) < 2 ^ LENGTH(8)" by (simp add: unat_word_ariths)
qed

text \<open>
  The specification of what is written: the number of blocks of a range below another
  one, and the ranges that fit into fewer than 255 blocks.
\<close>

definition rangeGap :: "AckRange \<Rightarrow> AckRange \<Rightarrow> uint64" where
  "rangeGap p b = ar_First p - ar_Last b - 1"

definition rangeLen :: "AckRange \<Rightarrow> uint64" where
  "rangeLen b = ar_Last b - ar_First b + 1"

definition blockCount :: "AckRange \<Rightarrow> AckRange \<Rightarrow> nat" where
  "blockCount p b = (unat (rangeGap p b) - 1) div 255 + 1"

fun totalBlocks :: "AckRange \<Rightarrow> AckRange list \<Rightarrow> nat" where
  "totalBlocks p [] = 0"
| "totalBlocks p (b # rs) = blockCount p b + totalBlocks b rs"

fun writable :: "nat \<Rightarrow> AckRange \<Rightarrow> AckRange list \<Rightarrow> AckRange list" where
  "writable n p [] = []"
| "writable n p (b # rs) =
     (if n + blockCount p b < 255 then b # writable (n + blockCount p b) b rs else [])"

fun gapped :: "(uint64 \<Rightarrow> bool) \<Rightarrow> AckRange \<Rightarrow> AckRange list \<Rightarrow> bool" where
  "gapped fits p [] = True"
| "gapped fits p (b # rs) =
     (rangeGap p b \<noteq> 0 \<and> rangeLen b \<noteq> 0 \<and> fits (rangeLen b) \<and> gapped fits b rs)"

lemma writeRanges_Cons:
  "writeRanges wr N w p (b # rs) =
     okThen (if gapBlocks (rangeGap p b) = 1
             then okThen (wr (rangeLen b)) (\<lambda>l. Inr ([ucast (rangeGap p b)] @ l))
             else writeLongGap wr (rangeGap p b) (rangeLen b) (unat (gapBlocks (rangeGap p b))))
       (\<lambda>bs. if w + gapBlocks (rangeGap p b) \<ge> N then Inr (bs, w + gapBlocks (rangeGap p b))
             else okThen (writeRanges wr N (w + gapBlocks (rangeGap p b)) b rs)
                    (\<lambda>(bs', n). Inr (bs @ bs', n)))"
  unfolding writeRanges.simps Let_def gapBlocks_def rangeGap_def rangeLen_def
  by (simp only: add.commute [of 1])

lemma blockCount_pos [simp]: "0 < blockCount p b"
  by (simp add: blockCount_def)

lemma totalBlocks_eq_0 [simp]: "totalBlocks p rs = 0 \<longleftrightarrow> rs = []"
  by (cases rs) (simp_all add: blockCount_def)

lemma unat_gapBlocks_range: "rangeGap p b \<noteq> 0 \<Longrightarrow> unat (gapBlocks (rangeGap p b)) = blockCount p b"
  by (simp add: unat_gapBlocks blockCount_def)

lemma blockCount_bound: "blockCount p b < 2 ^ 63"
proof -
  have "(unat (rangeGap p b) - 1) div 255 < 2 ^ 63 - 1"
    using unat_uint64_less [of "rangeGap p b"] by (intro less_mult_imp_div_less) simp
  then show ?thesis by (simp add: blockCount_def)
qed

lemma totalBlocks_writable: "n < 255 \<Longrightarrow> n + totalBlocks p (writable n p rs) < 255"
proof (induction rs arbitrary: n p)
  case (Cons b rs)
  then show ?case
    using Cons.IH [of "n + blockCount p b" b] by (auto simp: add.assoc)
qed simp

lemma numWritable_loop_eq:
  assumes "gapped fits p rs" "n < 255"
  shows "numWritable_loop (of_nat n) p rs = of_nat (n + totalBlocks p (writable n p rs))"
  using assms
proof (induction rs arbitrary: n p)
  case (Cons b rs)
  define c where "c = blockCount p b"
  have c: "unat (gapBlocks (rangeGap p b)) = c"
    using Cons.prems by (simp add: unat_gapBlocks_range c_def)
  have n: "unat (of_nat n :: uint64) = n" using Cons.prems(2) by (simp add: unat_of_nat)
  have eq: "of_nat n + gapBlocks (rangeGap p b) = of_nat (n + c)"
    unfolding word_eq_of_nat [OF c] by simp
  have "unat (of_nat (n + c) :: uint64) = n + c"
    using Cons.prems(2) blockCount_bound [of p b] by (simp only: unat_of_nat) (simp add: c_def)
  then have less: "(of_nat (n + c) :: uint64) < 0xFF \<longleftrightarrow> n + c < 255"
    by (simp add: word_less_nat_alt)
  have step: "numWritable_loop (of_nat n) p (b # rs) =
      (if n + c < 255 then numWritable_loop (of_nat (n + c)) b rs else of_nat n)"
    unfolding numWritable_loop.simps Let_def rangeGap_def [symmetric] eq less ..
  show ?case
    unfolding step using Cons.IH [of b "n + c"] Cons.prems by (auto simp: c_def add.assoc)
qed simp

section \<open>Well-formed ranges\<close>

text \<open>
  Highest range first, at least one packet missing between two ranges; the numbers do
  not wrap around.
\<close>

fun desc :: "AckRange list \<Rightarrow> bool" where
  "desc [] = True"
| "desc [a] = (ar_First a \<le> ar_Last a)"
| "desc (a # b # rs) =
     (ar_First a \<le> ar_Last a \<and> unat (ar_Last b) + 1 < unat (ar_First a) \<and> desc (b # rs))"

definition ackRanges_wf :: "PacketNumber \<Rightarrow> PacketNumber \<Rightarrow> AckRange list \<Rightarrow> bool" where
  "ackRanges_wf largest lowest ranges \<longleftrightarrow>
     lowest \<le> largest \<and>
     (ranges \<noteq> [] \<longrightarrow> 2 \<le> length ranges \<and> ar_Last (hd ranges) = largest
        \<and> ar_First (last ranges) = lowest \<and> desc ranges)"

text \<open>What a frame carries: the ranges that fit, and the lowest packet of these.\<close>

definition carriedRanges :: "AckRange list \<Rightarrow> AckRange list" where
  "carriedRanges ranges = (case ranges of [] \<Rightarrow> [] | p # rs \<Rightarrow> p # writable 0 p rs)"

definition carriedLowest :: "PacketNumber \<Rightarrow> AckRange list \<Rightarrow> PacketNumber" where
  "carriedLowest lowest ranges =
     (if ranges = [] then lowest else ar_First (last (carriedRanges ranges)))"

lemma desc_ConsD: "desc (a # rs) \<Longrightarrow> ar_First a \<le> ar_Last a \<and> desc rs"
  by (cases rs) auto

lemma desc_mem: "desc rs \<Longrightarrow> b \<in> set rs \<Longrightarrow> ar_First b \<le> ar_Last b"
  by (induction rs) (auto dest: desc_ConsD)

lemma desc_below: "desc (a # rs) \<Longrightarrow> b \<in> set rs \<Longrightarrow> unat (ar_Last b) + 1 < unat (ar_First a)"
proof (induction rs arbitrary: a)
  case (Cons c rs)
  show ?case
  proof (cases "b = c")
    case False
    with Cons.prems have "b \<in> set rs" by simp
    with Cons.IH [of c] Cons.prems have "unat (ar_Last b) + 1 < unat (ar_First c)" by simp
    moreover have "unat (ar_First c) \<le> unat (ar_Last c)"
      using Cons.prems desc_mem [of "c # rs" c] by (simp add: word_le_nat_alt)
    ultimately show ?thesis using Cons.prems by simp
  qed (use Cons.prems in simp)
qed simp

lemma desc_writable: "desc (p # rs) \<Longrightarrow> desc (p # writable n p rs)"
  by (induction rs arbitrary: n p) (auto dest: desc_ConsD)

lemma set_writable: "set (writable n p rs) \<subseteq> set rs"
  by (induction rs arbitrary: n p) auto

lemma desc_consistent: "desc rs \<Longrightarrow> consistentRanges rs"
proof (induction rs rule: consistentRanges.induct)
  case (1 a b rs)
  have b: "ar_First b \<le> ar_Last b" using 1(2) desc_mem [of "b # rs" b] by simp
  have "unat (ar_Last b + 1) = unat (ar_Last b) + 1"
    using 1(2) unat_uint64_less [of "ar_First a"] by (simp add: unat_word_ariths)
  then have "ar_Last b + 1 < ar_First a" using 1(2) by (simp add: word_less_nat_alt)
  moreover have "ar_First b < ar_First a" using 1(2) b by (simp add: word_less_nat_alt word_le_nat_alt)
  ultimately show ?case using 1 by (simp add: linorder_not_le)
qed auto

lemma desc_validate:
  "desc rs \<Longrightarrow> 2 \<le> length rs \<Longrightarrow> ar_Last (hd rs) = largest \<Longrightarrow> validateAckRanges largest rs"
  by (auto simp: validateAckRanges_def list_all_iff desc_consistent linorder_not_less dest: desc_mem)

lemma rangeGap_nonzero: "unat (ar_Last b) + 1 < unat (ar_First p) \<Longrightarrow> rangeGap p b \<noteq> 0"
proof
  assume less: "unat (ar_Last b) + 1 < unat (ar_First p)" and "rangeGap p b = 0"
  then have "ar_First p = ar_Last b + 1" by (simp add: rangeGap_def algebra_simps)
  moreover have "unat (ar_Last b + 1) \<le> unat (ar_Last b) + 1" by (simp add: unat_word_ariths)
  ultimately show False using less by simp
qed

lemma gapped_desc:
  "desc (p # rs) \<Longrightarrow> (\<And>b. b \<in> set rs \<Longrightarrow> fits (rangeLen b) \<and> rangeLen b \<noteq> 0) \<Longrightarrow> gapped fits p rs"
  by (induction rs arbitrary: p) (auto simp: rangeGap_nonzero)

lemma block_length:
  fixes lo hi :: PacketNumber
  assumes "lo \<le> hi" "0 < lo \<or> unat hi < 2 ^ 63"
  shows "unat (hi - lo + 1) = unat hi - unat lo + 1"
proof -
  have "unat hi - unat lo + 1 < 2 ^ 64"
    using assms unat_uint64_less [of hi] by (auto simp: word_less_nat_alt)
  then show ?thesis
    using assms(1) by (simp add: unat_word_ariths unat_sub_if' word_le_nat_alt)
qed

lemma desc_lowest: "desc rs \<Longrightarrow> b \<in> set rs \<Longrightarrow> ar_First (last rs) \<le> ar_First b"
proof (induction rs)
  case (Cons a rs)
  show ?case
  proof (cases rs)
    case Nil
    then show ?thesis using Cons.prems by simp
  next
    case (Cons c cs)
    with Cons.prems have "unat (ar_Last (last rs)) + 1 < unat (ar_First a)"
      by (intro desc_below [of a rs]) simp_all
    moreover have "ar_First (last rs) \<le> ar_Last (last rs)"
      using Cons.prems \<open>rs = c # cs\<close> desc_mem [of "a # rs" "last rs"] by simp
    ultimately have "ar_First (last rs) \<le> ar_First a" by (simp add: word_le_nat_alt)
    then show ?thesis using Cons.prems Cons.IH \<open>rs = c # cs\<close> by (auto dest: desc_ConsD)
  qed
qed simp

lemma rangeLen_nat:
  assumes "desc rs" "0 < ar_First (last rs)" "b \<in> set rs"
  shows "unat (rangeLen b) = unat (ar_Last b) - unat (ar_First b) + 1" "rangeLen b \<noteq> 0"
    "0 < ar_First b"
proof -
  show pos: "0 < ar_First b" using desc_lowest [OF assms(1,3)] assms(2) by simp
  then show "unat (rangeLen b) = unat (ar_Last b) - unat (ar_First b) + 1"
    using desc_mem [OF assms(1,3)] by (simp only: rangeLen_def block_length simp_thms)
  then show "rangeLen b \<noteq> 0" by auto
qed

section \<open>Blocks can be read back\<close>

text \<open>
  The contract of the block length field: \<open>wr\<close> writes a number that fits in \<open>width\<close>
  bytes and \<open>rd\<close> reads it back. ACK and CLOSE_PATH differ only in \<open>wr\<close>.
\<close>

locale number_codec =
  fixes wr :: "uint64 \<Rightarrow> go_error + byte list"
    and rd :: "reader \<Rightarrow> go_error + (uint64 \<times> reader)"
    and width :: nat and fits :: "uint64 \<Rightarrow> bool"
  assumes wr_rd: "fits x \<Longrightarrow> \<exists>bs. wr x = Inr bs \<and> length bs = width
      \<and> (\<forall>r. rd (bs @ r) = Inr (x, r))"
    and fits_0: "fits x \<Longrightarrow> fits 0"
begin

lemma parse_long_step:
  assumes "\<And>r. rd (l @ r) = Inr (len, r)"
  shows "parseAckBlocks rd (Suc m) (rs @ [cur]) True c (g # l @ r) =
    parseAckBlocks rd m (rs @ [\<lparr> ar_First = ar_First cur - (ucast g + len),
        ar_Last = ar_Last cur - ucast g \<rparr>]) (len = 0) (len > 0 \<or> c) r"
  using assms by simp

lemma parse_new_step:
  assumes "\<And>r. rd (l @ r) = Inr (len, r)"
  shows "parseAckBlocks rd (Suc m) (rs @ [cur]) False c (g # l @ r) =
    parseAckBlocks rd m (rs @ [cur, \<lparr> ar_First = ar_First cur - ucast g - 1 - len + 1,
        ar_Last = ar_First cur - ucast g - 1 \<rparr>]) (len = 0) (len > 0) r"
  using assms by (simp add: Let_def)

lemma writeLongGap_parse:
  fixes gap :: uint64
  assumes "fits len"
  defines "g \<equiv> 1 + (gap - 1) mod 255"
  shows "\<exists>bs. writeLongGap wr gap len (Suc n) = Inr bs \<and> length bs = Suc n * (1 + width)
    \<and> (\<forall>rs cur c m r. parseAckBlocks rd (Suc n + m) (rs @ [cur]) True c (bs @ r) =
         parseAckBlocks rd m
           (rs @ [\<lparr> ar_First = ar_First cur - (of_nat (255 * n) + g + len),
                    ar_Last = ar_Last cur - (of_nat (255 * n) + g) \<rparr>])
           (len = 0) (len > 0 \<or> c) r)"
proof (induction n)
  case 0
  obtain l where l: "wr len = Inr l" "length l = width" "\<And>r. rd (l @ r) = Inr (len, r)"
    using wr_rd [OF assms(1)] by blast
  have gb: "ucast (ucast g :: byte) = g" unfolding g_def by (rule gap_byte)
  have "writeLongGap wr gap len (Suc 0) = Inr (ucast g # l)"
    using l(1) by (simp add: g_def)
  then show ?case using l(2) parse_long_step [OF l(3)] gb
    by (intro exI [of _ "ucast g # l"]) (simp del: parseAckBlocks.simps)
next
  case (Suc n)
  obtain z where z: "wr 0 = Inr z" "length z = width" "\<And>r. rd (z @ r) = Inr (0, r)"
    using wr_rd [OF fits_0 [OF assms(1)]] by blast
  from Suc obtain bs where bs: "writeLongGap wr gap len (Suc n) = Inr bs"
    "length bs = Suc n * (1 + width)" and parse:
    "\<forall>rs cur c m r. parseAckBlocks rd (Suc n + m) (rs @ [cur]) True c (bs @ r) =
       parseAckBlocks rd m (rs @ [\<lparr> ar_First = ar_First cur - (of_nat (255 * n) + g + len),
          ar_Last = ar_Last cur - (of_nat (255 * n) + g) \<rparr>]) (len = 0) (len > 0 \<or> c) r"
    by (elim exE conjE)
  let ?bs = "0xFF # z @ bs"
  have "writeLongGap wr gap len (Suc (Suc n)) = Inr ?bs"
    unfolding writeLongGap.simps(2) [of wr gap len "Suc n"] bs(1) using z by simp
  moreover have "parseAckBlocks rd (Suc (Suc n) + m) (rs @ [cur]) True c (?bs @ r) =
      parseAckBlocks rd m (rs @ [\<lparr> ar_First = ar_First cur - (of_nat (255 * Suc n) + g + len),
         ar_Last = ar_Last cur - (of_nat (255 * Suc n) + g) \<rparr>]) (len = 0) (len > 0 \<or> c) r"
    for rs cur c m r
  proof -
    have "parseAckBlocks rd (Suc (Suc n) + m) (rs @ [cur]) True c (?bs @ r) =
        parseAckBlocks rd (Suc n + m) (rs @ [\<lparr> ar_First = ar_First cur - 255,
          ar_Last = ar_Last cur - 255 \<rparr>]) True c (bs @ r)"
      using parse_long_step [OF z(3), of "Suc n + m" rs cur c 255 "bs @ r"]
      by (simp del: parseAckBlocks.simps)
    then show ?thesis
      using parse [rule_format, of m rs "\<lparr> ar_First = ar_First cur - 255,
          ar_Last = ar_Last cur - 255 \<rparr>" c r]
      by (simp add: algebra_simps del: parseAckBlocks.simps)
  qed
  moreover have "length ?bs = Suc (Suc n) * (1 + width)" using bs(2) z(2) by simp
  ultimately show ?case by blast
qed

text \<open>One range, in one or several blocks.\<close>

lemma writeRange_parse:
  assumes "rangeGap p b \<noteq> 0" "rangeLen b \<noteq> 0" "fits (rangeLen b)"
  shows "\<exists>bs. (if gapBlocks (rangeGap p b) = 1
        then okThen (wr (rangeLen b)) (\<lambda>l. Inr ([ucast (rangeGap p b)] @ l))
        else writeLongGap wr (rangeGap p b) (rangeLen b) (unat (gapBlocks (rangeGap p b)))) = Inr bs
    \<and> length bs = blockCount p b * (1 + width)
    \<and> (\<forall>rs c m r. parseAckBlocks rd (blockCount p b + m) (rs @ [p]) False c (bs @ r) =
         parseAckBlocks rd m (rs @ [p, b]) False True r)"
proof -
  let ?gap = "rangeGap p b" and ?len = "rangeLen b"
  define k where "k = (unat ?gap - 1) div 255"
  define g where "g = 1 + (?gap - 1) mod 255"
  have sum: "of_nat (255 * k) + g = ?gap" unfolding k_def g_def by (rule gap_sum [OF assms(1)])
  have cnt: "blockCount p b = Suc k" "unat (gapBlocks ?gap) = Suc k"
    using unat_gapBlocks_range [OF assms(1)] by (simp_all add: blockCount_def k_def)
  have range: "\<lparr> ar_First = ar_First p - 1 - ?gap + 1 - ?len, ar_Last = ar_First p - 1 - ?gap \<rparr> = b"
    by (simp add: rangeGap_def rangeLen_def)
  obtain l where l: "wr ?len = Inr l" "length l = width" "\<And>r. rd (l @ r) = Inr (?len, r)"
    using wr_rd [OF assms(3)] by blast
  show ?thesis
  proof (cases k)
    case 0
    then have one: "gapBlocks ?gap = 1" using cnt(2) by (simp add: word_unat_eq_iff)
    have gb: "ucast (ucast ?gap :: byte) = ?gap"
      using gap_byte [of ?gap] sum 0 by (simp add: g_def)
    have "parseAckBlocks rd (Suc m) (rs @ [p]) False c (ucast ?gap # l @ r) =
        parseAckBlocks rd m (rs @ [p, b]) False True r" for rs c m r
      using parse_new_step [OF l(3), of m rs p c "ucast ?gap" r] assms(2) range gb
      by (simp add: algebra_simps word_gt_0 del: parseAckBlocks.simps)
    then show ?thesis
      using one l(1,2) cnt(1) 0
      by (intro exI [of _ "ucast ?gap # l"]) (simp del: parseAckBlocks.simps)
  next
    case (Suc n)
    obtain z where z: "wr 0 = Inr z" "length z = width" "\<And>r. rd (z @ r) = Inr (0, r)"
      using wr_rd [OF fits_0 [OF assms(3)]] by blast
    from writeLongGap_parse [OF assms(3), of ?gap n, folded g_def] obtain bs where
      bs: "writeLongGap wr ?gap ?len (Suc n) = Inr bs" "length bs = Suc n * (1 + width)" and parse:
      "\<forall>rs cur c m r. parseAckBlocks rd (Suc n + m) (rs @ [cur]) True c (bs @ r) =
         parseAckBlocks rd m (rs @ [\<lparr> ar_First = ar_First cur - (of_nat (255 * n) + g + ?len),
            ar_Last = ar_Last cur - (of_nat (255 * n) + g) \<rparr>]) (?len = 0) (?len > 0 \<or> c) r"
      by (elim exE conjE)
    have "gapBlocks ?gap \<noteq> 1" using cnt(2) Suc by (auto simp: word_unat_eq_iff)
    moreover have "writeLongGap wr ?gap ?len (Suc k) = Inr (0xFF # z @ bs)"
      by (subst writeLongGap.simps) (simp add: Suc bs(1) z(1) del: writeLongGap.simps)
    moreover have "parseAckBlocks rd (Suc k + m) (rs @ [p]) False c ((0xFF # z @ bs) @ r) =
        parseAckBlocks rd m (rs @ [p, b]) False True r" for rs c m r
    proof -
      let ?cur = "\<lparr> ar_First = ar_First p - 255, ar_Last = ar_First p - 256 \<rparr>"
      have "parseAckBlocks rd (Suc k + m) (rs @ [p]) False c ((0xFF # z @ bs) @ r) =
          parseAckBlocks rd (Suc n + m) ((rs @ [p]) @ [?cur]) True False (bs @ r)"
        using parse_new_step [OF z(3), of "Suc n + m" rs p c 255 "bs @ r"] Suc
        by (simp del: parseAckBlocks.simps)
      also have "\<dots> = parseAckBlocks rd m ((rs @ [p]) @ [\<lparr>
          ar_First = ar_First ?cur - (of_nat (255 * n) + g + ?len),
          ar_Last = ar_Last ?cur - (of_nat (255 * n) + g) \<rparr>]) (?len = 0) (?len > 0 \<or> False) r"
        by (rule parse [rule_format])
      also have "\<lparr> ar_First = ar_First ?cur - (of_nat (255 * n) + g + ?len),
          ar_Last = ar_Last ?cur - (of_nat (255 * n) + g) \<rparr> =
          \<lparr> ar_First = ar_First p - 1 - ?gap + 1 - ?len, ar_Last = ar_First p - 1 - ?gap \<rparr>"
        unfolding sum [symmetric] Suc by (simp add: algebra_simps)
      also note range
      finally show ?thesis using assms(2) by (simp add: word_gt_0 del: parseAckBlocks.simps)
    qed
    ultimately show ?thesis
      using bs(2) z(2) cnt Suc by (intro exI [of _ "0xFF # z @ bs"]) (simp del: parseAckBlocks.simps)
  qed
qed

text \<open>The loop writes exactly the ranges that fit, and they are read back.\<close>

lemma writeRanges_parse:
  assumes "gapped fits p rs" "n < 255" "writable n p rs \<noteq> []"
  defines "t \<equiv> \<lambda>n p rs. totalBlocks p (writable n p rs)"
  shows "\<exists>bs. writeRanges wr (of_nat (1 + n + t n p rs)) (of_nat (1 + n)) p rs =
        Inr (bs, of_nat (1 + n + t n p rs))
    \<and> length bs = t n p rs * (1 + width)
    \<and> (\<forall>pre c m r. parseAckBlocks rd (t n p rs + m) (pre @ [p]) False c (bs @ r) =
         parseAckBlocks rd m (pre @ p # writable n p rs) False True r)"
  using assms(1-3)
proof (induction rs arbitrary: n p)
  case (Cons b rs)
  define c where "c = blockCount p b"
  have nc: "n + c < 255" and w: "writable n p (b # rs) = b # writable (n + c) b rs"
    using Cons.prems(3) by (auto simp: c_def split: if_splits)
  then have t: "t n p (b # rs) = c + t (n + c) b rs" by (simp add: t_def c_def)
  from Cons.prems(1) have b: "rangeGap p b \<noteq> 0" "rangeLen b \<noteq> 0" "fits (rangeLen b)"
    and g: "gapped fits b rs" by auto
  from writeRange_parse [OF b, folded c_def] obtain bs where bs:
    "(if gapBlocks (rangeGap p b) = 1
        then okThen (wr (rangeLen b)) (\<lambda>l. Inr ([ucast (rangeGap p b)] @ l))
        else writeLongGap wr (rangeGap p b) (rangeLen b) (unat (gapBlocks (rangeGap p b)))) = Inr bs"
    "length bs = c * (1 + width)" and parse:
    "\<forall>rs d m r. parseAckBlocks rd (c + m) (rs @ [p]) False d (bs @ r) =
         parseAckBlocks rd m (rs @ [p, b]) False True r"
    by (elim exE conjE)
  let ?N = "1 + n + t n p (b # rs)"
  have small: "1 + (n + c) + t (n + c) b rs < 256"
    using totalBlocks_writable [OF nc, of b rs] by (simp add: t_def)
  have "gapBlocks (rangeGap p b) = of_nat c"
    using unat_gapBlocks_range [OF b(1)] by (intro word_eq_of_nat) (simp add: c_def)
  then have step: "writeRanges wr (of_nat ?N) (of_nat (1 + n)) p (b # rs) =
      (if (of_nat (1 + (n + c)) :: uint64) \<ge> of_nat ?N then Inr (bs, of_nat (1 + (n + c)))
       else okThen (writeRanges wr (of_nat ?N) (of_nat (1 + (n + c))) b rs)
              (\<lambda>(bs', n). Inr (bs @ bs', n)))"
    unfolding writeRanges_Cons bs(1) okThen_simps by (simp add: ac_simps)
  have le: "(of_nat (1 + (n + c)) :: uint64) \<ge> of_nat ?N \<longleftrightarrow> writable (n + c) b rs = []"
  proof -
    have N: "?N = 1 + (n + c) + t (n + c) b rs" using t by simp
    have u: "unat (of_nat k :: uint64) = k" if "k < 256" for k
      using that by (simp only: unat_of_nat) simp
    have "?N < 256" "1 + (n + c) < 256" using small N by linarith+
    then have "(of_nat (1 + (n + c)) :: uint64) \<ge> of_nat ?N \<longleftrightarrow> ?N \<le> 1 + (n + c)"
      unfolding word_le_nat_alt by (simp only: u)
    then show ?thesis unfolding N by (simp add: t_def)
  qed
  show ?case
  proof (cases "writable (n + c) b rs = []")
    case True
    then have "t n p (b # rs) = c" using t by (simp add: t_def)
    then show ?thesis
      using step le True bs(2) parse w
      by (intro exI [of _ bs]) (simp add: add.assoc del: parseAckBlocks.simps writeRanges.simps)
  next
    case False
    from Cons.IH [OF g nc False] obtain bs' where bs': "writeRanges wr
        (of_nat (1 + (n + c) + t (n + c) b rs)) (of_nat (1 + (n + c))) b rs =
        Inr (bs', of_nat (1 + (n + c) + t (n + c) b rs))"
      "length bs' = t (n + c) b rs * (1 + width)" and parse':
      "\<forall>pre d m r. parseAckBlocks rd (t (n + c) b rs + m) (pre @ [b]) False d (bs' @ r) =
         parseAckBlocks rd m (pre @ b # writable (n + c) b rs) False True r"
      by (elim exE conjE)
    have N: "1 + (n + c) + t (n + c) b rs = ?N" using t by simp
    have "writeRanges wr (of_nat ?N) (of_nat (1 + n)) p (b # rs) = Inr (bs @ bs', of_nat ?N)"
      unfolding step using le False bs'(1) by (simp only: N if_False okThen_simps prod.case)
    moreover have "parseAckBlocks rd (t n p (b # rs) + m) (pre @ [p]) False d ((bs @ bs') @ r) =
        parseAckBlocks rd m (pre @ p # writable n p (b # rs)) False True r" for pre d m r
      using parse [rule_format, of "t (n + c) b rs + m" pre d "bs' @ r"]
        parse' [rule_format, of m "pre @ [p]" True r]
      by (simp add: t w add.assoc del: parseAckBlocks.simps writable.simps)
    moreover have "length (bs @ bs') = t n p (b # rs) * (1 + width)"
      using bs(2) bs'(2) t by (simp add: distrib_right)
    ultimately show ?thesis by blast
  qed
qed simp

lemma writeAckBlocks_parse:
  assumes wf: "ackRanges_wf largest lowest ranges" "0 < lowest"
    and fits: "ranges = [] \<Longrightarrow> fits (largest - lowest + 1)"
      "\<And>b. b \<in> set ranges \<Longrightarrow> fits (rangeLen b)"
    and fit: "ranges \<noteq> [] \<Longrightarrow> 2 \<le> length (carriedRanges ranges)"
  defines "N \<equiv> if HasMissingRanges ranges then numWritableNackRanges ranges else 0"
  shows "\<exists>bs. writeAckBlocks wr bug N largest lowest ranges = Inr bs
    \<and> length bs + (if ranges = [] then 0 else 1) =
        (if ranges = [] then width else unat N * (1 + width))
    \<and> N \<le> 0xFF \<and> (ranges \<noteq> [] \<longrightarrow> (ucast (N - 1) :: uint8) \<noteq> 0)
    \<and> (\<forall>r. parseRanges rd (HasMissingRanges ranges) (ucast (N - 1)) largest (bs @ r) =
          Inr ((carriedLowest lowest ranges, carriedRanges ranges), r))"
proof (cases ranges)
  case Nil
  have "unat (largest - lowest + 1) = unat largest - unat lowest + 1"
    using wf by (intro block_length) (auto simp: ackRanges_wf_def)
  then have len: "largest - lowest + 1 \<noteq> 0" "\<not> largest < largest - lowest + 1" "largest \<noteq> 0"
    using wf by (auto simp: ackRanges_wf_def word_le_nat_alt word_less_nat_alt word_unat_eq_iff)
  obtain l where "wr (largest - lowest + 1) = Inr l" "length l = width"
    "\<And>r. rd (l @ r) = Inr (largest - lowest + 1, r)"
    using wr_rd fits(1) [OF Nil] by blast
  then show ?thesis
    using len by (simp add: Nil N_def HasMissingRanges_def writeAckBlocks_def parseRanges_def
        carriedRanges_def carriedLowest_def validateAckRanges_def word_less_1)
next
  case (Cons p rs)
  let ?w = "writable 0 p rs" and ?t = "totalBlocks p (writable 0 p rs)"
  from wf Cons have d: "desc (p # rs)" "ar_Last p = largest" "ar_First (last (p # rs)) = lowest"
    by (auto simp: ackRanges_wf_def)
  have w: "?w \<noteq> []" using fit Cons by (auto simp: carriedRanges_def)
  have len: "rangeLen b \<noteq> 0" if "b \<in> set (p # rs)" for b
    using rangeLen_nat(2) [OF d(1)] that d(3) wf(2) by simp
  have gap: "gapped fits p rs" using gapped_desc [OF d(1), of fits] fits(2) len Cons by simp
  have N: "N = of_nat (1 + ?t)" and t: "?t < 255"
    using numWritable_loop_eq [OF gap, of 0] totalBlocks_writable [of 0 p rs]
    by (auto simp: N_def HasMissingRanges_def Cons)
  have u: "unat N = 1 + ?t" "N \<le> 0xFF" "unat (ucast (N - 1) :: uint8) = ?t"
  proof -
    show N1: "unat N = 1 + ?t" unfolding N using t by (simp only: unat_of_nat) simp
    then show "N \<le> 0xFF" using t by (simp add: word_le_nat_alt)
    have "unat (N - 1) = ?t" using N1 by (simp add: unat_sub_if')
    then show "unat (ucast (N - 1) :: uint8) = ?t" using t by (simp add: unat_ucast_down)
  qed
  from writeRanges_parse [OF gap _ w] obtain bs where bs:
    "writeRanges wr N 1 p rs = Inr (bs, N)" "length bs = ?t * (1 + width)" and parse:
    "\<forall>pre c m r. parseAckBlocks rd (?t + m) (pre @ [p]) False c (bs @ r) =
       parseAckBlocks rd m (pre @ p # ?w) False True r"
    unfolding N by auto
  obtain l where l: "wr (rangeLen p) = Inr l" "length l = width" "\<And>r. rd (l @ r) = Inr (rangeLen p, r)"
    using wr_rd fits(2) [of p] Cons by auto
  have p: "unat (rangeLen p) = unat largest - unat (ar_First p) + 1" "0 < ar_First p"
    "ar_First p \<le> largest"
    using rangeLen_nat [OF d(1), of p] d wf(2) desc_mem [OF d(1), of p] by simp_all
  then have first: "\<not> largest < rangeLen p" "\<not> rangeLen p < 1"
    by (auto simp: word_less_nat_alt word_le_nat_alt)
  have start: "\<lparr> ar_First = largest - rangeLen p + 1, ar_Last = largest \<rparr> = p"
    using d(2) by (simp add: rangeLen_def)
  have "writeAckBlocks wr bug N largest lowest ranges = Inr (l @ bs)"
    using d bs(1) l(1) by (simp add: writeAckBlocks_def Cons rangeLen_def)
  moreover have "parseRanges rd (HasMissingRanges ranges) (ucast (N - 1)) largest ((l @ bs) @ r) =
      Inr ((carriedLowest lowest ranges, carriedRanges ranges), r)" for r
    using parse [rule_format, of 0 "[]" False r] l(3) first d(2) w
      desc_validate [OF desc_writable [OF d(1)], of 0 largest]
    by (cases ?w) (auto simp: parseRanges_def HasMissingRanges_def Cons u(3) start
        carriedRanges_def carriedLowest_def)
  moreover have "length (l @ bs) + 1 = unat N * (1 + width)"
    using bs(2) l(2) u(1) by simp
  moreover have "(ucast (N - 1) :: uint8) \<noteq> 0"
    using u(3) w by (auto simp: word_unat_eq_iff)
  ultimately show ?thesis using u(2) by (intro exI [of _ "l @ bs"]) (simp add: Cons)
qed

text \<open>
  When the gap below the highest range alone needs 255 blocks or more, nothing fits,
  but the loop writes that range before it checks the count.
\<close>

lemma writeAckBlocks_long_first_gap:
  assumes "desc (p # b # rs)" "0 < ar_First (last (p # b # rs))"
    and "\<And>x. x \<in> {p, b} \<Longrightarrow> fits (rangeLen x)" "255 \<le> blockCount p b"
  shows "writeAckBlocks wr bug (numWritableNackRanges (p # b # rs)) (ar_Last p)
      (ar_First (last (p # b # rs))) (p # b # rs) = Inl bug"
proof -
  have gap: "rangeGap p b \<noteq> 0" using assms(1) by (intro rangeGap_nonzero) simp
  have len: "rangeLen b \<noteq> 0" using rangeLen_nat(2) [OF assms(1,2)] by simp
  have c: "unat (gapBlocks (rangeGap p b)) = blockCount p b" using unat_gapBlocks_range [OF gap] .
  then have N: "numWritableNackRanges (p # b # rs) = 1"
    using assms(4) by (simp add: Let_def word_less_nat_alt rangeGap_def)
  obtain l where l: "wr (rangeLen p) = Inr l" using wr_rd assms(3) by blast
  have le: "1 \<le> 1 + gapBlocks (rangeGap p b)" "gapBlocks (rangeGap p b) \<noteq> 0"
    using c blockCount_bound [of p b] by (auto simp: word_le_nat_alt unat_word_ariths word_unat_eq_iff)
  obtain bs where "writeRanges wr 1 1 p (b # rs) = Inr (bs, 1 + gapBlocks (rangeGap p b))"
    using writeRange_parse [OF gap len assms(3)] le unfolding writeRanges_Cons by auto
  then show ?thesis
    unfolding N using l le(2) by (simp add: writeAckBlocks_def rangeLen_def del: writeRanges.simps)
qed

end

end
