(* ===== verification/WireAck.thy ===== *)
theory WireAck
  imports WireAckBlocks
begin

unbundle bit_operations_syntax

text \<open>
  The ACK and CLOSE_PATH frames (\<open>internal/wire/ack_frame.go\<close>, \<open>close_path_frame.go\<close>)
  on top of their blocks: type byte, largest acknowledged packet, delay, blocks and
  timestamps. The frames that can be sent are read back up to the ranges that do not
  fit and the precision of the delay.
\<close>

section \<open>The ACK frame\<close>

record AckFrame =
  ack_PathID :: PathID
  ack_LargestAcked :: PacketNumber
  ack_LowestAcked :: PacketNumber
  ack_AckRanges :: "AckRange list"
  ack_PacketReceivedTime :: Time
  ack_DelayTime :: Duration

fun skipTimestamps :: "nat \<Rightarrow> VersionNumber \<Rightarrow> reader \<Rightarrow> go_error + (unit \<times> reader)" where
  "skipTimestamps 0 version r = Inr ((), r)"
| "skipTimestamps (Suc n) version r =
     andThen (ReadByte r) (\<lambda>_ r.
     andThen (ReadUint16 (GetByteOrder version) r) (\<lambda>_ r. skipTimestamps n version r))"

definition readTimestamps :: "VersionNumber \<Rightarrow> reader \<Rightarrow> go_error + (unit \<times> reader)" where
  "readTimestamps version r =
     andThen (ReadByte r) (\<lambda>numTimestamp r.
       if numTimestamp > 0
       then andThen (ReadByte r) (\<lambda>_ r.
            andThen (ReadUint32 (GetByteOrder version) r) (\<lambda>_ r.
              skipTimestamps (unat numTimestamp - 1) version r))
       else Inr ((), r))"

definition numberLen :: "uint8 \<Rightarrow> uint8" where
  "numberLen bits = (let n = 2 * bits in if n = 0 then 1 else n)"

definition ParseAckFrame :: "reader \<Rightarrow> VersionNumber \<Rightarrow> go_error + (AckFrame \<times> reader)" where
  "ParseAckFrame r version =
     andThen (ReadByte r) (\<lambda>typeByte r.
     let hasMissingRanges = (typeByte AND 0x20 = 0x20);
         largestAckedLen = numberLen (drop_bit 2 (typeByte AND 0x0C));
         missingSequenceNumberDeltaLen = numberLen (typeByte AND 0x03)
     in andThen (if typeByte AND 0x10 = 0x10 then ReadByte r else Inr (0, r)) (\<lambda>pathID r.
        andThen (ReadUintN (GetByteOrder version) r largestAckedLen) (\<lambda>largestAcked r.
        andThen (ReadUfloat16 (GetByteOrder version) r) (\<lambda>delay r.
        andThen (if hasMissingRanges then ReadByte r else Inr (0, r)) (\<lambda>numAckBlocks r.
        if hasMissingRanges \<and> numAckBlocks = 0 then Inl ErrInvalidAckRanges
        else andThen (parseRanges
               (\<lambda>r. ReadUintN (GetByteOrder version) r missingSequenceNumberDeltaLen)
               hasMissingRanges numAckBlocks largestAcked r) (\<lambda>(lowestAcked, ranges) r.
             andThen (readTimestamps version r) (\<lambda>_ r.
               Inr (\<lparr> ack_PathID = pathID, ack_LargestAcked = largestAcked,
                      ack_LowestAcked = lowestAcked, ack_AckRanges = ranges,
                      ack_PacketReceivedTime = 0,
                      ack_DelayTime = int64 (int64 (uint delay) * Microsecond) \<rparr>, r))))))))"

definition ackTypeByte :: "PacketNumberLen \<Rightarrow> PacketNumberLen \<Rightarrow> bool \<Rightarrow> bool \<Rightarrow> uint8" where
  "ackTypeByte largestAckedLen deltaLen hasMissingRanges hasPathID =
     (let typeByte = 0x40;
          typeByte = (if largestAckedLen \<noteq> PacketNumberLen1
                      then typeByte XOR push_bit 2 (largestAckedLen div 2) else typeByte);
          typeByte = (if deltaLen \<noteq> PacketNumberLen1
                      then typeByte XOR (deltaLen div 2) else typeByte);
          typeByte = (if hasMissingRanges then typeByte OR 0x20 else typeByte)
      in if hasPathID then typeByte OR 0x10 else typeByte)"

definition AckFrame_Write :: "Time \<Rightarrow> AckFrame \<Rightarrow> VersionNumber
    \<Rightarrow> go_error + (byte list \<times> AckFrame)" where
  "AckFrame_Write now f version =
     (let largestAckedLen = GetPacketNumberLength (ack_LargestAcked f);
          ranges = ack_AckRanges f;
          deltaLen = getMissingSequenceNumberDeltaLen (ack_LargestAcked f) (ack_LowestAcked f) ranges;
          typeByte = ackTypeByte largestAckedLen deltaLen (HasMissingRanges ranges)
                       (ack_PathID f \<noteq> InitialPathID);
          wr = (\<lambda>x. writeNumber version deltaLen x (Inr []))
      in okThen (writeNumber version largestAckedLen (ack_LargestAcked f) (Inr [])) (\<lambda>largest.
         let f = f\<lparr> ack_DelayTime := timeSub now (ack_PacketReceivedTime f) \<rparr>;
             delay = WriteUfloat16 (GetByteOrder version)
                       (word_of_int (quot (ack_DelayTime f) Microsecond));
             numRanges = (if HasMissingRanges ranges then numWritableNackRanges ranges else 0)
         in if numRanges > 0xFF then Inl (Panic ''AckFrame: Too many ACK ranges'')
            else okThen (writeAckBlocks wr
                   (GoErr ''BUG: Inconsistent number of ACK ranges written'')
                   numRanges (ack_LargestAcked f) (ack_LowestAcked f) ranges) (\<lambda>blocks.
              Inr ([typeByte]
                   @ (if ack_PathID f \<noteq> InitialPathID then [ack_PathID f] else [])
                   @ largest @ delay
                   @ (if HasMissingRanges ranges then [ucast (numRanges - 1)] else [])
                   @ blocks @ [0], f))))"

definition AckFrame_MinLength :: "AckFrame \<Rightarrow> VersionNumber \<Rightarrow> go_error + ByteCount" where
  "AckFrame_MinLength f version =
     (let len = 1 + 2 + 1 + ucast (GetPacketNumberLength (ack_LargestAcked f));
          deltaLen = ucast (getMissingSequenceNumberDeltaLen (ack_LargestAcked f)
                        (ack_LowestAcked f) (ack_AckRanges f));
          len = (if HasMissingRanges (ack_AckRanges f)
                 then len + (1 + deltaLen) * numWritableNackRanges (ack_AckRanges f)
                 else len + deltaLen)
      in Inr (if ack_PathID f \<noteq> InitialPathID then len + 1 else len))"

definition AckFrame_AcksPacket :: "AckFrame \<Rightarrow> PacketNumber \<Rightarrow> bool" where
  "AckFrame_AcksPacket f p =
     acksPacket (ack_LargestAcked f) (ack_LowestAcked f) (ack_AckRanges f) p"

section \<open>The CLOSE_PATH frame\<close>

record ClosePathFrame =
  cpf_PathID :: PathID
  cpf_LargestAcked :: PacketNumber
  cpf_LowestAcked :: PacketNumber
  cpf_AckRanges :: "AckRange list"

text \<open>The same \<open>switch\<close> as \<open>writeNumber\<close>, but the 48-bit case does not mask the value.\<close>

definition writeNumber48 ::
  "VersionNumber \<Rightarrow> PacketNumberLen \<Rightarrow> uint64 \<Rightarrow> go_error + byte list" where
  "writeNumber48 version len x =
     (if len = PacketNumberLen1 then Inr [ucast x]
      else if len = PacketNumberLen2 then Inr (WriteUint16 (GetByteOrder version) (ucast x))
      else if len = PacketNumberLen4 then Inr (WriteUint32 (GetByteOrder version) (ucast x))
      else if len = PacketNumberLen6 then WriteUint48 (GetByteOrder version) x
      else Inr [])"

definition closePathFlags :: "PacketNumberLen \<Rightarrow> PacketNumberLen \<Rightarrow> bool \<Rightarrow> uint8" where
  "closePathFlags largestAckedLen deltaLen hasMissingRanges =
     (let flags = (if hasMissingRanges then 0x00 OR 0x10 else 0x00);
          flags = (if largestAckedLen \<noteq> PacketNumberLen1
                   then flags XOR push_bit 2 (largestAckedLen div 2) else flags)
      in if deltaLen \<noteq> PacketNumberLen1 then flags XOR (deltaLen div 2) else flags)"

definition ClosePathFrame_Write :: "ClosePathFrame \<Rightarrow> VersionNumber \<Rightarrow> go_error + byte list" where
  "ClosePathFrame_Write f version =
     (let largestAckedLen = GetPacketNumberLength (cpf_LargestAcked f);
          ranges = cpf_AckRanges f;
          deltaLen = getMissingSequenceNumberDeltaLen (cpf_LargestAcked f) (cpf_LowestAcked f) ranges;
          flags = closePathFlags largestAckedLen deltaLen (HasMissingRanges ranges);
          numRanges = (if HasMissingRanges ranges then numWritableNackRanges ranges else 0)
      in if numRanges > 0xFF then Inl (Panic ''ClosePathFrame: Too many ACK ranges'')
         else okThen (writeNumber48 version largestAckedLen (cpf_LargestAcked f)) (\<lambda>largest.
              okThen (writeAckBlocks (writeNumber48 version deltaLen)
                 (GoErr ''BUG: Inconsistent number of ACK ranges written in ClosePath'')
                 numRanges (cpf_LargestAcked f) (cpf_LowestAcked f) ranges) (\<lambda>blocks.
                Inr ([0x11, cpf_PathID f, flags]
                     @ (if HasMissingRanges ranges then [ucast (numRanges - 1)] else [])
                     @ largest @ blocks))))"

definition ParseClosePathFrame ::
  "reader \<Rightarrow> VersionNumber \<Rightarrow> go_error + (ClosePathFrame \<times> reader)" where
  "ParseClosePathFrame r version =
     andThen (ReadByte r) (\<lambda>_ r.
     andThen (ReadByte r) (\<lambda>pathID r.
     andThen (ReadByte r) (\<lambda>flags r.
     let hasMissingRanges = (flags AND 0x10 = 0x10);
         largestAckedLen = numberLen (drop_bit 2 (flags AND 0x0C));
         missingSequenceNumberDeltaLen = numberLen (flags AND 0x03)
     in andThen (if hasMissingRanges then ReadByte r else Inr (0, r)) (\<lambda>numAckBlocks r.
        if hasMissingRanges \<and> numAckBlocks = 0 then Inl ErrInvalidAckRanges
        else andThen (ReadUintN (GetByteOrder version) r largestAckedLen) (\<lambda>largestAcked r.
             andThen (parseRanges
               (\<lambda>r. ReadUintN (GetByteOrder version) r missingSequenceNumberDeltaLen)
               hasMissingRanges numAckBlocks largestAcked r) (\<lambda>(lowestAcked, ranges) r.
               Inr (\<lparr> cpf_PathID = pathID, cpf_LargestAcked = largestAcked,
                      cpf_LowestAcked = lowestAcked, cpf_AckRanges = ranges \<rparr>, r)))))))"

definition ClosePathFrame_MinLength ::
  "ClosePathFrame \<Rightarrow> VersionNumber \<Rightarrow> go_error + ByteCount" where
  "ClosePathFrame_MinLength f version =
     (let len = 1 + 1 + 1 + ucast (GetPacketNumberLength (cpf_LargestAcked f));
          deltaLen = ucast (getMissingSequenceNumberDeltaLen (cpf_LargestAcked f)
                        (cpf_LowestAcked f) (cpf_AckRanges f))
      in Inr (if HasMissingRanges (cpf_AckRanges f)
              then len + (1 + deltaLen) * numWritableNackRanges (cpf_AckRanges f)
              else len + deltaLen))"

definition ClosePathFrame_AcksPacket :: "ClosePathFrame \<Rightarrow> PacketNumber \<Rightarrow> bool" where
  "ClosePathFrame_AcksPacket f p =
     acksPacket (cpf_LargestAcked f) (cpf_LowestAcked f) (cpf_AckRanges f) p"

section \<open>The block length field of both frames\<close>

interpretation ackn: number_codec "\<lambda>x. writeNumber v len x (Inr [])"
  "\<lambda>r. ReadUintN (GetByteOrder v) r len" "unat len"
  "\<lambda>x. len \<in> {1, 2, 4, 6} \<and> unat x < 256 ^ unat len" for v len
proof
  fix x :: uint64
  assume x: "len \<in> {1, 2, 4, 6} \<and> unat x < 256 ^ unat len"
  then obtain ds where "\<And>other. writeNumber v len x other = Inr ds" "length ds = unat len"
    "\<And>r. ReadUintN (GetByteOrder v) (ds @ r) len = Inr (take_bit (8 * unat len) x, r)"
    using writeNumber_read by blast
  then show "\<exists>bs. writeNumber v len x (Inr []) = Inr bs \<and> length bs = unat len
      \<and> (\<forall>r. ReadUintN (GetByteOrder v) (bs @ r) len = Inr (x, r))"
    using x take_bit_bytes by auto
qed auto

lemma writeNumber48_eq:
  assumes "unat x < 2 ^ 48"
  shows "writeNumber48 v len x = writeNumber v len x (Inr [])"
proof -
  have "x AND (push_bit 48 1 - 1) = x"
    using take_bit_bytes [of x 6] assms
    by (simp add: take_bit_eq_mask mask_eq_exp_minus_1 push_bit_eq_mult)
  then show ?thesis by (simp only: writeNumber48_def writeNumber_def)
qed

interpretation cpn: number_codec "writeNumber48 v len"
  "\<lambda>r. ReadUintN (GetByteOrder v) r len" "unat len"
  "\<lambda>x. len \<in> {1, 2, 4, 6} \<and> unat x < 256 ^ unat len" for v len
proof
  fix x :: uint64
  assume x: "len \<in> {1, 2, 4, 6} \<and> unat x < 256 ^ unat len"
  then have "unat x < 2 ^ 48" by auto
  then show "\<exists>bs. writeNumber48 v len x = Inr bs \<and> length bs = unat len
      \<and> (\<forall>r. ReadUintN (GetByteOrder v) (bs @ r) len = Inr (x, r))"
    using ackn.wr_rd [of len x v] x by (simp add: writeNumber48_eq)
qed auto

section \<open>Type byte and field widths\<close>

lemma ackTypeByte_fields:
  fixes has path :: bool
  assumes "a \<in> {1, 2, 4, 6}" "d \<in> {1, 2, 4, 6}"
  defines "t \<equiv> ackTypeByte a d has path"
  shows "t AND 0x20 = 0x20 \<longleftrightarrow> has" "t AND 0x10 = 0x10 \<longleftrightarrow> path"
    and "numberLen (drop_bit 2 (t AND 0x0C)) = a" "numberLen (t AND 0x03) = d"
    and "t AND 0x80 = 0" "t AND 0xc0 = 0x40"
  using assms(1,2) unfolding t_def ackTypeByte_def numberLen_def Let_def PacketNumberLen_defs
  by (cases has; cases path; auto)+

lemma closePathFlags_fields:
  fixes has :: bool
  assumes "a \<in> {1, 2, 4, 6}" "d \<in> {1, 2, 4, 6}"
  defines "t \<equiv> closePathFlags a d has"
  shows "t AND 0x10 = 0x10 \<longleftrightarrow> has"
    and "numberLen (drop_bit 2 (t AND 0x0C)) = a" "numberLen (t AND 0x03) = d"
  using assms(1,2) unfolding t_def closePathFlags_def numberLen_def Let_def PacketNumberLen_defs
  by (cases has; auto)+

lemma GetPacketNumberLength_fits:
  "GetPacketNumberLength x \<in> {1, 2, 4, 6}"
  "unat x < 2 ^ 48 \<Longrightarrow> unat x < 256 ^ unat (GetPacketNumberLength x)"
  by (auto simp: GetPacketNumberLength_def PacketNumberLen_defs word_less_nat_alt push_bit_eq_mult)

lemma maxRangeLength_ge: "m \<le> maxRangeLength m rs"
  by (induction rs arbitrary: m) (auto simp: Let_def intro: order.trans less_imp_le)

lemma maxRangeLength_mem: "b \<in> set rs \<Longrightarrow> rangeLen b \<le> maxRangeLength m rs"
proof (induction rs arbitrary: m)
  case (Cons a rs)
  then show ?case
    using maxRangeLength_ge [of "if rangeLen a > m then rangeLen a else m" rs]
    by (auto simp: Let_def rangeLen_def [symmetric] split: if_splits)
qed simp

lemma deltaLen_fits:
  defines "d \<equiv> \<lambda>largest lowest ranges. getMissingSequenceNumberDeltaLen largest lowest ranges"
  shows "d largest lowest ranges \<in> {1, 2, 4, 6}"
    and "ranges = [] \<Longrightarrow> unat (largest - lowest + 1) < 2 ^ 48 \<Longrightarrow>
      unat (largest - lowest + 1) < 256 ^ unat (d largest lowest ranges)"
    and "b \<in> set ranges \<Longrightarrow> unat (rangeLen b) < 2 ^ 48 \<Longrightarrow>
      unat (rangeLen b) < 256 ^ unat (d largest lowest ranges)"
  using maxRangeLength_mem [of b ranges 0]
  by (auto simp: d_def getMissingSequenceNumberDeltaLen_def PacketNumberLen_defs Let_def
      HasMissingRanges_def word_le_nat_alt)

section \<open>The frames\<close>

text \<open>The frames that can be sent: well-formed, below \<open>2^48\<close>, first gap not too long.\<close>

definition ackSendable :: "PacketNumber \<Rightarrow> PacketNumber \<Rightarrow> AckRange list \<Rightarrow> bool" where
  "ackSendable largest lowest ranges \<longleftrightarrow>
     ackRanges_wf largest lowest ranges \<and> 0 < lowest \<and> unat largest < 2 ^ 48
     \<and> (ranges \<noteq> [] \<longrightarrow> 2 \<le> length (carriedRanges ranges))"

definition AckFrame_carried :: "Time \<Rightarrow> AckFrame \<Rightarrow> AckFrame" where
  "AckFrame_carried now f =
     f\<lparr> ack_LowestAcked := carriedLowest (ack_LowestAcked f) (ack_AckRanges f),
        ack_AckRanges := carriedRanges (ack_AckRanges f),
        ack_PacketReceivedTime := 0,
        ack_DelayTime := carriedRTT (timeSub now (ack_PacketReceivedTime f)) \<rparr>"

definition ClosePathFrame_carried :: "ClosePathFrame \<Rightarrow> ClosePathFrame" where
  "ClosePathFrame_carried f =
     f\<lparr> cpf_LowestAcked := carriedLowest (cpf_LowestAcked f) (cpf_AckRanges f),
        cpf_AckRanges := carriedRanges (cpf_AckRanges f) \<rparr>"

lemma desc_largest:
  assumes "desc (p # rs)" "b \<in> set (p # rs)"
  shows "unat (ar_Last b) \<le> unat (ar_Last p)"
  using desc_below [OF assms(1), of b] desc_mem [OF assms(1), of p] assms(2)
  by (auto simp: word_le_nat_alt)

lemma ackSendable_fits:
  assumes "ackSendable largest lowest ranges"
  shows "ranges = [] \<Longrightarrow> unat (largest - lowest + 1) < 2 ^ 48"
    and "b \<in> set ranges \<Longrightarrow> unat (rangeLen b) < 2 ^ 48"
proof -
  show "unat (largest - lowest + 1) < 2 ^ 48" if "ranges = []"
    using assms block_length [of lowest largest]
    by (auto simp: ackSendable_def ackRanges_wf_def word_less_nat_alt word_le_nat_alt)
  show "unat (rangeLen b) < 2 ^ 48" if b: "b \<in> set ranges"
  proof -
    obtain p rs where ranges: "ranges = p # rs" using b by (cases ranges) auto
    have d: "desc (p # rs)" "ar_Last p = largest" "0 < ar_First (last (p # rs))"
      "unat largest < 2 ^ 48"
      using assms by (auto simp: ackSendable_def ackRanges_wf_def ranges)
    show ?thesis
      using rangeLen_nat [OF d(1,3), of b] desc_largest [OF d(1), of b] b d(2,4)
      by (auto simp: ranges word_less_nat_alt)
  qed
qed

lemma ackSendable_conditions:
  fixes largest lowest ranges
  assumes s: "ackSendable largest lowest ranges"
  defines "d \<equiv> getMissingSequenceNumberDeltaLen largest lowest ranges"
  shows "ackRanges_wf largest lowest ranges" "0 < lowest"
    and "ranges = [] \<Longrightarrow> d \<in> {1, 2, 4, 6} \<and> unat (largest - lowest + 1) < 256 ^ unat d"
    and "b \<in> set ranges \<Longrightarrow> d \<in> {1, 2, 4, 6} \<and> unat (rangeLen b) < 256 ^ unat d"
    and "ranges \<noteq> [] \<Longrightarrow> 2 \<le> length (carriedRanges ranges)"
  using s ackSendable_fits [OF s] deltaLen_fits(1) [of largest lowest ranges]
    deltaLen_fits(2) [of ranges largest lowest] deltaLen_fits(3) [of b ranges largest lowest]
  unfolding d_def ackSendable_def by blast+

definition numBlocks :: "AckRange list \<Rightarrow> uint64" where
  "numBlocks ranges = (if HasMissingRanges ranges then numWritableNackRanges ranges else 0)"

text \<open>What the frames need to know of the bytes of the blocks.\<close>

definition blocks_spec ::
  "VersionNumber \<Rightarrow> PacketNumber \<Rightarrow> PacketNumber \<Rightarrow> AckRange list \<Rightarrow> byte list \<Rightarrow> bool" where
  "blocks_spec v largest lowest ranges bs \<longleftrightarrow>
     (let d = getMissingSequenceNumberDeltaLen largest lowest ranges; N = numBlocks ranges
      in length bs + (if ranges = [] then 0 else 1) =
           (if ranges = [] then unat d else unat N * (1 + unat d))
         \<and> N \<le> 0xFF \<and> (ranges \<noteq> [] \<longrightarrow> (ucast (N - 1) :: uint8) \<noteq> 0)
         \<and> (\<forall>r. parseRanges (\<lambda>r. ReadUintN (GetByteOrder v) r d) (HasMissingRanges ranges)
               (if HasMissingRanges ranges then ucast (N - 1) else 0) largest (bs @ r) =
             Inr ((carriedLowest lowest ranges, carriedRanges ranges), r)))"

lemma parseRanges_numBlocks:
  "parseRanges rd has (if has then n else 0) largest r = parseRanges rd has n largest r"
  by (cases has) (simp_all add: parseRanges_def cong: if_cong)

lemma blocks_ok:
  fixes largest lowest ranges
  assumes s: "ackSendable largest lowest ranges"
  defines "d \<equiv> getMissingSequenceNumberDeltaLen largest lowest ranges"
  shows "\<exists>bs. writeAckBlocks (\<lambda>x. writeNumber v d x (Inr [])) bug (numBlocks ranges)
      largest lowest ranges = Inr bs \<and> blocks_spec v largest lowest ranges bs"
    and "\<exists>bs. writeAckBlocks (writeNumber48 v d) bug (numBlocks ranges)
      largest lowest ranges = Inr bs \<and> blocks_spec v largest lowest ranges bs"
  unfolding blocks_spec_def Let_def numBlocks_def d_def [symmetric] parseRanges_numBlocks
  by ((rule ackn.writeAckBlocks_parse [OF ackSendable_conditions [OF s, folded d_def]]; assumption),
      (rule cpn.writeAckBlocks_parse [OF ackSendable_conditions [OF s, folded d_def]]; assumption))

lemma numberField:
  assumes "unat x < 2 ^ 48"
  obtains bs where "writeNumber v (GetPacketNumberLength x) x (Inr []) = Inr bs"
    "writeNumber48 v (GetPacketNumberLength x) x = Inr bs"
    "length bs = unat (GetPacketNumberLength x)"
    "\<And>r. ReadUintN (GetByteOrder v) (bs @ r) (GetPacketNumberLength x) = Inr (x, r)"
  using ackn.wr_rd [of "GetPacketNumberLength x" x v] GetPacketNumberLength_fits [of x] assms
    writeNumber48_eq [OF assms, of v] by auto

lemma readTimestamps_0 [simp]: "readTimestamps v (0 # r) = Inr ((), r)"
  by (simp add: readTimestamps_def)

lemma AckFrame_write_parse:
  fixes f v
  assumes s: "ackSendable (ack_LargestAcked f) (ack_LowestAcked f) (ack_AckRanges f)"
  obtains bs where "AckFrame_Write now f v =
      Inr (bs, f\<lparr> ack_DelayTime := timeSub now (ack_PacketReceivedTime f) \<rparr>)"
    "\<And>r. ParseAckFrame (bs @ r) v = Inr (AckFrame_carried now f, r)"
    "AckFrame_MinLength f v = Inr (of_nat (length bs))" "length bs < 2 ^ 32"
    "bs \<noteq> []" "hd bs AND 0x80 = 0" "hd bs AND 0xc0 = 0x40"
proof -
  let ?la = "ack_LargestAcked f" and ?lo = "ack_LowestAcked f" and ?rs = "ack_AckRanges f"
  let ?a = "GetPacketNumberLength ?la" and ?d = "getMissingSequenceNumberDeltaLen ?la ?lo ?rs"
  let ?bug = "GoErr ''BUG: Inconsistent number of ACK ranges written''"
  define t where "t = ackTypeByte ?a ?d (HasMissingRanges ?rs) (ack_PathID f \<noteq> InitialPathID)"
  note t = ackTypeByte_fields [OF GetPacketNumberLength_fits(1) [of ?la]
      deltaLen_fits(1) [of ?la ?lo ?rs], of "HasMissingRanges ?rs" "ack_PathID f \<noteq> InitialPathID",
      folded t_def]
  have la: "unat ?la < 2 ^ 48" using s by (simp add: ackSendable_def)
  obtain lb where lb: "writeNumber v ?a ?la (Inr []) = Inr lb" "length lb = unat ?a"
    "\<And>r. ReadUintN (GetByteOrder v) (lb @ r) ?a = Inr (?la, r)"
    using numberField [OF la, of v] by metis
  from blocks_ok(1) [OF s] obtain bb where
    bb: "writeAckBlocks (\<lambda>x. writeNumber v ?d x (Inr [])) ?bug (numBlocks ?rs) ?la ?lo ?rs = Inr bb"
    and spec: "blocks_spec v ?la ?lo ?rs bb" by blast
  let ?g = "f\<lparr> ack_DelayTime := timeSub now (ack_PacketReceivedTime f) \<rparr>"
  let ?delay = "WriteUfloat16 (GetByteOrder v) (word_of_int (quot (ack_DelayTime ?g) Microsecond))"
  let ?bs = "[t] @ (if ack_PathID f \<noteq> InitialPathID then [ack_PathID f] else []) @ lb @ ?delay
      @ (if HasMissingRanges ?rs then [ucast (numBlocks ?rs - 1)] else []) @ bb @ [0]"
  show thesis
  proof (rule that [of ?bs])
    show "AckFrame_Write now f v = Inr (?bs, ?g)"
      using spec bb lb(1)
      by (simp add: AckFrame_Write_def Let_def t_def [symmetric] numBlocks_def [symmetric]
          blocks_spec_def linorder_not_less)
    show "ParseAckFrame (?bs @ r) v = Inr (AckFrame_carried now f, r)" for r
      using t(1-4) lb(3) spec
      by (cases "ack_PathID f = InitialPathID"; cases "HasMissingRanges ?rs")
        (simp_all add: ParseAckFrame_def Let_def blocks_spec_def AckFrame_carried_def
          WriteUfloat16_def ReadUfloat16_def carriedRTT_def carriedRTT_no_overflow
          InitialPathID_def HasMissingRanges_def)
    have len: "length ?bs = 4 + unat ?a
        + (if ?rs = [] then unat ?d else unat (numBlocks ?rs) * (1 + unat ?d))
        + (if ack_PathID f = InitialPathID then 0 else 1)"
      using spec lb(2)
      by (auto simp: blocks_spec_def Let_def HasMissingRanges_def WriteUfloat16_def)
    show "AckFrame_MinLength f v = Inr (of_nat (length ?bs))"
      unfolding len
      by (auto simp: AckFrame_MinLength_def Let_def numBlocks_def HasMissingRanges_def algebra_simps)
    have "unat (numBlocks ?rs) \<le> 255" "unat ?a \<le> 6" "unat ?d \<le> 6"
      using spec GetPacketNumberLength_fits(1) [of ?la] deltaLen_fits(1) [of ?la ?lo ?rs]
      by (auto simp: blocks_spec_def Let_def word_le_nat_alt)
    then have "unat (numBlocks ?rs) * (1 + unat ?d) \<le> 255 * 7" by (intro mult_le_mono) auto
    then show "length ?bs < 2 ^ 32"
      unfolding len using \<open>unat ?a \<le> 6\<close> \<open>unat ?d \<le> 6\<close> by auto
    show "?bs \<noteq> []" "hd ?bs AND 0x80 = 0" "hd ?bs AND 0xc0 = 0x40" using t(5,6) by simp_all
  qed
qed

lemma ClosePathFrame_write_parse:
  fixes f v
  assumes s: "ackSendable (cpf_LargestAcked f) (cpf_LowestAcked f) (cpf_AckRanges f)"
  obtains bs where "ClosePathFrame_Write f v = Inr bs"
    "\<And>r. ParseClosePathFrame (bs @ r) v = Inr (ClosePathFrame_carried f, r)"
    "ClosePathFrame_MinLength f v = Inr (of_nat (length bs))" "length bs < 2 ^ 32"
    "bs \<noteq> []" "hd bs = 0x11"
proof -
  let ?la = "cpf_LargestAcked f" and ?lo = "cpf_LowestAcked f" and ?rs = "cpf_AckRanges f"
  let ?a = "GetPacketNumberLength ?la" and ?d = "getMissingSequenceNumberDeltaLen ?la ?lo ?rs"
  let ?bug = "GoErr ''BUG: Inconsistent number of ACK ranges written in ClosePath''"
  define t where "t = closePathFlags ?a ?d (HasMissingRanges ?rs)"
  note t = closePathFlags_fields [OF GetPacketNumberLength_fits(1) [of ?la]
      deltaLen_fits(1) [of ?la ?lo ?rs], of "HasMissingRanges ?rs", folded t_def]
  have la: "unat ?la < 2 ^ 48" using s by (simp add: ackSendable_def)
  obtain lb where lb: "writeNumber48 v ?a ?la = Inr lb" "length lb = unat ?a"
    "\<And>r. ReadUintN (GetByteOrder v) (lb @ r) ?a = Inr (?la, r)"
    using numberField [OF la, of v] by metis
  from blocks_ok(2) [OF s] obtain bb where
    bb: "writeAckBlocks (writeNumber48 v ?d) ?bug (numBlocks ?rs) ?la ?lo ?rs = Inr bb"
    and spec: "blocks_spec v ?la ?lo ?rs bb" by blast
  let ?bs = "[0x11, cpf_PathID f, t]
      @ (if HasMissingRanges ?rs then [ucast (numBlocks ?rs - 1)] else []) @ lb @ bb"
  show thesis
  proof (rule that [of ?bs])
    show "ClosePathFrame_Write f v = Inr ?bs"
      using spec bb lb(1)
      by (simp add: ClosePathFrame_Write_def Let_def t_def [symmetric] numBlocks_def [symmetric]
          blocks_spec_def linorder_not_less)
    show "ParseClosePathFrame (?bs @ r) v = Inr (ClosePathFrame_carried f, r)" for r
      using t lb(3) spec
      by (cases "HasMissingRanges ?rs") (simp_all add: ParseClosePathFrame_def Let_def
          blocks_spec_def ClosePathFrame_carried_def HasMissingRanges_def)
    have len: "length ?bs = 3 + unat ?a
        + (if ?rs = [] then unat ?d else unat (numBlocks ?rs) * (1 + unat ?d))"
      using spec lb(2) by (auto simp: blocks_spec_def Let_def HasMissingRanges_def)
    show "ClosePathFrame_MinLength f v = Inr (of_nat (length ?bs))"
      unfolding len by (auto simp: ClosePathFrame_MinLength_def Let_def numBlocks_def
          HasMissingRanges_def algebra_simps)
    have "unat (numBlocks ?rs) \<le> 255" "unat ?a \<le> 6" "unat ?d \<le> 6"
      using spec GetPacketNumberLength_fits(1) [of ?la] deltaLen_fits(1) [of ?la ?lo ?rs]
      by (auto simp: blocks_spec_def Let_def word_le_nat_alt)
    then have "unat (numBlocks ?rs) * (1 + unat ?d) \<le> 255 * 7" by (intro mult_le_mono) auto
    then show "length ?bs < 2 ^ 32"
      unfolding len using \<open>unat ?a \<le> 6\<close> \<open>unat ?d \<le> 6\<close> by auto
  qed simp_all
qed

section \<open>What the parsers accept\<close>

text \<open>
  Every range but the last one is complete; the last one is empty exactly while a long
  gap is being read.
\<close>

definition blocks_inv :: "AckRange list \<Rightarrow> bool \<Rightarrow> bool" where
  "blocks_inv ranges inLongBlock \<longleftrightarrow>
     ranges \<noteq> [] \<and> (\<forall>b \<in> set (butlast ranges). rangeLen b \<noteq> 0 \<and> unat (rangeLen b) < 2 ^ 48)
     \<and> unat (rangeLen (last ranges)) < 2 ^ 48 \<and> (rangeLen (last ranges) = 0 \<longleftrightarrow> inLongBlock)"

lemma parseAckBlocks_inv:
  assumes rd: "\<And>r x r'. rd r = Inr (x, r') \<Longrightarrow> unat x < 2 ^ 48 \<and> length r' \<le> length r"
  shows "parseAckBlocks rd n ranges inLong c r = Inr ((ranges', c'), r') \<Longrightarrow>
    blocks_inv ranges inLong \<Longrightarrow> (inLong \<Longrightarrow> \<not> c) \<Longrightarrow>
    blocks_inv ranges' (rangeLen (last ranges') = 0) \<and> length r' \<le> length r
    \<and> (n = 0 \<longrightarrow> c' = c \<and> ranges' = ranges) \<and> (n \<noteq> 0 \<longrightarrow> (c' \<longleftrightarrow> rangeLen (last ranges') \<noteq> 0))"
proof (induction n arbitrary: ranges inLong c r)
  case (Suc n)
  from Suc.prems(1) obtain gap r1 len r2 where
    r: "ReadByte r = Inr (gap, r1)" "rd r1 = Inr (len, r2)"
    by (auto elim!: andThen_InrE)
  define cur where "cur = last ranges"
  define new where "new = (if inLong
      then butlast ranges @ [\<lparr> ar_First = ar_First cur - (ucast gap + len), ar_Last = ar_Last cur - ucast gap \<rparr>]
      else ranges @ [\<lparr> ar_First = ar_First cur - ucast gap - 1 - len + 1, ar_Last = ar_First cur - ucast gap - 1 \<rparr>])"
  define c1 where "c1 = (if len > 0 then True else if inLong then c else False)"
  have step: "parseAckBlocks rd n new (len = 0) c1 r2 = Inr ((ranges', c'), r')"
    using Suc.prems(1) r by (simp add: new_def c1_def cur_def Let_def split: if_splits)
  have len: "unat len < 2 ^ 48" "length r2 \<le> length r" using rd [OF r(2)] r(1) by (auto dest: length_ReadByte)
  have "rangeLen (last new) = (if inLong then rangeLen cur + len else len)"
    by (simp add: new_def rangeLen_def algebra_simps)
  then have last: "rangeLen (last new) = len"
    using Suc.prems(2) by (simp add: blocks_inv_def cur_def split: if_splits)
  have inv: "blocks_inv new (len = 0)"
    using Suc.prems(2) len(1) last set_butlast_last [of ranges]
    by (auto simp: blocks_inv_def new_def butlast_append)
  have "len = 0 \<Longrightarrow> \<not> c1" using Suc.prems(3) by (simp add: c1_def)
  from Suc.IH [OF step inv this] show ?case
    using len(2) last Suc.prems(3) by (cases n) (auto simp: c1_def word_gt_0)
qed (simp add: blocks_inv_def)

lemma parseAckBlocks_hd:
  "parseAckBlocks rd n ranges inLong c r = Inr ((ranges', c'), r') \<Longrightarrow> ranges \<noteq> [] \<Longrightarrow>
   (inLong \<Longrightarrow> 2 \<le> length ranges) \<Longrightarrow>
   hd ranges' = hd ranges \<and> length ranges \<le> length ranges' \<and> (n \<noteq> 0 \<longrightarrow> 2 \<le> length ranges')"
proof (induction n arbitrary: ranges inLong c r)
  case (Suc n)
  from Suc.prems(1) obtain new long c1 r2 where
    step: "parseAckBlocks rd n new long c1 r2 = Inr ((ranges', c'), r')" and
    new: "\<exists>x. new = (if inLong then butlast ranges @ [x] else ranges @ [x])"
    by (auto simp: Let_def elim!: andThen_InrE split: if_splits)
  then obtain x where x: "new = (if inLong then butlast ranges @ [x] else ranges @ [x])" by blast
  have "2 \<le> length new" "hd new = hd ranges" "length ranges \<le> length new"
    using Suc.prems(2,3) x by (cases ranges; auto simp: hd_append split: if_splits)+
  with Suc.IH [OF step] show ?case by fastforce
qed auto

lemma validate_desc:
  assumes "consistentRanges rs" "list_all (\<lambda>b. \<not> ar_First b > ar_Last b) rs"
    and "\<And>b. b \<in> set (tl rs) \<Longrightarrow> rangeLen b \<noteq> 0 \<and> unat (rangeLen b) < 2 ^ 48"
    and "rs \<noteq> []" "unat (ar_Last (hd rs)) < 2 ^ 48"
  shows "desc rs"
  using assms
proof (induction rs rule: consistentRanges.induct)
  case (1 a b rs)
  have le: "ar_First a \<le> ar_Last a" "ar_First b \<le> ar_Last b" "ar_First b < ar_First a"
    "ar_Last b + 1 < ar_First a" and c: "consistentRanges (b # rs)"
    using 1(2,3) by (auto simp: linorder_not_less linorder_not_le split: if_splits)
  have a: "unat (ar_First a) < 2 ^ 48" using le(1) 1(6) by (simp add: word_le_nat_alt)
  have "rangeLen b \<noteq> 0" "unat (rangeLen b) < 2 ^ 48" using 1(4) [of b] by auto
  then have "unat (ar_Last b - ar_First b) < 2 ^ 48"
    using unatSuc [of "ar_Last b - ar_First b"] by (simp add: rangeLen_def add.commute)
  then have b: "unat (ar_Last b) < 2 ^ 49"
    using le(2,3) a by (simp add: unat_sub_if' word_le_nat_alt word_less_nat_alt split: if_splits)
  then have "unat (ar_Last b) + 1 < unat (ar_First a)"
    using le(4) by (simp add: word_less_nat_alt unat_word_ariths)
  moreover have "desc (b # rs)"
    using 1(1) [OF _ _ c] 1(3,4) le calculation a by (auto simp: linorder_not_le)
  ultimately show ?case using le(1) by simp
qed auto

lemma parseRanges_wf:
  assumes rd: "\<And>r x r'. rd r = Inr (x, r') \<Longrightarrow> unat x < 2 ^ 48 \<and> length r' \<le> length r"
    and p: "parseRanges rd has nb largest r = Inr ((lowest, ranges), r')"
    and "unat largest < 2 ^ 48" "has \<Longrightarrow> nb \<noteq> 0"
  shows "ackRanges_wf largest lowest ranges \<and> length r' \<le> length r \<and> (ranges \<noteq> [] \<longleftrightarrow> has)"
proof -
  from p obtain len r1 where r1: "rd r = Inr (len, r1)"
    and len: "\<not> (largest > 0 \<and> len < 1)" "\<not> len > largest" 
    by (auto simp: parseRanges_def elim!: andThen_InrE split: if_splits)
  show ?thesis
  proof (cases has)
    case False
    have low: "largest + 1 - len \<le> largest" if "largest \<noteq> 0"
    proof -
      have "1 \<le> unat len" "unat len \<le> unat largest"
        using len that by (auto simp: word_less_nat_alt word_gt_0 linorder_not_less Suc_le_eq unat_gt_0)
      then show ?thesis
        using assms(3) by (simp add: word_le_nat_alt unat_sub_if' unat_word_ariths)
    qed
    show ?thesis
      using p r1 len False low rd [OF r1]
      by (auto simp: parseRanges_def ackRanges_wf_def split: if_splits)
  next
    case True
    let ?start = "\<lparr> ar_First = largest - len + 1, ar_Last = largest \<rparr>"
    from p r1 len True obtain rs c where
      blocks: "parseAckBlocks rd (unat nb) [?start] False False r1 = Inr ((rs, c), r')"
      and ranges: "ranges = (if \<not> c then butlast rs else rs)" "lowest = ar_First (last ranges)"
      and valid: "validateAckRanges largest ranges"
      by (auto simp: parseRanges_def Let_def elim!: andThen_InrE split: if_splits)
    have start: "rangeLen ?start = len" by (simp add: rangeLen_def)
    have n0: "unat nb \<noteq> 0" using assms(4) True by (simp add: unat_eq_0)
    have hd: "hd rs = ?start" "2 \<le> length rs"
      using parseAckBlocks_hd [OF blocks] n0 by auto
    then have ne: "ranges \<noteq> []" "hd ranges = ?start"
      by (cases rs; cases "tl rs"; auto simp: ranges(1))+
    have v: "consistentRanges ranges" "list_all (\<lambda>b. \<not> ar_First b > ar_Last b) ranges"
      "2 \<le> length ranges"
      using valid ne by (cases ranges; auto simp: validateAckRanges_def Suc_le_eq split: if_splits)+
    show ?thesis
    proof (cases "len = 0")
      case True
      then have "largest = 0" using len(1) by (simp add: word_gt_0)
      then have False using True v(2) ne by (cases ranges) auto
      then show ?thesis ..
    next
      case False
      have "blocks_inv [?start] False" using False start rd [OF r1] by (simp add: blocks_inv_def)
      from parseAckBlocks_inv [OF rd blocks this] have inv:
        "blocks_inv rs (rangeLen (last rs) = 0)" "length r' \<le> length r1" "c \<longleftrightarrow> rangeLen (last rs) \<noteq> 0"
        using n0 by auto
      have lens: "rangeLen b \<noteq> 0 \<and> unat (rangeLen b) < 2 ^ 48" if "b \<in> set ranges" for b
        using inv(1,3) that set_butlast_last [of rs] by (auto simp: blocks_inv_def ranges(1) split: if_splits)
      have d: "desc ranges"
      proof (rule validate_desc [OF v(1,2) _ ne(1)])
        show "rangeLen b \<noteq> 0 \<and> unat (rangeLen b) < 2 ^ 48" if "b \<in> set (tl ranges)" for b
          using lens that by (meson list.set_sel(2) ne(1))
        show "unat (ar_Last (hd ranges)) < 2 ^ 48" using ne(2) assms(3) by simp
      qed
      have "lowest \<le> largest"
        using order.trans [OF desc_lowest [OF d hd_in_set [OF ne(1)]]
            desc_mem [OF d hd_in_set [OF ne(1)]]] ne(2) ranges(2) by simp
      then show ?thesis
        using d v(3) ne ranges(2) inv(2) rd [OF r1] \<open>has\<close> by (simp add: ackRanges_wf_def)
    qed
  qed
qed

lemma numberLen_range:
  "numberLen (t AND 0x03) \<in> {1, 2, 4, 6}"
  "numberLen (drop_bit 2 (t AND 0x0C)) \<in> {1, 2, 4, 6}"
proof -
  have *: "numberLen (t AND 0x03) \<in> {1, 2, 4, 6}" for t :: uint8
  proof -
    have "unat (t AND 0x03) = unat t mod 4"
      using unat_and_mask [of t 2] by (simp add: mask_eq_exp_minus_1)
    then have "unat (t AND 0x03) \<in> {0, 1, 2, 3}" by auto
    then have "t AND 0x03 \<in> {0, 1, 2, 3}" by (auto dest: word_eq_of_nat)
    then show ?thesis by (auto simp: numberLen_def)
  qed
  show "numberLen (t AND 0x03) \<in> {1, 2, 4, 6}" by (rule *)
  show "numberLen (drop_bit 2 (t AND 0x0C)) \<in> {1, 2, 4, 6}"
    using * [of "drop_bit 2 t"] by (simp add: drop_bit_and)
qed

lemma ReadUintN_48:
  assumes "len \<in> {1, 2, 4, 6}" "ReadUintN (GetByteOrder v) r len = Inr (x, r')"
  shows "unat x < 2 ^ 48 \<and> length r' < length r"
proof -
  obtain n where n: "len = of_nat n" "n \<in> {1, 2, 4, 6}"
    using assms(1) by (auto intro: that [of 1] that [of 2] that [of 4] that [of 6])
  then have "n \<le> 8" by auto
  from bo.ReadUintN_InrD [OF assms(2) [unfolded n(1)] this] obtain bs
    where bs: "length bs = n" "r = bs @ r'" "unat x < 256 ^ n" .
  have "(256 :: nat) ^ n \<le> 256 ^ 6" using n(2) by (intro power_increasing) auto
  with bs n(2) show ?thesis by auto
qed

lemma skipTimestamps_progress: "skipTimestamps n v r = Inr (u, r') \<Longrightarrow> length r' \<le> length r"
proof (induction n arbitrary: r)
  case (Suc n)
  then obtain a b r1 r2 where "ReadByte r = Inr (a, r1)" "ReadUint16 (GetByteOrder v) r1 = Inr (b, r2)"
    "skipTimestamps n v r2 = Inr (u, r')" by (auto elim!: andThen_InrE)
  with Suc.IH [of r2] show ?case by (auto dest!: reads_progress)
qed simp

lemma readTimestamps_progress:
  "readTimestamps v r = Inr (u, r') \<Longrightarrow> length r' < length r"
  by (auto simp: readTimestamps_def elim!: andThen_InrE dest!: reads_progress
      skipTimestamps_progress split: if_splits)

lemma optional_byte:
  "(if b then ReadByte r else Inr (0, r)) = Inr (x, r') \<Longrightarrow> length r' \<le> length r"
  by (auto dest!: reads_progress split: if_splits)

lemma ReadUfloat16_progress:
  "ReadUfloat16 (GetByteOrder v) r = Inr (x, r') \<Longrightarrow> length r' \<le> length r"
  by (auto simp: ReadUfloat16_def readUfloat16_def elim!: andThen_InrE dest!: reads_progress)

lemma ParseAckFrame_InrD:
  assumes "ParseAckFrame r v = Inr (f, r')"
  shows "ackRanges_wf (ack_LargestAcked f) (ack_LowestAcked f) (ack_AckRanges f)
    \<and> unat (ack_LargestAcked f) < 2 ^ 48 \<and> length r' < length r"
proof -
  from assms obtain t r1 path r2 largest r3 delay r4 nb r5 lowest ranges r6 u where
    rds: "ReadByte r = Inr (t, r1)"
      "(if t AND 0x10 = 0x10 then ReadByte r1 else Inr (0, r1)) = Inr (path, r2)"
      "ReadUintN (GetByteOrder v) r2 (numberLen (drop_bit 2 (t AND 0x0C))) = Inr (largest, r3)"
      "ReadUfloat16 (GetByteOrder v) r3 = Inr (delay, r4)"
      "(if t AND 0x20 = 0x20 then ReadByte r4 else Inr (0, r4)) = Inr (nb, r5)"
    and nb: "\<not> (t AND 0x20 = 0x20 \<and> nb = 0)"
    and blocks: "parseRanges (\<lambda>r. ReadUintN (GetByteOrder v) r (numberLen (t AND 0x03)))
        (t AND 0x20 = 0x20) nb largest r5 = Inr ((lowest, ranges), r6)"
    and ts: "readTimestamps v r6 = Inr (u, r')"
    and f: "ack_LargestAcked f = largest" "ack_LowestAcked f = lowest" "ack_AckRanges f = ranges"
    unfolding ParseAckFrame_def Let_def
    by (elim andThen_InrE) (auto elim!: andThen_InrE split: if_split_asm)
  have rd: "unat x < 2 ^ 48 \<and> length r' \<le> length r"
    if "ReadUintN (GetByteOrder v) r (numberLen (t AND 0x03)) = Inr (x, r')" for r x r'
    using ReadUintN_48 [OF numberLen_range(1) that] by auto
  have la: "unat largest < 2 ^ 48" "length r3 < length r2"
    using ReadUintN_48 [OF numberLen_range(2) rds(3)] by auto
  have "length r5 \<le> length r"
    using rds(1) optional_byte [OF rds(2)] la(2) ReadUfloat16_progress [OF rds(4)]
      optional_byte [OF rds(5)] by (auto dest!: reads_progress)
  with parseRanges_wf [OF rd blocks la(1)] nb readTimestamps_progress [OF ts] la(1) show ?thesis
    by (auto simp: f)
qed

lemma ParseClosePathFrame_InrD:
  assumes "ParseClosePathFrame r v = Inr (f, r')"
  shows "ackRanges_wf (cpf_LargestAcked f) (cpf_LowestAcked f) (cpf_AckRanges f)
    \<and> unat (cpf_LargestAcked f) < 2 ^ 48 \<and> length r' < length r"
proof -
  from assms obtain ty r0 path r1 t r2 nb r3 largest r4 lowest ranges where
    rds: "ReadByte r = Inr (ty, r0)" "ReadByte r0 = Inr (path, r1)" "ReadByte r1 = Inr (t, r2)"
      "(if t AND 0x10 = 0x10 then ReadByte r2 else Inr (0, r2)) = Inr (nb, r3)"
      "ReadUintN (GetByteOrder v) r3 (numberLen (drop_bit 2 (t AND 0x0C))) = Inr (largest, r4)"
    and nb: "\<not> (t AND 0x10 = 0x10 \<and> nb = 0)"
    and blocks: "parseRanges (\<lambda>r. ReadUintN (GetByteOrder v) r (numberLen (t AND 0x03)))
        (t AND 0x10 = 0x10) nb largest r4 = Inr ((lowest, ranges), r')"
    and f: "cpf_LargestAcked f = largest" "cpf_LowestAcked f = lowest" "cpf_AckRanges f = ranges"
    unfolding ParseClosePathFrame_def Let_def
    by (elim andThen_InrE) (auto elim!: andThen_InrE split: if_split_asm)
  have rd: "unat x < 2 ^ 48 \<and> length r' \<le> length r"
    if "ReadUintN (GetByteOrder v) r (numberLen (t AND 0x03)) = Inr (x, r')" for r x r'
    using ReadUintN_48 [OF numberLen_range(1) that] by auto
  have la: "unat largest < 2 ^ 48" "length r4 < length r3"
    using ReadUintN_48 [OF numberLen_range(2) rds(5)] by auto
  have "length r4 < length r"
    using rds(1-3) optional_byte [OF rds(4)] la(2) by (auto dest!: reads_progress)
  with parseRanges_wf [OF rd blocks la(1)] nb la(1) show ?thesis by (auto simp: f)
qed

lemma inRanges_iff: "inRanges rs p \<longleftrightarrow> (\<exists>b \<in> set rs. ar_First b \<le> p \<and> p \<le> ar_Last b)"
  by (induction rs) auto

lemma acksPacket_wf:
  assumes "ackRanges_wf largest lowest ranges"
  shows "acksPacket largest lowest ranges p \<longleftrightarrow>
    (if ranges = [] then lowest \<le> p \<and> p \<le> largest
     else \<exists>b \<in> set ranges. ar_First b \<le> p \<and> p \<le> ar_Last b)"
proof (cases ranges)
  case (Cons a rs)
  then have d: "desc (a # rs)" "ar_Last a = largest" "ar_First (last (a # rs)) = lowest"
    using assms by (auto simp: ackRanges_wf_def)
  have "lowest \<le> ar_First b \<and> ar_Last b \<le> largest" if "b \<in> set (a # rs)" for b
    using desc_lowest [OF d(1) that] desc_largest [OF d(1) that] d(2,3)
    by (simp add: word_le_nat_alt)
  then show ?thesis
    unfolding acksPacket_def inRanges_iff Cons by (auto simp: HasMissingRanges_def; force)
qed (auto simp: acksPacket_def HasMissingRanges_def)

section \<open>Contracts\<close>

interpretation ack: frame_codec "\<lambda>f v. map_sum id fst (AckFrame_Write now f v)" ParseAckFrame
  AckFrame_MinLength "\<lambda>f. ackSendable (ack_LargestAcked f) (ack_LowestAcked f) (ack_AckRanges f)"
  "AckFrame_carried now" for now
proof
  fix f :: AckFrame and v
  assume "ackSendable (ack_LargestAcked f) (ack_LowestAcked f) (ack_AckRanges f)"
  then obtain bs where "AckFrame_Write now f v =
      Inr (bs, f\<lparr> ack_DelayTime := timeSub now (ack_PacketReceivedTime f) \<rparr>)"
    "\<And>r. ParseAckFrame (bs @ r) v = Inr (AckFrame_carried now f, r)"
    "AckFrame_MinLength f v = Inr (of_nat (length bs))" "length bs < 2 ^ 32"
    using AckFrame_write_parse by metis
  then show "\<exists>bs. map_sum id fst (AckFrame_Write now f v) = Inr bs
      \<and> (\<forall>r. ParseAckFrame (bs @ r) v = Inr (AckFrame_carried now f, r))
      \<and> AckFrame_MinLength f v = Inr (of_nat (length bs)) \<and> length bs < 2 ^ 32"
    by simp
qed (simp add: ParseAckFrame_InrD)

interpretation cpf: frame_codec ClosePathFrame_Write ParseClosePathFrame ClosePathFrame_MinLength
  "\<lambda>f. ackSendable (cpf_LargestAcked f) (cpf_LowestAcked f) (cpf_AckRanges f)"
  ClosePathFrame_carried
proof
  fix f :: ClosePathFrame and v
  assume "ackSendable (cpf_LargestAcked f) (cpf_LowestAcked f) (cpf_AckRanges f)"
  then obtain bs where "ClosePathFrame_Write f v = Inr bs"
    "\<And>r. ParseClosePathFrame (bs @ r) v = Inr (ClosePathFrame_carried f, r)"
    "ClosePathFrame_MinLength f v = Inr (of_nat (length bs))" "length bs < 2 ^ 32"
    using ClosePathFrame_write_parse by metis
  then show "\<exists>bs. ClosePathFrame_Write f v = Inr bs
      \<and> (\<forall>r. ParseClosePathFrame (bs @ r) v = Inr (ClosePathFrame_carried f, r))
      \<and> ClosePathFrame_MinLength f v = Inr (of_nat (length bs)) \<and> length bs < 2 ^ 32"
    by simp
qed (simp add: ParseClosePathFrame_InrD)

text \<open>What is carried is a subset of what is acknowledged, and all of it when it fits.\<close>

lemma carried_wf:
  assumes "ackRanges_wf largest lowest ranges" "ranges \<noteq> [] \<Longrightarrow> 2 \<le> length (carriedRanges ranges)"
  shows "ackRanges_wf largest (carriedLowest lowest ranges) (carriedRanges ranges)"
proof (cases ranges)
  case (Cons a rs)
  let ?c = "a # writable 0 a rs"
  have c: "carriedRanges (a # rs) = ?c" by (simp add: carriedRanges_def)
  have d: "desc ?c" "ar_Last a = largest"
    using assms(1) desc_writable [of a rs 0] by (auto simp: ackRanges_wf_def Cons)
  have "ar_First (last ?c) \<le> largest"
    using order.trans [OF desc_lowest [OF d(1), of a] desc_mem [OF d(1), of a]] d(2) by simp
  then show ?thesis using d assms(2) by (auto simp: ackRanges_wf_def c carriedLowest_def Cons)
qed (use assms in \<open>simp add: carriedRanges_def carriedLowest_def\<close>)

lemma carried_acks:
  assumes "ackRanges_wf largest lowest ranges" "ranges \<noteq> [] \<Longrightarrow> 2 \<le> length (carriedRanges ranges)"
    and "acksPacket largest (carriedLowest lowest ranges) (carriedRanges ranges) p"
  shows "acksPacket largest lowest ranges p"
proof -
  have sub: "set (carriedRanges ranges) \<subseteq> set ranges"
    using set_writable by (cases ranges) (auto simp: carriedRanges_def dest: subsetD)
  have emp: "carriedRanges ranges = [] \<longleftrightarrow> ranges = []"
    by (simp add: carriedRanges_def split: list.split)
  have w: "ackRanges_wf largest (carriedLowest lowest ranges) (carriedRanges ranges)"
    using assms(1,2) by (rule carried_wf)
  from assms(3) show ?thesis
    unfolding acksPacket_wf [OF w] acksPacket_wf [OF assms(1)] emp
    using sub by (auto simp: carriedLowest_def split: if_splits)
qed

lemma writable_all: "n + totalBlocks p rs < 255 \<Longrightarrow> writable n p rs = rs"
  by (induction rs arbitrary: n p) (auto simp: add.assoc)

lemma carriedRanges_all: "totalBlocks (hd rs) (tl rs) < 255 \<Longrightarrow> carriedRanges rs = rs"
  using writable_all [of 0 "hd rs" "tl rs"] by (cases rs) (simp_all add: carriedRanges_def)

section \<open>Properties\<close>

text \<open>
  C8. ACK frames: a frame with ordered, separated ranges below \<open>2^48\<close> whose first gap can
  be encoded is written without error and with exactly the announced length, and is read
  back with the same path, largest acknowledged packet, the ranges that fit in 255 blocks
  and the delay at the precision of the 16-bit float. The frame read back never
  acknowledges a packet that the original does not, and it has all ranges if they fit.
\<close>

theorem AckFrame_roundtrip:
  assumes "ackSendable (ack_LargestAcked f) (ack_LowestAcked f) (ack_AckRanges f)"
  shows "okThen (AckFrame_Write now f v) (\<lambda>(bs, f'). ParseAckFrame (bs @ r) v) =
      Inr (AckFrame_carried now f, r)
    \<and> map_sum id (length \<circ> fst) (AckFrame_Write now f v) = map_sum id unat (AckFrame_MinLength f v)
    \<and> (AckFrame_AcksPacket (AckFrame_carried now f) p \<longrightarrow> AckFrame_AcksPacket f p)
    \<and> (totalBlocks (hd (ack_AckRanges f)) (tl (ack_AckRanges f)) < 255 \<longrightarrow>
        ack_AckRanges (AckFrame_carried now f) = ack_AckRanges f)"
proof -
  have "acksPacket (ack_LargestAcked f) (carriedLowest (ack_LowestAcked f) (ack_AckRanges f))
      (carriedRanges (ack_AckRanges f)) p \<longrightarrow>
    acksPacket (ack_LargestAcked f) (ack_LowestAcked f) (ack_AckRanges f) p"
    using assms carried_acks unfolding ackSendable_def by blast
  moreover obtain bs where "AckFrame_Write now f v =
      Inr (bs, f\<lparr> ack_DelayTime := timeSub now (ack_PacketReceivedTime f) \<rparr>)"
    using AckFrame_write_parse [OF assms] by metis
  ultimately show ?thesis
    using ack.roundtrip(1) [where now = now and v = v and r = r, OF assms]
      ack.roundtrip(2) [where now = now and v = v, OF assms]
    by (simp add: AckFrame_AcksPacket_def AckFrame_carried_def carriedRanges_all)
qed

theorem AckFrame_roundtrip_witness:
  "let f = \<lparr> ack_PathID = 3, ack_LargestAcked = 900, ack_LowestAcked = 5,
             ack_AckRanges = [\<lparr> ar_First = 890, ar_Last = 900 \<rparr>, \<lparr> ar_First = 5, ar_Last = 300 \<rparr>],
             ack_PacketReceivedTime = 1000000, ack_DelayTime = 0 \<rparr>
   in okThen (AckFrame_Write 4000000 f 512) (\<lambda>(bs, f'). ParseAckFrame (bs @ [7]) 512) =
        Inr (f\<lparr> ack_PacketReceivedTime := 0, ack_DelayTime := 3000000 \<rparr>, [7])"
proof -
  let ?f = "\<lparr> ack_PathID = 3, ack_LargestAcked = 900, ack_LowestAcked = 5,
             ack_AckRanges = [\<lparr> ar_First = 890, ar_Last = 900 \<rparr>, \<lparr> ar_First = 5, ar_Last = 300 \<rparr>],
             ack_PacketReceivedTime = 1000000, ack_DelayTime = 0 \<rparr>"
  have s: "ackSendable (ack_LargestAcked ?f) (ack_LowestAcked ?f) (ack_AckRanges ?f)"
    by (simp add: ackSendable_def ackRanges_wf_def carriedRanges_def blockCount_def rangeGap_def)
  have rtt: "carriedRTT 3000000 = 3000000"
    by (simp add: carriedRTT_def encodeUfloat16_def decodeUfloat16_def quot_def Microsecond_def)
  have c: "AckFrame_carried 4000000 ?f = ?f\<lparr> ack_PacketReceivedTime := 0, ack_DelayTime := 3000000 \<rparr>"
    using rtt by (simp add: AckFrame_carried_def carriedLowest_def carriedRanges_def
        blockCount_def rangeGap_def timeSub_def)
  show ?thesis using AckFrame_roundtrip [OF s, of 4000000 512 "[7]"] unfolding c Let_def by blast
qed

text \<open>
  ACK and CLOSE_PATH parsers: on arbitrary input, the ranges of an accepted frame
  start at the largest acknowledged packet, are non-empty, ordered and separated by gaps,
  end at the lowest acknowledged packet; so the frame acknowledges exactly the packets
  of its ranges. Input was consumed.
\<close>

theorem ParseAckFrame_safe:
  assumes "ParseAckFrame r v = Inr (f, r')"
  shows "ackRanges_wf (ack_LargestAcked f) (ack_LowestAcked f) (ack_AckRanges f)
    \<and> (AckFrame_AcksPacket f p \<longleftrightarrow>
        (if ack_AckRanges f = [] then ack_LowestAcked f \<le> p \<and> p \<le> ack_LargestAcked f
         else \<exists>b \<in> set (ack_AckRanges f). ar_First b \<le> p \<and> p \<le> ar_Last b))
    \<and> length r' < length r"
  using ParseAckFrame_InrD [OF assms] acksPacket_wf by (simp add: AckFrame_AcksPacket_def)

theorem ParseAckFrame_safe_witness:
  "\<exists>f. ParseAckFrame [0x60, 20, 0, 0, 1, 5, 3, 4, 0] 39 = Inr (f, [])
     \<and> ack_AckRanges f = [\<lparr> ar_First = 16, ar_Last = 20 \<rparr>, \<lparr> ar_First = 9, ar_Last = 12 \<rparr>]
     \<and> (AckFrame_AcksPacket f 14 \<longleftrightarrow> (\<exists>b \<in> set (ack_AckRanges f). ar_First b \<le> 14 \<and> 14 \<le> ar_Last b))"
proof -
  let ?f = "\<lparr> ack_PathID = 0, ack_LargestAcked = 20, ack_LowestAcked = 9,
    ack_AckRanges = [\<lparr> ar_First = 16, ar_Last = 20 \<rparr>, \<lparr> ar_First = 9, ar_Last = 12 \<rparr>],
    ack_PacketReceivedTime = 0, ack_DelayTime = 0 \<rparr>"
  have p: "ParseAckFrame [0x60, 20, 0, 0, 1, 5, 3, 4, 0] 39 = Inr (?f, [])" by code_simp
  from ParseAckFrame_safe [OF p, of 14] p show ?thesis by (intro exI [of _ ?f]) simp
qed

text \<open>
  C9. A frame that the code builds but cannot send: when the first gap needs 255 blocks
  or more, \<open>numWritableNackRanges\<close> leaves room for no range but \<open>Write\<close> writes that gap
  before it counts, so writing the ACK fails with the inconsistency error.
\<close>

theorem AckFrame_Write_long_first_gap:
  assumes "ackRanges_wf (ack_LargestAcked f) (ack_LowestAcked f) (ack_AckRanges f)"
    and "0 < ack_LowestAcked f" "unat (ack_LargestAcked f) < 2 ^ 48"
    and "ack_AckRanges f = a # b # rs" "255 \<le> blockCount a b"
  shows "AckFrame_Write now f v = Inl (GoErr ''BUG: Inconsistent number of ACK ranges written'')"
proof -
  let ?d = "getMissingSequenceNumberDeltaLen (ack_LargestAcked f) (ack_LowestAcked f) (ack_AckRanges f)"
  have d: "desc (a # b # rs)" "ar_Last a = ack_LargestAcked f"
    "ar_First (last (a # b # rs)) = ack_LowestAcked f"
    using assms(1) unfolding ackRanges_wf_def assms(4) by auto
  have len: "unat (rangeLen x) < 256 ^ unat ?d" if "x \<in> {a, b}" for x
  proof (rule deltaLen_fits(3))
    show "x \<in> set (ack_AckRanges f)" using that assms(4) by auto
    have x: "x \<in> set (a # b # rs)" using that by auto
    show "unat (rangeLen x) < 2 ^ 48"
      using rangeLen_nat(1,3) [OF d(1) _ x] desc_largest [OF d(1) x] d(2,3) assms(2,3)
      by (simp add: word_less_nat_alt)
  qed
  let ?wr = "\<lambda>x. writeNumber v ?d x (Inr [])"
  let ?bug = "GoErr ''BUG: Inconsistent number of ACK ranges written''"
  have bug: "writeAckBlocks ?wr ?bug (numWritableNackRanges (a # b # rs)) (ack_LargestAcked f)
      (ack_LowestAcked f) (a # b # rs) = Inl ?bug"
    using ackn.writeAckBlocks_long_first_gap [OF d(1), of ?d v ?bug] len assms(2,5) d(2,3)
      deltaLen_fits(1) by simp
  have "rangeGap a b \<noteq> 0" using d(1) by (intro rangeGap_nonzero) simp
  then have N: "numWritableNackRanges (a # b # rs) = 1"
    using assms(5) unat_gapBlocks_range [of a b]
    by (simp add: Let_def word_less_nat_alt rangeGap_def)
  obtain lb where "writeNumber v (GetPacketNumberLength (ack_LargestAcked f))
      (ack_LargestAcked f) (Inr []) = Inr lb" using numberField [OF assms(3)] by metis
  then show ?thesis using bug N
    by (simp add: AckFrame_Write_def Let_def assms(4) HasMissingRanges_def
        del: numWritableNackRanges.simps)
qed

theorem AckFrame_Write_long_first_gap_witness:
  "AckFrame_Write 0 \<lparr> ack_PathID = 0, ack_LargestAcked = 70000, ack_LowestAcked = 1,
      ack_AckRanges = [\<lparr> ar_First = 70000, ar_Last = 70000 \<rparr>, \<lparr> ar_First = 1, ar_Last = 1 \<rparr>],
      ack_PacketReceivedTime = 0, ack_DelayTime = 0 \<rparr> 39 =
   Inl (GoErr ''BUG: Inconsistent number of ACK ranges written'')"
  by (rule AckFrame_Write_long_first_gap [where rs = "[]"
        and a = "\<lparr> ar_First = 70000, ar_Last = 70000 \<rparr>" and b = "\<lparr> ar_First = 1, ar_Last = 1 \<rparr>"])
    (simp_all add: ackRanges_wf_def blockCount_def rangeGap_def)

text \<open>
  CLOSE_PATH frames: as for ACK frames, a frame that can be encoded is written with
  exactly the announced length and read back with the same path, largest acknowledged
  packet and the ranges that fit. What the receiver takes as acknowledged on the closed
  path was acknowledged by the sender.
\<close>

theorem ClosePathFrame_roundtrip:
  assumes "ackSendable (cpf_LargestAcked f) (cpf_LowestAcked f) (cpf_AckRanges f)"
  shows "okThen (ClosePathFrame_Write f v) (\<lambda>bs. ParseClosePathFrame (bs @ r) v) =
      Inr (ClosePathFrame_carried f, r)
    \<and> map_sum id length (ClosePathFrame_Write f v) = map_sum id unat (ClosePathFrame_MinLength f v)
    \<and> (ClosePathFrame_AcksPacket (ClosePathFrame_carried f) p \<longrightarrow> ClosePathFrame_AcksPacket f p)"
proof -
  have "acksPacket (cpf_LargestAcked f) (carriedLowest (cpf_LowestAcked f) (cpf_AckRanges f))
      (carriedRanges (cpf_AckRanges f)) p \<longrightarrow>
    acksPacket (cpf_LargestAcked f) (cpf_LowestAcked f) (cpf_AckRanges f) p"
    using assms carried_acks unfolding ackSendable_def by blast
  then show ?thesis using cpf.roundtrip [where v = v, OF assms]
    by (simp add: ClosePathFrame_AcksPacket_def ClosePathFrame_carried_def)
qed

theorem ClosePathFrame_roundtrip_witness:
  "let f = \<lparr> cpf_PathID = 3, cpf_LargestAcked = 900, cpf_LowestAcked = 5, cpf_AckRanges =
             [\<lparr> ar_First = 890, ar_Last = 900 \<rparr>, \<lparr> ar_First = 5, ar_Last = 300 \<rparr>] \<rparr>
   in okThen (ClosePathFrame_Write f 512) (\<lambda>bs. ParseClosePathFrame (bs @ [7]) 512) = Inr (f, [7])"
proof -
  let ?f = "\<lparr> cpf_PathID = 3, cpf_LargestAcked = 900, cpf_LowestAcked = 5, cpf_AckRanges =
             [\<lparr> ar_First = 890, ar_Last = 900 \<rparr>, \<lparr> ar_First = 5, ar_Last = 300 \<rparr>] \<rparr>"
  have s: "ackSendable (cpf_LargestAcked ?f) (cpf_LowestAcked ?f) (cpf_AckRanges ?f)"
    by (simp add: ackSendable_def ackRanges_wf_def carriedRanges_def blockCount_def rangeGap_def)
  have c: "ClosePathFrame_carried ?f = ?f"
    by (simp add: ClosePathFrame_carried_def carriedLowest_def carriedRanges_def
        blockCount_def rangeGap_def)
  show ?thesis using ClosePathFrame_roundtrip [OF s, of 512 "[7]"] unfolding c Let_def by blast
qed

end
