(* ===== verification/PublicHeader.thy ===== *)
theory PublicHeader
  imports Frames
begin

unbundle bit_operations_syntax

text \<open>
  The public header of a packet (\<open>internal/wire/public_header.go\<close>) and the version
  negotiation packet (\<open>version_negotiation.go\<close>): the header can be read back with the
  packet number truncated to its length, from which the receiver infers the full one.
\<close>

section \<open>The public header\<close>

record PublicHeader =
  ph_Raw :: "byte list"
  ph_ConnectionID :: ConnectionID
  ph_PathID :: PathID
  ph_VersionFlag :: bool
  ph_ResetFlag :: bool
  ph_TruncateConnectionID :: bool
  ph_MultipathFlag :: bool
  ph_PacketNumberLen :: PacketNumberLen
  ph_PacketNumber :: PacketNumber
  ph_VersionNumber :: VersionNumber
  ph_SupportedVersions :: "VersionNumber list"
  ph_DiversificationNonce :: "byte list"

text \<open>The zero value \<open>PublicHeader{}\<close>.\<close>

definition emptyHeader :: PublicHeader where
  "emptyHeader = \<lparr> ph_Raw = [], ph_ConnectionID = 0, ph_PathID = 0, ph_VersionFlag = False,
     ph_ResetFlag = False, ph_TruncateConnectionID = False, ph_MultipathFlag = False,
     ph_PacketNumberLen = 0, ph_PacketNumber = 0, ph_VersionNumber = 0,
     ph_SupportedVersions = [], ph_DiversificationNonce = [] \<rparr>"

definition ErrPacketWithUnknownVersion :: go_error where
  "ErrPacketWithUnknownVersion = GoErr ''PublicHeader: Received a packet without version number, that we don't know the version for''"

definition errResetAndVersionFlagSet :: go_error where
  "errResetAndVersionFlagSet = GoErr ''PublicHeader: Reset Flag and Version Flag should not be set at the same time''"

definition errReceivedTruncatedConnectionID :: go_error where
  "errReceivedTruncatedConnectionID = QuicError InvalidPacketHeader ''receiving packets with truncated ConnectionID is not supported''"

definition errInvalidConnectionID :: go_error where
  "errInvalidConnectionID = QuicError InvalidPacketHeader ''connection ID cannot be 0''"

definition errGetLengthNotForVersionNegotiation :: go_error where
  "errGetLengthNotForVersionNegotiation = GoErr ''PublicHeader: GetLength cannot be called for VersionNegotiation packets''"

definition InvalidVersionNegotiationPacket :: ErrorCode where
  "InvalidVersionNegotiationPacket = 10"

definition hasPacketNumber :: "PublicHeader \<Rightarrow> Perspective \<Rightarrow> bool" where
  "hasPacketNumber h packetSentBy =
     (if ph_ResetFlag h then False
      else if ph_VersionFlag h \<and> packetSentBy = PerspectiveServer then False
      else True)"

text \<open>The public flags byte that \<open>Write\<close> puts first.\<close>

definition publicFlags :: "PublicHeader \<Rightarrow> Perspective \<Rightarrow> uint8" where
  "publicFlags h pers =
     (let flags = 0x00;
          flags = (if ph_VersionFlag h then flags OR 0x01 else flags);
          flags = (if ph_ResetFlag h then flags OR 0x02 else flags);
          flags = (if \<not> ph_TruncateConnectionID h then flags OR 0x08 else flags);
          flags = (if ph_DiversificationNonce h \<noteq> [] then flags OR 0x04 else flags);
          flags = (if hasPacketNumber h pers
                   then if ph_PacketNumberLen h = PacketNumberLen1 then flags OR 0x00
                        else if ph_PacketNumberLen h = PacketNumberLen2 then flags OR 0x10
                        else if ph_PacketNumberLen h = PacketNumberLen4 then flags OR 0x20
                        else if ph_PacketNumberLen h = PacketNumberLen6 then flags OR 0x30
                        else flags
                   else flags)
      in if ph_MultipathFlag h then flags OR 0x40 else flags)"

definition PublicHeader_Write ::
  "PublicHeader \<Rightarrow> VersionNumber \<Rightarrow> Perspective \<Rightarrow> go_error + byte list" where
  "PublicHeader_Write h version pers =
     (if ph_VersionFlag h \<and> ph_ResetFlag h then Inl errResetAndVersionFlagSet
      else if ph_DiversificationNonce h \<noteq> [] \<and> length (ph_DiversificationNonce h) \<noteq> 32
      then Inl (GoErr ''invalid diversification nonce length'')
      else let b = [publicFlags h pers]
                 @ (if \<not> ph_TruncateConnectionID h
                    then WriteUint64 littleEndian (ph_ConnectionID h) else [])
                 @ (if ph_VersionFlag h \<and> pers = PerspectiveClient
                    then WriteUint32 littleEndian (VersionNumberToTag (ph_VersionNumber h)) else [])
                 @ (if ph_DiversificationNonce h \<noteq> [] then ph_DiversificationNonce h else [])
                 @ (if ph_MultipathFlag h then [ph_PathID h] else [])
           in if \<not> hasPacketNumber h pers then Inr b
              else okThen (writeNumber version (ph_PacketNumberLen h) (ph_PacketNumber h)
                     (Inl (GoErr ''PublicHeader: PacketNumberLen not set'')))
                   (\<lambda>pn. Inr (b @ pn)))"

text \<open>The connection ID, and the reader after the bytes have been put back.\<close>

definition PeekConnectionID ::
  "reader \<Rightarrow> Perspective \<Rightarrow> go_error + (ConnectionID \<times> reader)" where
  "PeekConnectionID b packetSentBy =
     andThen (ReadByte b) (\<lambda>publicFlagByte r.
       let truncateConnectionID = (publicFlagByte AND 0x08 = 0)
       in if truncateConnectionID \<and> packetSentBy = PerspectiveClient
          then Inl errReceivedTruncatedConnectionID
          else if \<not> truncateConnectionID
          then andThen (ReadUint64 littleEndian r) (\<lambda>connID _. Inr (connID, b))
          else Inr (0, b))"

text \<open>
  The list of versions in a version negotiation packet; the loop ends when no four bytes
  are left, and the length was checked to be a multiple of four.
\<close>

function readVersions :: "reader \<Rightarrow> VersionNumber list" where
  "readVersions b =
     (case ReadUint32 littleEndian b of
        Inl _ \<Rightarrow> []
      | Inr (versionTag, b') \<Rightarrow> VersionTagToNumber versionTag # readVersions b')"
  by pat_completeness auto
termination
  by (relation "measure length") (auto dest!: le.ReadUint32_InrD)

declare readVersions.simps [simp del]

text \<open>The packet number length of the flags byte.\<close>

definition flagsPacketNumberLen :: "uint8 \<Rightarrow> PacketNumberLen" where
  "flagsPacketNumberLen publicFlagByte =
     (let bits = publicFlagByte AND 0x30
      in if bits = 0x30 then PacketNumberLen6
         else if bits = 0x20 then PacketNumberLen4
         else if bits = 0x10 then PacketNumberLen2
         else if bits = 0x00 then PacketNumberLen1
         else PacketNumberLenInvalid)"

text \<open>The end of \<open>ParsePublicHeader\<close>: path ID and packet number.\<close>

definition parsePathAndNumber :: "PublicHeader \<Rightarrow> Perspective \<Rightarrow> VersionNumber \<Rightarrow> reader
    \<Rightarrow> go_error + (PublicHeader \<times> reader)" where
  "parsePathAndNumber header packetSentBy version b =
     andThen (if ph_MultipathFlag header then ReadByte b else Inr (0, b)) (\<lambda>pathID b.
     let header = header\<lparr> ph_PathID := pathID \<rparr>
     in if hasPacketNumber header packetSentBy
        then andThen (ReadUintN (GetByteOrder version) b (ph_PacketNumberLen header))
               (\<lambda>packetNumber b. Inr (header\<lparr> ph_PacketNumber := packetNumber \<rparr>, b))
        else Inr (header, b))"

definition ParsePublicHeader :: "reader \<Rightarrow> Perspective \<Rightarrow> VersionNumber
    \<Rightarrow> go_error + (PublicHeader \<times> reader)" where
  "ParsePublicHeader b packetSentBy version =
     andThen (ReadByte b) (\<lambda>publicFlagByte b.
     let header = emptyHeader\<lparr> ph_ResetFlag := publicFlagByte AND 0x02 > 0,
                               ph_VersionFlag := publicFlagByte AND 0x01 > 0 \<rparr>
     in if version = VersionUnknown \<and> \<not> (ph_VersionFlag header \<or> ph_ResetFlag header)
        then Inl ErrPacketWithUnknownVersion
        else
     let header = header\<lparr> ph_TruncateConnectionID := (publicFlagByte AND 0x08 = 0) \<rparr>
     in if ph_TruncateConnectionID header \<and> packetSentBy = PerspectiveClient
        then Inl errReceivedTruncatedConnectionID
        else
     let header = (if hasPacketNumber header packetSentBy
                   then header\<lparr> ph_PacketNumberLen := flagsPacketNumberLen publicFlagByte \<rparr>
                   else header);
         header = header\<lparr> ph_MultipathFlag := publicFlagByte AND 0x40 > 0 \<rparr>
     in andThen (if \<not> ph_TruncateConnectionID header
                 then andThen (ReadUint64 littleEndian b) (\<lambda>connID b.
                        if connID = 0 then Inl errInvalidConnectionID
                        else Inr (header\<lparr> ph_ConnectionID := connID \<rparr>, b))
                 else Inr (header, b)) (\<lambda>header b.
        andThen (if packetSentBy = PerspectiveServer \<and> publicFlagByte AND 0x04 > 0
                     \<and> \<not> ph_VersionFlag header \<and> \<not> ph_ResetFlag header
                 then andThen (ReadFull 32 b) (\<lambda>nonce b.
                        Inr (header\<lparr> ph_DiversificationNonce := nonce \<rparr>, b))
                 else Inr (header, b)) (\<lambda>header b.
        if \<not> ph_ResetFlag header \<and> ph_VersionFlag header
        then if packetSentBy = PerspectiveServer
             then if length b mod 4 \<noteq> 0 then Inl (QuicErrCode InvalidVersionNegotiationPacket)
                  else Inr (header\<lparr> ph_SupportedVersions := readVersions b \<rparr>, [])
             else andThen (ReadUint32 littleEndian b) (\<lambda>versionTag b.
                    let version = VersionTagToNumber versionTag
                    in parsePathAndNumber (header\<lparr> ph_VersionNumber := version \<rparr>)
                         packetSentBy version b)
        else parsePathAndNumber header packetSentBy version b)))"

definition GetLength :: "PublicHeader \<Rightarrow> Perspective \<Rightarrow> go_error + ByteCount" where
  "GetLength h pers =
     (if ph_VersionFlag h \<and> ph_ResetFlag h then Inl errResetAndVersionFlagSet
      else if ph_VersionFlag h \<and> pers = PerspectiveServer
      then Inl errGetLengthNotForVersionNegotiation
      else if hasPacketNumber h pers \<and> ph_PacketNumberLen h \<noteq> PacketNumberLen1
          \<and> ph_PacketNumberLen h \<noteq> PacketNumberLen2 \<and> ph_PacketNumberLen h \<noteq> PacketNumberLen4
          \<and> ph_PacketNumberLen h \<noteq> PacketNumberLen6
      then Inl errPacketNumberLenNotSet
      else let len = 1;
               len = (if hasPacketNumber h pers then len + ucast (ph_PacketNumberLen h) else len);
               len = (if \<not> ph_TruncateConnectionID h then len + 8 else len);
               len = (if ph_VersionFlag h then len + 4 else len);
               len = len + of_nat (length (ph_DiversificationNonce h))
           in Inr (if ph_MultipathFlag h then len + 1 else len))"

section \<open>Version negotiation\<close>

text \<open>When \<open>Write\<close> fails nothing was written yet; the error is only logged.\<close>

definition ComposeVersionNegotiation :: "ConnectionID \<Rightarrow> VersionNumber list \<Rightarrow> byte list" where
  "ComposeVersionNegotiation connectionID versions =
     (let h = emptyHeader\<lparr> ph_ConnectionID := connectionID, ph_PacketNumber := 1,
                           ph_VersionFlag := True \<rparr>
      in (case PublicHeader_Write h VersionWhatever PerspectiveServer of Inl _ \<Rightarrow> [] | Inr b \<Rightarrow> b)
         @ concat (map (\<lambda>v. WriteUint32 littleEndian (VersionNumberToTag v)) versions))"

section \<open>Flags\<close>

lemma publicFlags_fields:
  assumes "hasPacketNumber h pers \<longrightarrow> ph_PacketNumberLen h \<in> {1, 2, 4, 6}"
  defines "t \<equiv> publicFlags h pers"
  shows "t AND 0x02 > 0 \<longleftrightarrow> ph_ResetFlag h" "t AND 0x01 > 0 \<longleftrightarrow> ph_VersionFlag h"
    and "t AND 0x08 = 0 \<longleftrightarrow> ph_TruncateConnectionID h"
    and "t AND 0x04 > 0 \<longleftrightarrow> ph_DiversificationNonce h \<noteq> []"
    and "t AND 0x40 > 0 \<longleftrightarrow> ph_MultipathFlag h"
    and "hasPacketNumber h pers \<Longrightarrow> flagsPacketNumberLen t = ph_PacketNumberLen h"
proof -
  define n where "n = (if hasPacketNumber h pers then if ph_PacketNumberLen h = 1 then 0
      else if ph_PacketNumberLen h = 2 then 0x10 else if ph_PacketNumberLen h = 4 then 0x20
      else 0x30 else (0 :: uint8))"
  have n: "n \<in> {0, 0x10, 0x20, 0x30}" by (simp add: n_def)
  have t: "t = (if ph_VersionFlag h then 1 else 0) OR (if ph_ResetFlag h then 2 else 0)
      OR (if ph_TruncateConnectionID h then 0 else 8)
      OR (if ph_DiversificationNonce h = [] then 0 else 4) OR n
      OR (if ph_MultipathFlag h then 0x40 else 0)"
    using assms(1) unfolding t_def publicFlags_def n_def Let_def PacketNumberLen_defs
    by (auto simp: or.assoc)
  show "t AND 0x02 > 0 \<longleftrightarrow> ph_ResetFlag h" "t AND 0x01 > 0 \<longleftrightarrow> ph_VersionFlag h"
    "t AND 0x08 = 0 \<longleftrightarrow> ph_TruncateConnectionID h"
    "t AND 0x04 > 0 \<longleftrightarrow> ph_DiversificationNonce h \<noteq> []" "t AND 0x40 > 0 \<longleftrightarrow> ph_MultipathFlag h"
    using n unfolding t by (auto simp: bit.conj_disj_distrib2)
  have "t AND 0x30 = n" using n unfolding t by (auto simp: bit.conj_disj_distrib2)
  then show "flagsPacketNumberLen t = ph_PacketNumberLen h" if "hasPacketNumber h pers"
    using that assms(1) by (auto simp: flagsPacketNumberLen_def n_def PacketNumberLen_defs)
qed

section \<open>Headers can be read back\<close>

definition PublicHeader_valid :: "PublicHeader \<Rightarrow> Perspective \<Rightarrow> VersionNumber \<Rightarrow> bool" where
  "PublicHeader_valid h pers v \<longleftrightarrow>
     \<not> (ph_VersionFlag h \<and> ph_ResetFlag h)
     \<and> (hasPacketNumber h pers \<longrightarrow> ph_PacketNumberLen h \<in> {1, 2, 4, 6})
     \<and> (if ph_TruncateConnectionID h then pers = PerspectiveServer else ph_ConnectionID h \<noteq> 0)
     \<and> (ph_DiversificationNonce h \<noteq> [] \<longrightarrow> length (ph_DiversificationNonce h) = 32
          \<and> pers = PerspectiveServer \<and> \<not> ph_VersionFlag h \<and> \<not> ph_ResetFlag h)
     \<and> (ph_VersionFlag h \<longrightarrow> pers = PerspectiveClient \<and> 0 \<le> ph_VersionNumber h
          \<and> ph_VersionNumber h < 1000 \<and> GetByteOrder (ph_VersionNumber h) = GetByteOrder v)
     \<and> (v = VersionUnknown \<longrightarrow> ph_VersionFlag h \<or> ph_ResetFlag h)"

definition PublicHeader_carried :: "PublicHeader \<Rightarrow> Perspective \<Rightarrow> PublicHeader" where
  "PublicHeader_carried h pers =
     h\<lparr> ph_Raw := [], ph_SupportedVersions := [],
        ph_ConnectionID := if ph_TruncateConnectionID h then 0 else ph_ConnectionID h,
        ph_PathID := if ph_MultipathFlag h then ph_PathID h else 0,
        ph_PacketNumberLen := if hasPacketNumber h pers then ph_PacketNumberLen h else 0,
        ph_PacketNumber := if hasPacketNumber h pers
          then take_bit (8 * unat (ph_PacketNumberLen h)) (ph_PacketNumber h) else 0,
        ph_VersionNumber := if ph_VersionFlag h then ph_VersionNumber h else 0 \<rparr>"

lemma PublicHeader_write_parse:
  assumes "PublicHeader_valid h pers v"
  obtains bs where "PublicHeader_Write h v pers = Inr bs"
    "\<And>r. ParsePublicHeader (bs @ r) pers v = Inr (PublicHeader_carried h pers, r)"
    "GetLength h pers = Inr (of_nat (length bs))" "length bs < 64"
    "\<And>r. PeekConnectionID (bs @ r) pers =
        Inr (ph_ConnectionID (PublicHeader_carried h pers), bs @ r)"
proof -
  define t where "t = publicFlags h pers"
  have v: "hasPacketNumber h pers \<longrightarrow> ph_PacketNumberLen h \<in> {1, 2, 4, 6}"
    using assms by (simp add: PublicHeader_valid_def)
  note t = publicFlags_fields [OF v, folded t_def]
  define unset where "unset = (Inl (GoErr ''PublicHeader: PacketNumberLen not set'')
      :: go_error + byte list)"
  obtain pb where pb: "hasPacketNumber h pers \<Longrightarrow>
      writeNumber v (ph_PacketNumberLen h) (ph_PacketNumber h) unset = Inr pb"
    "length pb = (if hasPacketNumber h pers then unat (ph_PacketNumberLen h) else 0)"
    "\<And>r. hasPacketNumber h pers \<Longrightarrow> ReadUintN (GetByteOrder v) (pb @ r) (ph_PacketNumberLen h) =
        Inr (take_bit (8 * unat (ph_PacketNumberLen h)) (ph_PacketNumber h), r)"
  proof (cases "hasPacketNumber h pers")
    case True
    then show thesis using writeNumber_read [OF mp [OF v]] that by metis
  qed (auto intro: that [of "[]"])
  let ?bs = "[t] @ (if \<not> ph_TruncateConnectionID h
        then WriteUint64 littleEndian (ph_ConnectionID h) else [])
      @ (if ph_VersionFlag h
         then WriteUint32 littleEndian (VersionNumberToTag (ph_VersionNumber h)) else [])
      @ ph_DiversificationNonce h @ (if ph_MultipathFlag h then [ph_PathID h] else []) @ pb"
  have fl: "\<not> (ph_VersionFlag h \<and> ph_ResetFlag h)"
    "ph_VersionFlag h \<Longrightarrow> pers = PerspectiveClient"
    "ph_DiversificationNonce h \<noteq> [] \<Longrightarrow> length (ph_DiversificationNonce h) = 32"
    using assms by (simp_all add: PublicHeader_valid_def)
  have nonce: "(if ph_DiversificationNonce h \<noteq> [] then ph_DiversificationNonce h else []) =
      ph_DiversificationNonce h" by simp
  have ver: "ph_VersionFlag h \<and> pers = PerspectiveClient \<longleftrightarrow> ph_VersionFlag h" using fl(2) by blast
  show thesis
  proof (rule that [of ?bs])
    show "PublicHeader_Write h v pers = Inr ?bs"
      unfolding PublicHeader_Write_def t_def [symmetric] unset_def [symmetric] Let_def nonce ver
      using fl(1,3) pb(1,2)
      by (cases "hasPacketNumber h pers"; cases "ph_DiversificationNonce h = []") simp_all
    show "PeekConnectionID (?bs @ r) pers =
        Inr (ph_ConnectionID (PublicHeader_carried h pers), ?bs @ r)" for r
      using assms t(3) by (cases "ph_TruncateConnectionID h")
        (simp_all add: PeekConnectionID_def PublicHeader_valid_def PublicHeader_carried_def Let_def)
    have len: "length pb \<le> 6" using v pb(2) by (cases "hasPacketNumber h pers") auto
    have nl: "length (ph_DiversificationNonce h) \<le> 32"
      using fl(3) by (cases "ph_DiversificationNonce h = []") simp_all
    show "length ?bs < 64" using len nl by simp
    show "GetLength h pers = Inr (of_nat (length ?bs))"
      using fl(1,2) v pb(2) by (cases "hasPacketNumber h pers")
        (simp_all add: GetLength_def PacketNumberLen_defs)
    show "ParsePublicHeader (?bs @ r) pers v = Inr (PublicHeader_carried h pers, r)" for r
    proof -
      define rest where "rest = (if ph_MultipathFlag h then [ph_PathID h] else []) @ pb @ r"
      have pn: "parsePathAndNumber g p w rest =
          Inr (g\<lparr> ph_PathID := if ph_MultipathFlag h then ph_PathID h else 0,
                 ph_PacketNumber := if hasPacketNumber h pers
                   then take_bit (8 * unat (ph_PacketNumberLen h)) (ph_PacketNumber h)
                   else ph_PacketNumber g \<rparr>, r)"
        if "p = pers" "ph_MultipathFlag g = ph_MultipathFlag h" "GetByteOrder w = GetByteOrder v"
          "ph_ResetFlag g = ph_ResetFlag h" "ph_VersionFlag g = ph_VersionFlag h"
          "hasPacketNumber h pers \<longrightarrow> ph_PacketNumberLen g = ph_PacketNumberLen h"
        for g w p
      proof -
        have "hasPacketNumber (g\<lparr> ph_PathID := i \<rparr>) pers = hasPacketNumber h pers" for i
          using that by (simp add: hasPacketNumber_def)
        then show ?thesis using that pb(2,3)
          by (cases "hasPacketNumber h pers"; cases "ph_MultipathFlag h")
            (simp_all add: parsePathAndNumber_def Let_def rest_def)
      qed
      have bs: "?bs @ r = t # (if \<not> ph_TruncateConnectionID h
            then WriteUint64 littleEndian (ph_ConnectionID h) else [])
          @ (if ph_VersionFlag h
             then WriteUint32 littleEndian (VersionNumberToTag (ph_VersionNumber h)) else [])
          @ ph_DiversificationNonce h @ rest" by (simp add: rest_def)
      note parse = ParsePublicHeader_def Let_def pn hasPacketNumber_def emptyHeader_def
        PublicHeader_carried_def ReadFull_append
      show ?thesis
      proof (cases "ph_VersionFlag h")
        case True
        then have "pers = PerspectiveClient" "\<not> ph_TruncateConnectionID h" "\<not> ph_ResetFlag h"
          "ph_DiversificationNonce h = []" "ph_ConnectionID h \<noteq> 0"
          "VersionTagToNumber (VersionNumberToTag (ph_VersionNumber h)) = ph_VersionNumber h"
          "GetByteOrder (ph_VersionNumber h) = GetByteOrder v"
          using assms VersionTagToNumber_ToTag by (auto simp: PublicHeader_valid_def split: if_splits)
        with True show ?thesis unfolding bs using t
          by (cases "ph_MultipathFlag h") (auto simp: parse intro!: PublicHeader.equality)
      next
        case False
        then have "v = VersionUnknown \<longrightarrow> ph_ResetFlag h"
          "ph_TruncateConnectionID h \<longrightarrow> pers = PerspectiveServer"
          "\<not> ph_TruncateConnectionID h \<longrightarrow> ph_ConnectionID h \<noteq> 0"
          "ph_DiversificationNonce h \<noteq> [] \<longrightarrow> pers = PerspectiveServer \<and> \<not> ph_ResetFlag h"
          using assms by (auto simp: PublicHeader_valid_def split: if_splits)
        with False show ?thesis unfolding bs using t fl(3)
          by (cases "ph_TruncateConnectionID h"; cases "ph_DiversificationNonce h = []";
              cases "ph_ResetFlag h") (simp_all add: parse)
      qed
    qed
  qed
qed

section \<open>Version negotiation packets can be read back\<close>

lemma readVersions_append:
  "0 \<le> v \<Longrightarrow> v < 1000 \<Longrightarrow>
   readVersions (WriteUint32 littleEndian (VersionNumberToTag v) @ r) = v # readVersions r"
  by (subst readVersions.simps) (simp add: VersionTagToNumber_ToTag)

lemma readVersions_written:
  assumes "\<And>v. v \<in> set vs \<Longrightarrow> 0 \<le> v \<and> v < 1000"
  shows "readVersions (concat (map (\<lambda>v. WriteUint32 littleEndian (VersionNumberToTag v)) vs)) = vs"
  using assms
proof (induction vs)
  case Nil
  then show ?case by (subst readVersions.simps) (simp add: littleEndian_def le_ReadUint32_def)
qed (simp add: readVersions_append)

lemma length_versions:
  "length (concat (map (\<lambda>v. WriteUint32 littleEndian (VersionNumberToTag v)) vs)) = 4 * length vs"
  by (induction vs) simp_all

lemma negotiationHeader_parse:
  assumes "connectionID \<noteq> 0" "length b mod 4 = 0"
  defines "h \<equiv> emptyHeader\<lparr> ph_ConnectionID := connectionID, ph_PacketNumber := 1,
                             ph_VersionFlag := True \<rparr>"
  obtains bs where "PublicHeader_Write h VersionWhatever PerspectiveServer = Inr bs"
    "ParsePublicHeader (bs @ b) PerspectiveServer v = Inr (emptyHeader\<lparr> ph_ConnectionID := connectionID,
        ph_VersionFlag := True, ph_SupportedVersions := readVersions b \<rparr>, [])"
proof (rule that)
  show "PublicHeader_Write h VersionWhatever PerspectiveServer =
      Inr (9 # WriteUint64 littleEndian connectionID)"
    by (simp add: PublicHeader_Write_def h_def emptyHeader_def hasPacketNumber_def publicFlags_def)
  show "ParsePublicHeader ((9 # WriteUint64 littleEndian connectionID) @ b) PerspectiveServer v =
      Inr (emptyHeader\<lparr> ph_ConnectionID := connectionID,
        ph_VersionFlag := True, ph_SupportedVersions := readVersions b \<rparr>, [])"
    using assms(1,2) by (simp add: ParsePublicHeader_def emptyHeader_def hasPacketNumber_def Let_def
        flagsPacketNumberLen_def)
qed

section \<open>Properties\<close>

text \<open>
  C3. Public headers: a header that the sender may write for the version in use has
  exactly the length that \<open>GetLength\<close> computes and is parsed back with all its fields,
  the packet number truncated to its length; the rest of the packet is left unread.
  \<open>PeekConnectionID\<close> finds the same connection ID without consuming the header.
\<close>

theorem PublicHeader_roundtrip:
  assumes "PublicHeader_valid h pers v"
  shows "okThen (PublicHeader_Write h v pers) (\<lambda>bs. ParsePublicHeader (bs @ r) pers v) =
      Inr (PublicHeader_carried h pers, r)
    \<and> map_sum id length (PublicHeader_Write h v pers) = map_sum id unat (GetLength h pers)
    \<and> okThen (PublicHeader_Write h v pers) (\<lambda>bs. map_sum id fst (PeekConnectionID (bs @ r) pers)) =
      Inr (ph_ConnectionID (PublicHeader_carried h pers))"
proof -
  obtain bs where "PublicHeader_Write h v pers = Inr bs"
    "ParsePublicHeader (bs @ r) pers v = Inr (PublicHeader_carried h pers, r)"
    "GetLength h pers = Inr (of_nat (length bs))" "length bs < 64"
    "PeekConnectionID (bs @ r) pers = Inr (ph_ConnectionID (PublicHeader_carried h pers), bs @ r)"
    using PublicHeader_write_parse [OF assms] by metis
  then show ?thesis by (simp add: unat_of_nat)
qed

theorem PublicHeader_roundtrip_witness:
  "let h = emptyHeader\<lparr> ph_ConnectionID := 77, ph_PathID := 3, ph_MultipathFlag := True,
             ph_PacketNumberLen := 2, ph_PacketNumber := 0x1234, ph_VersionFlag := True,
             ph_VersionNumber := 512 \<rparr>
   in okThen (PublicHeader_Write h 512 PerspectiveClient)
        (\<lambda>bs. ParsePublicHeader (bs @ [1, 2]) PerspectiveClient 512) = Inr (h, [1, 2])"
proof -
  let ?h = "emptyHeader\<lparr> ph_ConnectionID := 77, ph_PathID := 3, ph_MultipathFlag := True,
             ph_PacketNumberLen := 2, ph_PacketNumber := 0x1234, ph_VersionFlag := True,
             ph_VersionNumber := 512 \<rparr>"
  have v: "PublicHeader_valid ?h PerspectiveClient 512"
    by (simp add: PublicHeader_valid_def emptyHeader_def VersionUnknown_def)
  have c: "PublicHeader_carried ?h PerspectiveClient = ?h"
    by (simp add: PublicHeader_carried_def emptyHeader_def hasPacketNumber_def)
  show ?thesis using PublicHeader_roundtrip [OF v, of "[1, 2]"] unfolding c Let_def by blast
qed

text \<open>
  C2. Packet number transport: the sender truncates packet number \<open>pn\<close> to the length
  that \<open>GetPacketNumberLengthForPublicHeader\<close> picks from its least unacknowledged
  packet and writes it in the public header; a receiver whose largest packet number is
  not below what was acknowledged and that was overtaken by fewer than \<open>2^15\<close> packets
  parses the header and infers exactly \<open>pn\<close>.
\<close>

theorem packet_number_transport:
  assumes "uint leastUnacked \<le> uint (ph_PacketNumber h)"
    and "uint (ph_PacketNumber h) < uint leastUnacked + 2 ^ 47"
    and "uint leastUnacked \<le> uint largest + 1"
    and "uint largest + 1 < uint (ph_PacketNumber h) + 2 ^ 15"
    and "uint (ph_PacketNumber h) < 2 ^ 62" "uint largest < 2 ^ 62"
    and "ph_PacketNumberLen h = GetPacketNumberLengthForPublicHeader (ph_PacketNumber h) leastUnacked"
    and "PublicHeader_valid h pers v" "hasPacketNumber h pers"
  shows "okThen (PublicHeader_Write h v pers) (\<lambda>bs.
      andThen (ParsePublicHeader (bs @ r) pers v) (\<lambda>hdr rest.
        Inr (InferPacketNumber (ph_PacketNumberLen hdr) largest (ph_PacketNumber hdr)))) =
    Inr (ph_PacketNumber h)"
proof -
  obtain bs where "PublicHeader_Write h v pers = Inr bs"
    "ParsePublicHeader (bs @ r) pers v = Inr (PublicHeader_carried h pers, r)"
    using PublicHeader_write_parse [OF assms(8)] by metis
  with InferPacketNumber_truncated [OF assms(1-6)] show ?thesis
    by (simp add: PublicHeader_carried_def assms(7,9))
qed

theorem packet_number_transport_witness:
  "let h = emptyHeader\<lparr> ph_ConnectionID := 77, ph_PathID := 3, ph_MultipathFlag := True,
             ph_PacketNumberLen := 4, ph_PacketNumber := 70000 \<rparr>
   in okThen (PublicHeader_Write h 512 PerspectiveServer) (\<lambda>bs.
        andThen (ParsePublicHeader (bs @ []) PerspectiveServer 512) (\<lambda>hdr rest.
          Inr (InferPacketNumber (ph_PacketNumberLen hdr) 69990 (ph_PacketNumber hdr)))) = Inr 70000"
proof -
  let ?h = "emptyHeader\<lparr> ph_ConnectionID := 77, ph_PathID := 3, ph_MultipathFlag := True,
             ph_PacketNumberLen := 4, ph_PacketNumber := 70000 \<rparr>"
  have pn: "ph_PacketNumber ?h = 70000" by simp
  have v: "PublicHeader_valid ?h PerspectiveServer 512" "hasPacketNumber ?h PerspectiveServer"
    by (simp_all add: PublicHeader_valid_def emptyHeader_def VersionUnknown_def hasPacketNumber_def)
  have l: "ph_PacketNumberLen ?h = GetPacketNumberLengthForPublicHeader (ph_PacketNumber ?h) 30000"
    by (simp add: GetPacketNumberLengthForPublicHeader_def PacketNumberLen_defs)
  show ?thesis unfolding Let_def
    using packet_number_transport [of 30000 ?h 69990, OF _ _ _ _ _ _ l v, of "[]"] by simp
qed

text \<open>
  C5. Version negotiation: the client reads from the packet composed by the server the
  connection ID and exactly the server's versions (numbers of at most three digits, as
  all supported ones), so it chooses as it would from the server's own list.
\<close>

theorem version_negotiation:
  assumes "connectionID \<noteq> 0" "\<forall>v \<in> set versions. 0 \<le> v \<and> v < 1000"
  shows "\<exists>hdr. ParsePublicHeader (ComposeVersionNegotiation connectionID versions)
        PerspectiveServer v = Inr (hdr, [])
    \<and> ph_ConnectionID hdr = connectionID \<and> ph_VersionFlag hdr
    \<and> ph_SupportedVersions hdr = versions
    \<and> ChooseSupportedVersion SupportedVersions (ph_SupportedVersions hdr) =
        ChooseSupportedVersion SupportedVersions versions"
proof -
  let ?b = "concat (map (\<lambda>v. WriteUint32 littleEndian (VersionNumberToTag v)) versions)"
  have l: "length ?b mod 4 = 0" by (simp only: length_versions) simp
  obtain bs where bs: "PublicHeader_Write (emptyHeader\<lparr> ph_ConnectionID := connectionID,
      ph_PacketNumber := 1, ph_VersionFlag := True \<rparr>) VersionWhatever PerspectiveServer = Inr bs"
    "ParsePublicHeader (bs @ ?b) PerspectiveServer v = Inr (emptyHeader\<lparr> ph_ConnectionID := connectionID,
        ph_VersionFlag := True, ph_SupportedVersions := readVersions ?b \<rparr>, [])"
    using negotiationHeader_parse [OF assms(1) l] by blast
  then show ?thesis using readVersions_written [of versions] assms(2)
    by (simp add: ComposeVersionNegotiation_def Let_def)
qed

theorem version_negotiation_witness:
  "\<exists>hdr. ParsePublicHeader (ComposeVersionNegotiation 5 [512, 39]) PerspectiveServer 0 = Inr (hdr, [])
     \<and> ph_SupportedVersions hdr = [512, 39]"
  using version_negotiation [of 5 "[512, 39]" 0] by auto

end
