(* ===== verification/Qerr.thy ===== *)
theory Qerr
  imports Frames
begin

text \<open>
  Error values as strings (\<open>qerr/quic_error.go\<close> and the generated
  \<open>qerr/errorcode_string.go\<close>), which the packet unpacker puts into the reason of the
  errors it wraps, and the conversion to a \<open>QuicError\<close>.
\<close>

section \<open>Formatting of numbers\<close>

text \<open>The verbs \<open>%d\<close> and \<open>%x\<close> of \<open>fmt.Sprintf\<close> for unsigned numbers.\<close>

definition digitChar :: "nat \<Rightarrow> char" where
  "digitChar d = (if d < 10 then char_of (48 + d) else char_of (87 + d))"

function formatBase :: "nat \<Rightarrow> nat \<Rightarrow> string" where
  "formatBase base n =
     (if base < 2 \<or> n < base then [digitChar n]
      else formatBase base (n div base) @ [digitChar (n mod base)])"
  by pat_completeness auto
termination
  by (relation "measure snd") auto

declare formatBase.simps [simp del]

section \<open>The names of the error codes\<close>

definition ErrorCode_name_0 :: string where
  "ErrorCode_name_0 =
     ''InternalErrorStreamDataAfterTerminationInvalidPacketHeaderInvalidFrame''
     @ ''DataInvalidFecDataInvalidRstStreamDataInvalidConnectionCloseDataInvali''
     @ ''dGoawayDataInvalidAckDataInvalidVersionNegotiationPacketInvalidPublicR''
     @ ''stPacketDecryptionFailureEncryptionFailurePacketTooLarge''"

definition ErrorCode_name_1 :: string where
  "ErrorCode_name_1 =
     ''PeerGoingAwayInvalidStreamIDTooManyOpenStreamsPublicResetInvalidVersio''
     @ ''n''"

definition ErrorCode_name_2 :: string where
  "ErrorCode_name_2 =
     ''InvalidHeaderIDInvalidNegotiatedValueDecompressionFailureNetworkIdleTi''
     @ ''meoutErrorMigratingAddressPacketWriteErrorHandshakeFailedCryptoTagsOut''
     @ ''OfOrderCryptoTooManyEntriesCryptoInvalidValueLengthCryptoMessageAfterH''
     @ ''andshakeCompleteInvalidCryptoMessageTypeInvalidCryptoMessageParameterC''
     @ ''ryptoMessageParameterNotFoundCryptoMessageParameterNoOverlapCryptoMess''
     @ ''ageIndexNotFoundCryptoInternalErrorCryptoVersionNotSupportedCryptoNoSu''
     @ ''pportCryptoTooManyRejectsProofInvalidCryptoDuplicateTagCryptoEncryptio''
     @ ''nLevelIncorrectCryptoServerConfigExpiredInvalidStreamData''"

definition ErrorCode_name_3 :: string where
  "ErrorCode_name_3 =
     ''MissingPayloadInvalidPriorityEmptyStreamFrameNoFinPacketReadErrorInval''
     @ ''idChannelIDSignatureCryptoSymmetricKeySetupFailedCryptoMessageWhileVal''
     @ ''idatingClientHelloVersionNegotiationMismatchInvalidHeadersStreamDataIn''
     @ ''validWindowUpdateDataInvalidBlockedDataFlowControlReceivedTooMuchDataI''
     @ ''nvalidStopWaitingDataUnencryptedStreamDataConnectionIPPooledFlowContro''
     @ ''lSentTooMuchDataFlowControlInvalidWindowCryptoUpdateBeforeHandshakeCom''
     @ ''plete''"

definition ErrorCode_name_4 :: string where
  "ErrorCode_name_4 =
     ''HandshakeTimeoutTooManyOutstandingSentPacketsTooManyOutstandingReceive''
     @ ''dPacketsConnectionCancelledBadPacketLossRateCryptoHandshakeStatelessRe''
     @ ''jectPublicResetsPostHandshakeTimeoutsWithOpenStreamsFailedToSerializeP''
     @ ''acketTooManyAvailableStreamsUnencryptedFecDataInvalidPathCloseDataBadM''
     @ ''ultipathFlagIPAddressChangedConnectionMigrationNoMigratableStreamsConn''
     @ ''ectionMigrationTooManyChangesConnectionMigrationNoNewNetworkConnection''
     @ ''MigrationNonMigratableStreamTooManyRtosErrorMigratingPortOverlappingSt''
     @ ''reamDataAttemptToSendUnencryptedStreamData''"

definition ErrorCode_name_5 :: string where
  "ErrorCode_name_5 =
     ''HeadersStreamDataDecompressFailure''"

definition ErrorCode_index_0 :: "nat list" where
  "ErrorCode_index_0 = [0, 13, 39, 58, 74, 88, 108, 134, 151, 165, 196, 218, 235, 252, 266]"

definition ErrorCode_index_1 :: "nat list" where
  "ErrorCode_index_1 = [0, 13, 28, 46, 57, 71]"

definition ErrorCode_index_2 :: "nat list" where
  "ErrorCode_index_2 = [0, 15, 37, 57, 75, 96, 112, 127, 147, 167, 191, 226, 250, 279, 309, 340,
     366, 385, 410, 425, 445, 457, 475, 505, 530, 547]"

definition ErrorCode_index_3 :: "nat list" where
  "ErrorCode_index_3 = [0, 14, 29, 50, 65, 90, 119, 158, 184, 208, 231, 249, 279, 301, 322, 340,
     366, 390, 425]"

definition ErrorCode_index_4 :: "nat list" where
  "ErrorCode_index_4 = [0, 16, 45, 78, 97, 114, 144, 169, 192, 215, 238, 256, 276, 292, 308, 346,
     379, 410, 448, 459, 477, 498, 532]"

definition ErrorCode_index_5 :: "nat list" where
  "ErrorCode_index_5 = [0, 34]"

text \<open>\<open>name[index[i]:index[i+1]]\<close>.\<close>

definition nameSlice :: "string \<Rightarrow> nat list \<Rightarrow> nat \<Rightarrow> string" where
  "nameSlice name index i = take (index ! (i + 1) - index ! i) (drop (index ! i) name)"

definition errorName :: "nat \<Rightarrow> string" where
  "errorName i =
     (if 1 \<le> i \<and> i \<le> 14 then nameSlice ErrorCode_name_0 ErrorCode_index_0 (i - 1)
      else if 16 \<le> i \<and> i \<le> 20 then nameSlice ErrorCode_name_1 ErrorCode_index_1 (i - 16)
      else if 22 \<le> i \<and> i \<le> 46 then nameSlice ErrorCode_name_2 ErrorCode_index_2 (i - 22)
      else if 48 \<le> i \<and> i \<le> 65 then nameSlice ErrorCode_name_3 ErrorCode_index_3 (i - 48)
      else if 67 \<le> i \<and> i \<le> 88 then nameSlice ErrorCode_name_4 ErrorCode_index_4 (i - 67)
      else if i = 97 then ErrorCode_name_5
      else ''ErrorCode('' @ formatBase 10 i @ '')'')"

definition ErrorCode_String :: "ErrorCode \<Rightarrow> string" where
  "ErrorCode_String e = errorName (unat e)"

section \<open>Errors\<close>

text \<open>The method \<open>Error()\<close> of the error values; \<open>io.EOF\<close> has the text \<open>EOF\<close>.\<close>

fun Error_string :: "go_error \<Rightarrow> string" where
  "Error_string IoEOF = ''EOF''"
| "Error_string IoErrUnexpectedEOF = ''unexpected EOF''"
| "Error_string (GoErr msg) = msg"
| "Error_string (QuicErrCode c) = ErrorCode_String c"
| "Error_string (QuicError c msg) = ErrorCode_String c @ '': '' @ msg"
| "Error_string (Panic msg) = msg"

definition NetworkIdleTimeout :: ErrorCode where "NetworkIdleTimeout = 25"
definition HandshakeTimeout :: ErrorCode where "HandshakeTimeout = 67"
definition TimeoutsWithOpenStreams :: ErrorCode where "TimeoutsWithOpenStreams = 74"

definition QuicError_Timeout :: "ErrorCode \<Rightarrow> bool" where
  "QuicError_Timeout c \<longleftrightarrow>
     c = NetworkIdleTimeout \<or> c = HandshakeTimeout \<or> c = TimeoutsWithOpenStreams"

text \<open>Code and message of \<open>ToQuicError\<close>; a panic is no error value and has none.\<close>

fun ToQuicError :: "go_error \<Rightarrow> ErrorCode \<times> string" where
  "ToQuicError (QuicError c msg) = (c, msg)"
| "ToQuicError (QuicErrCode c) = (c, [])"
| "ToQuicError e = (InternalError, Error_string e)"

text \<open>
  \<open>if err != nil { err = qerr.Error(code, err.Error()) }\<close> after a call; a panic is not
  caught.
\<close>

fun wrapErr :: "ErrorCode \<Rightarrow> go_error + 'a \<Rightarrow> go_error + 'a" where
  "wrapErr c (Inl (Panic msg)) = Inl (Panic msg)"
| "wrapErr c (Inl e) = Inl (QuicError c (Error_string e))"
| "wrapErr c (Inr x) = Inr x"

lemma wrapErr_Inr_iff [simp]: "wrapErr c m = Inr x \<longleftrightarrow> m = Inr x"
  by (cases "(c, m)" rule: wrapErr.cases) auto

end
