(* ===== verification/Unpacker.thy ===== *)
theory Unpacker
  imports WireStream WireAck PublicHeader Qerr
begin

unbundle bit_operations_syntax

text \<open>
  The frames of a packet: writing them one after the other, as the packer does, and
  reading them back in the packet unpacker (\<open>packet_unpacker.go\<close>). Decryption is a
  parameter.
\<close>

section \<open>Frames\<close>

datatype Frame =
    FStream StreamFrame
  | FAck AckFrame
  | FRstStream RstStreamFrame
  | FConnectionClose ConnectionCloseFrame
  | FGoaway GoawayFrame
  | FWindowUpdate WindowUpdateFrame
  | FBlocked BlockedFrame
  | FStopWaiting StopWaitingFrame
  | FPing PingFrame
  | FAddAddress AddAddressFrame
  | FClosePath ClosePathFrame
  | FPaths PathsFrame

text \<open>The interface \<open>wire.Frame\<close>; the time is that of writing an ACK.\<close>

fun Frame_Write :: "Time \<Rightarrow> Frame \<Rightarrow> VersionNumber \<Rightarrow> go_error + byte list" where
  "Frame_Write now (FStream f) v = StreamFrame_Write f v"
| "Frame_Write now (FAck f) v = map_sum id fst (AckFrame_Write now f v)"
| "Frame_Write now (FRstStream f) v = RstStreamFrame_Write f v"
| "Frame_Write now (FConnectionClose f) v = ConnectionCloseFrame_Write f v"
| "Frame_Write now (FGoaway f) v = GoawayFrame_Write f v"
| "Frame_Write now (FWindowUpdate f) v = WindowUpdateFrame_Write f v"
| "Frame_Write now (FBlocked f) v = BlockedFrame_Write f v"
| "Frame_Write now (FStopWaiting f) v = StopWaitingFrame_Write f v"
| "Frame_Write now (FPing f) v = PingFrame_Write f v"
| "Frame_Write now (FAddAddress f) v = AddAddressFrame_Write f v"
| "Frame_Write now (FClosePath f) v = ClosePathFrame_Write f v"
| "Frame_Write now (FPaths f) v = PathsFrame_Write f v"

fun Frame_MinLength :: "Frame \<Rightarrow> VersionNumber \<Rightarrow> go_error + ByteCount" where
  "Frame_MinLength (FStream f) v = StreamFrame_MinLength f v"
| "Frame_MinLength (FAck f) v = AckFrame_MinLength f v"
| "Frame_MinLength (FRstStream f) v = RstStreamFrame_MinLength f v"
| "Frame_MinLength (FConnectionClose f) v = ConnectionCloseFrame_MinLength f v"
| "Frame_MinLength (FGoaway f) v = GoawayFrame_MinLength f v"
| "Frame_MinLength (FWindowUpdate f) v = WindowUpdateFrame_MinLength f v"
| "Frame_MinLength (FBlocked f) v = BlockedFrame_MinLength f v"
| "Frame_MinLength (FStopWaiting f) v = StopWaitingFrame_MinLength f v"
| "Frame_MinLength (FPing f) v = PingFrame_MinLength f v"
| "Frame_MinLength (FAddAddress f) v = AddAddressFrame_MinLength f v"
| "Frame_MinLength (FClosePath f) v = ClosePathFrame_MinLength f v"
| "Frame_MinLength (FPaths f) v = PathsFrame_MinLength f v"

text \<open>The loop of the packer that writes the frames of a packet.\<close>

fun writeFrames :: "Time \<Rightarrow> Frame list \<Rightarrow> VersionNumber \<Rightarrow> go_error + byte list" where
  "writeFrames now [] v = Inr []"
| "writeFrames now (f # fs) v =
     okThen (Frame_Write now f v) (\<lambda>b. okThen (writeFrames now fs v) (\<lambda>bs. Inr (b @ bs)))"

section \<open>Unpacking\<close>

definition frameOf :: "('a \<Rightarrow> Frame) \<Rightarrow> go_error + ('a \<times> reader) \<Rightarrow> go_error + (Frame \<times> reader)" where
  "frameOf c m = andThen m (\<lambda>f r. Inr (c f, r))"

text \<open>A frame on a stream other than the crypto stream must come in an encrypted packet.\<close>

definition checkStreamEncryption ::
  "EncryptionLevel \<Rightarrow> go_error + (StreamFrame \<times> reader) \<Rightarrow> go_error + (StreamFrame \<times> reader)" where
  "checkStreamEncryption encryptionLevel m =
     andThen m (\<lambda>f r.
       if sf_StreamID f \<noteq> 1 \<and> encryptionLevel \<le> EncryptionUnencrypted
       then Inl (QuicError UnencryptedStreamData
              (''received unencrypted stream data on stream '' @ formatBase 10 (unat (sf_StreamID f))))
       else Inr (f, r))"

text \<open>One round of the loop on a frame that is not padding; \<open>typeByte\<close> is its first byte.\<close>

definition parseFrame :: "VersionNumber \<Rightarrow> PublicHeader \<Rightarrow> EncryptionLevel \<Rightarrow> byte \<Rightarrow> reader
    \<Rightarrow> go_error + (Frame \<times> reader)" where
  "parseFrame version hdr encryptionLevel typeByte r =
     (if typeByte AND 0x80 = 0x80
      then frameOf FStream (checkStreamEncryption encryptionLevel
             (wrapErr InvalidStreamData (ParseStreamFrame r version)))
      else if typeByte AND 0xc0 = 0x40
      then frameOf FAck (wrapErr InvalidAckData (ParseAckFrame r version))
      else if typeByte AND 0xe0 = 0x20
      then Inl (GoErr ''unimplemented: CONGESTION_FEEDBACK'')
      else if typeByte = 0x01
      then frameOf FRstStream (wrapErr InvalidRstStreamData (ParseRstStreamFrame r version))
      else if typeByte = 0x02
      then frameOf FConnectionClose
             (wrapErr InvalidConnectionCloseData (ParseConnectionCloseFrame r version))
      else if typeByte = 0x03
      then frameOf FGoaway (wrapErr InvalidGoawayData (ParseGoawayFrame r version))
      else if typeByte = 0x04
      then frameOf FWindowUpdate (wrapErr InvalidWindowUpdateData (ParseWindowUpdateFrame r version))
      else if typeByte = 0x05
      then frameOf FBlocked (wrapErr InvalidBlockedData (ParseBlockedFrame r version))
      else if typeByte = 0x06
      then frameOf FStopWaiting (wrapErr InvalidStopWaitingData
             (ParseStopWaitingFrame r (ph_PacketNumber hdr) (ph_PacketNumberLen hdr) version))
      else if typeByte = 0x07 then frameOf FPing (ParsePingFrame r version)
      else if typeByte = 0x10 then frameOf FAddAddress (ParseAddAddressFrame r version)
      else if typeByte = 0x11 then frameOf FClosePath (ParseClosePathFrame r version)
      else if typeByte = 0x12 then frameOf FPaths (ParsePathsFrame r version)
      else Inl (QuicError InvalidFrameData
             (''unknown type byte 0x'' @ formatBase 16 (unat typeByte))))"

lemma frameOf_Inr_iff: "frameOf c m = Inr (x, r) \<longleftrightarrow> (\<exists>f. m = Inr (f, r) \<and> x = c f)"
  by (auto simp: frameOf_def andThen_Inr_iff)

lemma parseFrame_progress:
  "parseFrame version hdr level t r = Inr (f, r') \<Longrightarrow> length r' < length r"
  by (auto simp: parseFrame_def frameOf_Inr_iff checkStreamEncryption_def ParseStreamFrame_InrD
      ParseAckFrame_InrD ParseClosePathFrame_InrD rst.progress ccf.progress goaway.progress
      wuf.progress blocked.progress swf.progress ping.progress addr.progress paths.progress
      elim!: andThen_InrE split: if_splits)

function unpackFrames :: "VersionNumber \<Rightarrow> PublicHeader \<Rightarrow> EncryptionLevel \<Rightarrow> reader \<Rightarrow> Frame list
    \<Rightarrow> go_error + Frame list" where
  "unpackFrames version hdr level [] fs = Inr fs"
| "unpackFrames version hdr level (typeByte # r) fs =
     (if typeByte = 0x0 then unpackFrames version hdr level r fs
      else andThen (parseFrame version hdr level typeByte (typeByte # r)) (\<lambda>frame r.
             unpackFrames version hdr level r (fs @ [frame])))"
  by pat_completeness auto
termination
  by (relation "measure (\<lambda>(_, _, _, r, _). length r)") (auto dest!: parseFrame_progress)

record packetUnpacker =
  pu_version :: VersionNumber
  pu_Open :: "byte list \<Rightarrow> PacketNumber \<Rightarrow> byte list \<Rightarrow> go_error + (byte list \<times> EncryptionLevel)"

record unpackedPacket =
  up_encryptionLevel :: EncryptionLevel
  up_frames :: "Frame list"

definition Unpack :: "packetUnpacker \<Rightarrow> byte list \<Rightarrow> PublicHeader \<Rightarrow> byte list
    \<Rightarrow> go_error + unpackedPacket" where
  "Unpack u publicHeaderBinary hdr data =
     andThen (wrapErr DecryptionFailure
         (pu_Open u data (ph_PacketNumber hdr) publicHeaderBinary)) (\<lambda>decrypted encryptionLevel.
       if decrypted = [] then Inl (QuicErrCode MissingPayload)
       else okThen (unpackFrames (pu_version u) hdr encryptionLevel decrypted []) (\<lambda>fs.
              Inr \<lparr> up_encryptionLevel = encryptionLevel, up_frames = fs \<rparr>))"

section \<open>Packets can be read back\<close>

text \<open>The first byte of each frame selects its parser.\<close>

lemma first_bytes:
  "RstStreamFrame_Write f1 v = Inr bs \<Longrightarrow> \<exists>r. bs = 0x01 # r"
  "ConnectionCloseFrame_Write f2 v = Inr bs \<Longrightarrow> \<exists>r. bs = 0x02 # r"
  "GoawayFrame_Write f3 v = Inr bs \<Longrightarrow> \<exists>r. bs = 0x03 # r"
  "WindowUpdateFrame_Write f4 v = Inr bs \<Longrightarrow> \<exists>r. bs = 0x04 # r"
  "BlockedFrame_Write f5 v = Inr bs \<Longrightarrow> \<exists>r. bs = 0x05 # r"
  "StopWaitingFrame_Write f6 v = Inr bs \<Longrightarrow> \<exists>r. bs = 0x06 # r"
  "PingFrame_Write f7 v = Inr bs \<Longrightarrow> \<exists>r. bs = 0x07 # r"
  "AddAddressFrame_Write f8 v = Inr bs \<Longrightarrow> \<exists>r. bs = 0x10 # r"
  "ClosePathFrame_Write f9 v = Inr bs \<Longrightarrow> \<exists>r. bs = 0x11 # r"
  "PathsFrame_Write f10 v = Inr bs \<Longrightarrow> \<exists>r. bs = 0x12 # r"
  by (auto simp: RstStreamFrame_Write_def ConnectionCloseFrame_Write_def GoawayFrame_Write_def
      WindowUpdateFrame_Write_def BlockedFrame_Write_def StopWaitingFrame_Write_def
      PingFrame_Write_def AddAddressFrame_Write_def ClosePathFrame_Write_def PathsFrame_Write_def
      Let_def elim!: okThen_InrE split: if_splits option.splits)

fun Frame_valid :: "PublicHeader \<Rightarrow> EncryptionLevel \<Rightarrow> Frame \<Rightarrow> bool" where
  "Frame_valid hdr level (FStream f) \<longleftrightarrow>
     StreamFrame_valid f \<and> (sf_StreamID f = 1 \<or> EncryptionUnencrypted < level)"
| "Frame_valid hdr level (FAck f) \<longleftrightarrow>
     ackSendable (ack_LargestAcked f) (ack_LowestAcked f) (ack_AckRanges f)"
| "Frame_valid hdr level (FConnectionClose f) \<longleftrightarrow> length (ccf_ReasonPhrase f) \<le> 1350"
| "Frame_valid hdr level (FGoaway f) \<longleftrightarrow> length (goaway_ReasonPhrase f) \<le> 1350"
| "Frame_valid hdr level (FStopWaiting f) \<longleftrightarrow>
     StopWaitingFrame_valid (ph_PacketNumber hdr) (ph_PacketNumberLen hdr) f"
| "Frame_valid hdr level (FAddAddress f) \<longleftrightarrow> AddAddressFrame_valid f"
| "Frame_valid hdr level (FClosePath f) \<longleftrightarrow>
     ackSendable (cpf_LargestAcked f) (cpf_LowestAcked f) (cpf_AckRanges f)"
| "Frame_valid hdr level (FPaths f) \<longleftrightarrow> PathsFrame_valid f \<and> unat (NumPaths f) < 85"
| "Frame_valid hdr level f \<longleftrightarrow> True"

fun Frame_carried :: "Time \<Rightarrow> Frame \<Rightarrow> Frame" where
  "Frame_carried now (FAck f) = FAck (AckFrame_carried now f)"
| "Frame_carried now (FStopWaiting f) = FStopWaiting (StopWaitingFrame_carried f)"
| "Frame_carried now (FClosePath f) = FClosePath (ClosePathFrame_carried f)"
| "Frame_carried now (FPaths f) = FPaths (PathsFrame_carried f)"
| "Frame_carried now f = f"

text \<open>A STREAM frame without data length extends to the end of the packet.\<close>

fun delimited :: "Frame \<Rightarrow> bool" where
  "delimited (FStream f) \<longleftrightarrow> sf_DataLenPresent f"
| "delimited f \<longleftrightarrow> True"

lemmas coded = parseFrame_def frameOf_def

lemma Frame_write_parse:
  assumes "Frame_valid hdr level f" "delimited f \<or> r = []"
  shows "\<exists>bs. Frame_Write now f v = Inr bs \<and> bs \<noteq> [] \<and> hd bs \<noteq> 0
    \<and> parseFrame v hdr level (hd bs) (bs @ r) = Inr (Frame_carried now f, r)"
proof (cases f)
  case (FStream s)
  then have s: "StreamFrame_valid s" "sf_DataLenPresent s \<or> r = []"
    "sf_StreamID s = 1 \<or> EncryptionUnencrypted < level" using assms by auto
  obtain bs where bs: "StreamFrame_Write s v = Inr bs" "ParseStreamFrame (bs @ r) v = Inr (s, r)"
    "hd bs AND 0x80 > 0" "bs \<noteq> []"
    using StreamFrame_write_parse [OF s(1,2)] by metis
  then obtain t b where b: "bs = t # b" by (cases bs) auto
  have "t AND 2 ^ n = (if bit t n then 2 ^ n else 0)" for n
    by (rule bit_eqI) (auto simp: bit_and_iff bit_exp_iff)
  from this [of 7] have "t AND 0x80 = 0x80" using bs(3) b by (auto split: if_splits)
  then show ?thesis using bs b s(3) FStream
    by (auto simp: coded checkStreamEncryption_def linorder_not_le)
next
  case (FAck a)
  then have a: "ackSendable (ack_LargestAcked a) (ack_LowestAcked a) (ack_AckRanges a)"
    using assms by simp
  obtain bs where bs: "AckFrame_Write now a v =
      Inr (bs, a\<lparr> ack_DelayTime := timeSub now (ack_PacketReceivedTime a) \<rparr>)"
    "ParseAckFrame (bs @ r) v = Inr (AckFrame_carried now a, r)"
    "bs \<noteq> []" "hd bs AND 0x80 = 0" "hd bs AND 0xc0 = 0x40"
    using AckFrame_write_parse [OF a] by metis
  then obtain t b where b: "bs = t # b" by (cases bs) auto
  have "t \<noteq> 0" using bs(5) b by auto
  with bs b show ?thesis
    by (auto simp: coded FAck)
next
  case (FRstStream x)
  obtain bs where "RstStreamFrame_Write x v = Inr bs" "ParseRstStreamFrame (bs @ r) v = Inr (x, r)"
    using rst.write_parse [of x v] by auto
  with first_bytes(1) [of x v bs] show ?thesis by (auto simp: FRstStream coded)
next
  case (FConnectionClose x)
  obtain bs where "ConnectionCloseFrame_Write x v = Inr bs"
    "ParseConnectionCloseFrame (bs @ r) v = Inr (x, r)"
    using ccf.write_parse [of x v] assms(1) FConnectionClose by auto
  with first_bytes(2) [of x v bs] show ?thesis by (auto simp: FConnectionClose coded)
next
  case (FGoaway x)
  obtain bs where "GoawayFrame_Write x v = Inr bs" "ParseGoawayFrame (bs @ r) v = Inr (x, r)"
    using goaway.write_parse [of x v] assms(1) FGoaway by auto
  with first_bytes(3) [of x v bs] show ?thesis by (auto simp: FGoaway coded)
next
  case (FWindowUpdate x)
  obtain bs where "WindowUpdateFrame_Write x v = Inr bs"
    "ParseWindowUpdateFrame (bs @ r) v = Inr (x, r)"
    using wuf.write_parse [of x v] by auto
  with first_bytes(4) [of x v bs] show ?thesis by (auto simp: FWindowUpdate coded)
next
  case (FBlocked x)
  obtain bs where "BlockedFrame_Write x v = Inr bs" "ParseBlockedFrame (bs @ r) v = Inr (x, r)"
    using blocked.write_parse [of x v] by auto
  with first_bytes(5) [of x v bs] show ?thesis by (auto simp: FBlocked coded)
next
  case (FStopWaiting x)
  obtain bs where "StopWaitingFrame_Write x v = Inr bs"
    "ParseStopWaitingFrame (bs @ r) (ph_PacketNumber hdr) (ph_PacketNumberLen hdr) v =
      Inr (StopWaitingFrame_carried x, r)"
    using swf.write_parse [of "ph_PacketNumber hdr" "ph_PacketNumberLen hdr" x v] assms(1)
      FStopWaiting by auto
  with first_bytes(6) [of x v bs] show ?thesis by (auto simp: FStopWaiting coded)
next
  case (FPing x)
  obtain bs where "PingFrame_Write x v = Inr bs" "ParsePingFrame (bs @ r) v = Inr (x, r)"
    using ping.write_parse [of x v] by auto
  with first_bytes(7) [of x v bs] show ?thesis by (auto simp: FPing coded)
next
  case (FAddAddress x)
  obtain bs where "AddAddressFrame_Write x v = Inr bs" "ParseAddAddressFrame (bs @ r) v = Inr (x, r)"
    using addr.write_parse [of x v] assms(1) FAddAddress by auto
  with first_bytes(8) [of x v bs] show ?thesis by (auto simp: FAddAddress coded)
next
  case (FClosePath x)
  obtain bs where "ClosePathFrame_Write x v = Inr bs"
    "ParseClosePathFrame (bs @ r) v = Inr (ClosePathFrame_carried x, r)"
    using cpf.write_parse [of x v] assms(1) FClosePath by auto
  with first_bytes(9) [of x v bs] show ?thesis by (auto simp: FClosePath coded)
next
  case (FPaths x)
  obtain bs where "PathsFrame_Write x v = Inr bs"
    "ParsePathsFrame (bs @ r) v = Inr (PathsFrame_carried x, r)"
    using paths.write_parse [of x v] assms(1) FPaths by auto
  with first_bytes(10) [of x v bs] show ?thesis by (auto simp: FPaths coded)
qed

lemma unpackFrames_write:
  assumes "\<And>f. f \<in> set fs \<Longrightarrow> Frame_valid hdr level f" "\<And>f. f \<in> set (butlast fs) \<Longrightarrow> delimited f"
  shows "\<exists>bs. writeFrames now fs v = Inr bs \<and> (bs = [] \<longleftrightarrow> fs = [])
    \<and> unpackFrames v hdr level bs acc = Inr (acc @ map (Frame_carried now) fs)"
  using assms
proof (induction fs arbitrary: acc)
  case (Cons f fs)
  have "\<exists>bs. writeFrames now fs v = Inr bs \<and> (bs = [] \<longleftrightarrow> fs = [])
    \<and> unpackFrames v hdr level bs (acc @ [Frame_carried now f]) =
        Inr ((acc @ [Frame_carried now f]) @ map (Frame_carried now) fs)"
    using Cons.prems by (intro Cons.IH) (auto, cases fs, auto)
  then obtain bs where bs: "writeFrames now fs v = Inr bs" "bs = [] \<longleftrightarrow> fs = []"
    "unpackFrames v hdr level bs (acc @ [Frame_carried now f]) =
        Inr (acc @ map (Frame_carried now) (f # fs))" by auto
  have "delimited f \<or> bs = []" using Cons.prems(2) bs(2) by (auto split: if_splits)
  with Frame_write_parse [of hdr level f bs now v] Cons.prems(1) obtain b where
    b: "Frame_Write now f v = Inr b" "b \<noteq> []" "hd b \<noteq> 0"
    "parseFrame v hdr level (hd b) (b @ bs) = Inr (Frame_carried now f, bs)" by auto
  then obtain t b' where "b = t # b'" by (cases b) auto
  with bs b show ?case by simp
qed simp

text \<open>What the unpacker accepts.\<close>

lemma parseFrame_stream_encrypted:
  "parseFrame v hdr level t r = Inr (FStream s, r') \<Longrightarrow>
   sf_StreamID s = 1 \<or> EncryptionUnencrypted < level"
  by (auto simp: parseFrame_def frameOf_Inr_iff checkStreamEncryption_def linorder_not_le
      elim!: andThen_InrE split: if_splits)

lemma parseFrame_ack:
  "parseFrame v hdr level t r = Inr (FAck a, r') \<Longrightarrow>
   ackRanges_wf (ack_LargestAcked a) (ack_LowestAcked a) (ack_AckRanges a)"
  using ParseAckFrame_InrD
  by (fastforce simp: parseFrame_def frameOf_Inr_iff checkStreamEncryption_def
      elim!: andThen_InrE split: if_splits)

lemma parseFrame_stream:
  "parseFrame v hdr level t r = Inr (FStream s, r') \<Longrightarrow> StreamFrame_valid s"
  using ParseStreamFrame_InrD
  by (fastforce simp: parseFrame_def frameOf_Inr_iff checkStreamEncryption_def
      elim!: andThen_InrE split: if_splits)

fun Frame_accepted :: "EncryptionLevel \<Rightarrow> Frame \<Rightarrow> bool" where
  "Frame_accepted level (FStream s) \<longleftrightarrow>
     (sf_StreamID s = 1 \<or> EncryptionUnencrypted < level)
     \<and> (sf_Data s \<noteq> [] \<or> sf_FinBit s) \<and> unat (sf_Offset s) + length (sf_Data s) < 2 ^ 64"
| "Frame_accepted level (FAck a) \<longleftrightarrow>
     ackRanges_wf (ack_LargestAcked a) (ack_LowestAcked a) (ack_AckRanges a)"
| "Frame_accepted level f \<longleftrightarrow> True"

lemma parseFrame_accepted:
  assumes "parseFrame v hdr level t r = Inr (f, r')"
  shows "Frame_accepted level f"
  using assms parseFrame_stream_encrypted parseFrame_ack parseFrame_stream
  by (cases f) (auto simp: StreamFrame_valid_def)

lemma unpackFrames_accepted:
  assumes "unpackFrames v hdr level r acc = Inr fs" "\<forall>f \<in> set acc. Frame_accepted level f"
  shows "\<forall>f \<in> set fs. Frame_accepted level f"
  using assms
proof (induction v hdr level r acc rule: unpackFrames.induct)
  case (2 v hdr level t r acc)
  then show ?case
    by (auto elim!: andThen_InrE dest: parseFrame_accepted split: if_splits)
qed simp

section \<open>Properties\<close>

text \<open>
  C1. Packet payloads: when decryption yields the bytes that the packer wrote for a
  non-empty list of frames, each of which can be encoded and only the last of which may
  be a STREAM frame without data length, the unpacker returns exactly these frames in
  order, up to the precision of delays and the ranges that an ACK has room for.
\<close>

theorem Unpack_writeFrames:
  assumes "fs \<noteq> []" "\<forall>f \<in> set fs. Frame_valid hdr level f" "\<forall>f \<in> set (butlast fs). delimited f"
    and "\<forall>payload. writeFrames now fs (pu_version u) = Inr payload \<longrightarrow>
      pu_Open u data (ph_PacketNumber hdr) raw = Inr (payload, level)"
  shows "Unpack u raw hdr data =
    Inr \<lparr> up_encryptionLevel = level, up_frames = map (Frame_carried now) fs \<rparr>"
proof -
  obtain bs where "writeFrames now fs (pu_version u) = Inr bs" "bs \<noteq> []"
    "unpackFrames (pu_version u) hdr level bs [] = Inr (map (Frame_carried now) fs)"
    using unpackFrames_write [of fs hdr level now "pu_version u" "[]"] assms(1-3) by auto
  with assms(4) show ?thesis by (simp add: Unpack_def)
qed

theorem Unpack_writeFrames_witness:
  "let s = \<lparr> sf_StreamID = 3, sf_FinBit = False, sf_DataLenPresent = False, sf_Offset = 0,
             sf_Data = [7, 8] \<rparr>;
       fs = [FPing PingFrame, FStream s];
       u = \<lparr> pu_version = 512, pu_Open = \<lambda>src pn ad. Inr (src, EncryptionForwardSecure) \<rparr>
   in Unpack u [] emptyHeader (projr (writeFrames 0 fs 512)) =
        Inr \<lparr> up_encryptionLevel = EncryptionForwardSecure, up_frames = fs \<rparr>"
proof -
  let ?s = "\<lparr> sf_StreamID = 3, sf_FinBit = False, sf_DataLenPresent = False, sf_Offset = 0,
             sf_Data = [7, 8] \<rparr>"
  let ?fs = "[FPing PingFrame, FStream ?s]"
  let ?u = "\<lparr> pu_version = 512, pu_Open = \<lambda>src pn ad. Inr (src, EncryptionForwardSecure) \<rparr>"
  have "\<forall>f \<in> set ?fs. Frame_valid emptyHeader EncryptionForwardSecure f"
    by (simp add: StreamFrame_valid_def less_EncryptionLevel_def)
  from Unpack_writeFrames [OF _ this, of 0 ?u "projr (writeFrames 0 ?fs 512)" "[]"] show ?thesis
    by (simp add: Let_def)
qed

text \<open>
  C4. Unpacker safety: from an arbitrary decrypted payload, data on a stream other than
  the crypto stream is only accepted in a packet that was encrypted; accepted STREAM
  frames do not overflow the offset space and accepted ACKs have ordered, separated
  ranges. An empty payload is never accepted.
\<close>

theorem Unpack_safe:
  assumes "Unpack u raw hdr data = Inr p"
  shows "(\<exists>payload. pu_Open u data (ph_PacketNumber hdr) raw = Inr (payload, up_encryptionLevel p)
      \<and> payload \<noteq> [])
    \<and> (\<forall>f \<in> set (up_frames p). Frame_accepted (up_encryptionLevel p) f)"
proof -
  from assms obtain payload level fs where p: "pu_Open u data (ph_PacketNumber hdr) raw = Inr (payload, level)"
    "payload \<noteq> []" "unpackFrames (pu_version u) hdr level payload [] = Inr fs"
    "p = \<lparr> up_encryptionLevel = level, up_frames = fs \<rparr>"
    by (auto simp: Unpack_def elim!: andThen_InrE okThen_InrE split: if_splits)
  with unpackFrames_accepted [OF p(3)] show ?thesis by simp
qed

theorem Unpack_safe_witness:
  "\<exists>p. Unpack \<lparr> pu_version = 512, pu_Open = \<lambda>src pn ad. Inr (src, EncryptionUnencrypted) \<rparr> []
       emptyHeader [0, 7, 0] = Inr p
     \<and> (\<forall>f \<in> set (up_frames p). Frame_accepted (up_encryptionLevel p) f)"
proof -
  have "Unpack \<lparr> pu_version = 512, pu_Open = \<lambda>src pn ad. Inr (src, EncryptionUnencrypted) \<rparr> []
       emptyHeader [0, 7, 0] = Inr \<lparr> up_encryptionLevel = EncryptionUnencrypted, up_frames = [FPing PingFrame] \<rparr>"
    by (simp add: Unpack_def parseFrame_def frameOf_def ParsePingFrame_def)
  from Unpack_safe [OF this] this show ?thesis by blast
qed

end
