(* ===== verification/ReceivedHistory.thy ===== *)
theory ReceivedHistory
  imports WireAck Qerr
begin

text \<open>
  The packets received on a path (\<open>ackhandler/received_packet_history.go\<close>): a linked list
  of disjoint packet number intervals, front to back in increasing order, that implements
  a set of packet numbers.
\<close>

section \<open>The history\<close>

record PacketInterval =
  pi_Start :: PacketNumber
  pi_End :: PacketNumber

record receivedPacketHistory =
  rh_ranges :: "PacketInterval list"
  rh_lowestInReceivedPacketNumbers :: PacketNumber

definition TooManyOutstandingReceivedPackets :: ErrorCode where
  "TooManyOutstandingReceivedPackets = 69"

definition errTooManyOutstandingReceivedAckRanges :: go_error where
  "errTooManyOutstandingReceivedAckRanges =
     QuicError TooManyOutstandingReceivedPackets ''Too many outstanding received ACK ranges''"

definition newReceivedPacketHistory :: receivedPacketHistory where
  "newReceivedPacketHistory = \<lparr> rh_ranges = [], rh_lowestInReceivedPacketNumbers = 0 \<rparr>"

text \<open>
  The end of the loop body when a range was extended: it may touch the previous one.
  Here and in the loop the list is read from the back.
\<close>

fun mergeBack :: "PacketInterval \<Rightarrow> PacketInterval list \<Rightarrow> PacketInterval list" where
  "mergeBack el [] = [el]"
| "mergeBack el (prev # before) =
     (if pi_End prev + 1 = pi_Start el then prev\<lparr> pi_End := pi_End el \<rparr> # before
      else el # prev # before)"

fun receivedLoop :: "PacketNumber \<Rightarrow> PacketInterval list \<Rightarrow> PacketInterval list" where
  "receivedLoop p [] = [\<lparr> pi_Start = p, pi_End = p \<rparr>]"
| "receivedLoop p (el # before) =
     (if p \<ge> pi_Start el \<and> p \<le> pi_End el then el # before
      else if pi_End el = p - 1 then mergeBack (el\<lparr> pi_End := p \<rparr>) before
      else if pi_Start el = p + 1 then mergeBack (el\<lparr> pi_Start := p \<rparr>) before
      else if p > pi_End el then \<lparr> pi_Start = p, pi_End = p \<rparr> # el # before
      else el # receivedLoop p before)"

definition history_ReceivedPacket ::
  "PacketNumber \<Rightarrow> receivedPacketHistory \<Rightarrow> go_error + receivedPacketHistory" where
  "history_ReceivedPacket p h =
     (if length (rh_ranges h) \<ge> MaxTrackedReceivedAckRanges
      then Inl errTooManyOutstandingReceivedAckRanges
      else Inr (h\<lparr> rh_ranges := rev (receivedLoop p (rev (rh_ranges h))) \<rparr>))"

text \<open>The loop of \<open>DeleteUpTo\<close> runs from the front.\<close>

fun deleteLoop :: "PacketNumber \<Rightarrow> PacketInterval list \<Rightarrow> PacketInterval list" where
  "deleteLoop p [] = []"
| "deleteLoop p (el # after) =
     (if p \<ge> pi_Start el \<and> p < pi_End el then el\<lparr> pi_Start := p + 1 \<rparr> # deleteLoop p after
      else if pi_End el \<le> p then deleteLoop p after
      else el # after)"

definition DeleteUpTo :: "PacketNumber \<Rightarrow> receivedPacketHistory \<Rightarrow> receivedPacketHistory" where
  "DeleteUpTo p h =
     h\<lparr> rh_lowestInReceivedPacketNumbers :=
          MaxPacketNumber (rh_lowestInReceivedPacketNumbers h) (p + 1),
        rh_ranges := deleteLoop p (rh_ranges h) \<rparr>"

definition GetAckRanges :: "receivedPacketHistory \<Rightarrow> AckRange list" where
  "GetAckRanges h = map (\<lambda>el. \<lparr> ar_First = pi_Start el, ar_Last = pi_End el \<rparr>) (rev (rh_ranges h))"

definition GetHighestAckRange :: "receivedPacketHistory \<Rightarrow> AckRange" where
  "GetHighestAckRange h =
     (if length (rh_ranges h) > 0
      then let r = last (rh_ranges h) in \<lparr> ar_First = pi_Start r, ar_Last = pi_End r \<rparr>
      else \<lparr> ar_First = 0, ar_Last = 0 \<rparr>)"

section \<open>The set it stands for\<close>

definition interval :: "PacketInterval \<Rightarrow> PacketNumber set" where
  "interval el = {p. pi_Start el \<le> p \<and> p \<le> pi_End el}"

definition elems :: "receivedPacketHistory \<Rightarrow> PacketNumber set" where
  "elems h = (\<Union>el \<in> set (rh_ranges h). interval el)"

text \<open>
  The intervals read from the back: non-empty, positive, decreasing, and at least one
  packet number is missing between two of them.
\<close>

fun backInv :: "PacketInterval list \<Rightarrow> bool" where
  "backInv [] = True"
| "backInv [el] = (0 < pi_Start el \<and> pi_Start el \<le> pi_End el)"
| "backInv (el # prev # before) =
     (pi_Start el \<le> pi_End el \<and> unat (pi_End prev) + 1 < unat (pi_Start el)
      \<and> backInv (prev # before))"

definition history_inv :: "receivedPacketHistory \<Rightarrow> bool" where
  "history_inv h \<longleftrightarrow> backInv (rev (rh_ranges h))"

text \<open>A set of packet numbers that is filled one by one and emptied from below.\<close>

locale packet_set =
  fixes empty :: 's
    and add :: "PacketNumber \<Rightarrow> 's \<Rightarrow> go_error + 's"
    and deleteUpTo :: "PacketNumber \<Rightarrow> 's \<Rightarrow> 's"
    and ranges :: "'s \<Rightarrow> AckRange list"
    and members :: "'s \<Rightarrow> PacketNumber set"
    and inv :: "'s \<Rightarrow> bool"
  assumes inv_empty: "inv empty" and members_empty: "members empty = {}"
    and add: "inv s \<Longrightarrow> 0 < p \<Longrightarrow> add p s = Inr s' \<Longrightarrow> inv s' \<and> members s' = insert p (members s)"
    and delete: "inv s \<Longrightarrow> inv (deleteUpTo p s) \<and> members (deleteUpTo p s) = {q \<in> members s. p < q}"
    and ranges: "inv s \<Longrightarrow> desc (ranges s) \<and> (\<forall>b \<in> set (ranges s). 0 < ar_First b)
      \<and> members s = {p. \<exists>b \<in> set (ranges s). ar_First b \<le> p \<and> p \<le> ar_Last b}"
begin

lemma empty_iff: "inv s \<Longrightarrow> ranges s = [] \<longleftrightarrow> members s = {}"
  using ranges [of s] by (cases "ranges s") (auto dest: desc_mem)

text \<open>The first range ends with the largest member, the last one starts with the least.\<close>

lemma largest:
  assumes "inv s" "members s \<noteq> {}"
  shows "ar_Last (hd (ranges s)) \<in> members s" "q \<in> members s \<Longrightarrow> q \<le> ar_Last (hd (ranges s))"
proof -
  from empty_iff [OF assms(1)] assms(2) obtain a rs where r: "ranges s = a # rs"
    by (cases "ranges s") auto
  have d: "desc (a # rs)" "ar_First a \<le> ar_Last a"
    using ranges [OF assms(1)] desc_mem [of "a # rs" a] by (auto simp: r)
  show "ar_Last (hd (ranges s)) \<in> members s" using ranges [OF assms(1)] d(2) by (auto simp: r)
  show "q \<le> ar_Last (hd (ranges s))" if "q \<in> members s"
    using that ranges [OF assms(1)] desc_largest [OF d(1)]
    by (auto simp: r word_le_nat_alt intro: order.trans)
qed

lemma least:
  assumes "inv s" "members s \<noteq> {}"
  shows "ar_First (last (ranges s)) \<in> members s" "q \<in> members s \<Longrightarrow> ar_First (last (ranges s)) \<le> q"
    "0 < ar_First (last (ranges s))"
proof -
  have ne: "ranges s \<noteq> []" using empty_iff assms by blast
  then have l: "last (ranges s) \<in> set (ranges s)" by simp
  show "ar_First (last (ranges s)) \<in> members s" "0 < ar_First (last (ranges s))"
    using ranges [OF assms(1)] l desc_mem [OF _ l] by auto
  show "ar_First (last (ranges s)) \<le> q" if "q \<in> members s"
    using that ranges [OF assms(1)] desc_lowest by (blast intro: order.trans)
qed

text \<open>An acknowledgement built from the ranges is well-formed and acknowledges the members.\<close>

lemma ack_exact:
  assumes "inv s" "members s \<noteq> {}"
  defines "rs \<equiv> (if 1 < length (ranges s) then ranges s else [])"
  shows "ackRanges_wf (ar_Last (hd (ranges s))) (ar_First (last (ranges s))) rs"
    and "acksPacket (ar_Last (hd (ranges s))) (ar_First (last (ranges s))) rs p \<longleftrightarrow> p \<in> members s"
proof -
  let ?hi = "ar_Last (hd (ranges s))" and ?lo = "ar_First (last (ranges s))"
  have "?lo \<le> ?hi" using least(2) [OF assms(1,2)] largest(1) [OF assms(1,2)] by blast
  then show wf: "ackRanges_wf ?hi ?lo rs"
    using ranges [OF assms(1)] by (auto simp: rs_def ackRanges_wf_def)
  show "acksPacket ?hi ?lo rs p \<longleftrightarrow> p \<in> members s"
  proof (cases "1 < length (ranges s)")
    case True
    then have "rs = ranges s" "rs \<noteq> []" by (auto simp: rs_def)
    with ranges [OF assms(1)] show ?thesis unfolding acksPacket_wf [OF wf] by simp
  next
    case False
    then obtain b where "ranges s = [b]"
      using empty_iff assms(1,2) by (cases "ranges s") auto
    then show ?thesis unfolding acksPacket_wf [OF wf] using ranges [OF assms(1)] by (simp add: rs_def)
  qed
qed

end

section \<open>The history implements the set\<close>

definition top :: "PacketInterval list \<Rightarrow> nat" where
  "top l = (case l of [] \<Rightarrow> 0 | el # _ \<Rightarrow> unat (pi_End el))"

definition union :: "PacketInterval list \<Rightarrow> PacketNumber set" where
  "union l = (\<Union>el \<in> set l. interval el)"

lemma union_simps [simp]: "union [] = {}" "union (el # l) = interval el \<union> union l"
  by (auto simp: union_def)

lemma top_simps [simp]: "top [] = 0" "top (el # l) = unat (pi_End el)"
  by (simp_all add: top_def)

lemma backInv_Cons:
  "backInv (el # l) \<longleftrightarrow> unat (pi_Start el) \<le> unat (pi_End el) \<and> 0 < unat (pi_Start el)
     \<and> (l \<noteq> [] \<longrightarrow> top l + 1 < unat (pi_Start el)) \<and> backInv l"
  by (cases l) (auto simp: word_le_nat_alt word_less_nat_alt)

lemma interval_iff: "q \<in> interval el \<longleftrightarrow> unat (pi_Start el) \<le> unat q \<and> unat q \<le> unat (pi_End el)"
  by (simp add: interval_def word_le_nat_alt)

lemma union_top: "backInv l \<Longrightarrow> q \<in> union l \<Longrightarrow> unat q \<le> top l"
proof (induction l)
  case (Cons el l)
  then show ?case by (cases l) (auto simp: backInv_Cons interval_iff)
qed simp

lemma pred_iff: "0 < p \<Longrightarrow> x = p - 1 \<longleftrightarrow> unat x + 1 = unat p" for x p :: PacketNumber
  by (auto simp: word_unat_eq_iff unat_minus_one word_less_nat_alt)

lemma succ_iff: "0 < unat x \<Longrightarrow> x = p + 1 \<longleftrightarrow> unat x = unat p + 1" for x p :: PacketNumber
proof -
  assume "0 < unat x"
  moreover have "unat (p + 1) = (unat p + 1) mod 2 ^ 64" by (simp add: unat_word_ariths)
  ultimately show ?thesis
    using unat_uint64_less [of p] unat_uint64_less [of x]
    by (cases "unat p + 1 = 2 ^ 64") (auto simp: word_unat_eq_iff)
qed

lemma mergeBack_correct:
  assumes "unat (pi_Start el) \<le> unat (pi_End el)" "0 < unat (pi_Start el)"
    and "backInv l" "l \<noteq> [] \<Longrightarrow> top l < unat (pi_Start el)"
  shows "backInv (mergeBack el l) \<and> union (mergeBack el l) = interval el \<union> union l
    \<and> top (mergeBack el l) = unat (pi_End el)"
proof (cases l)
  case (Cons prev before)
  have "pi_End prev + 1 = pi_Start el \<longleftrightarrow> unat (pi_Start el) = unat (pi_End prev) + 1"
    using succ_iff [of "pi_Start el" "pi_End prev"] assms(2) by auto
  with assms Cons show ?thesis by (auto simp: backInv_Cons interval_iff set_eq_iff)
qed (use assms in \<open>simp add: backInv_Cons\<close>)

lemma interval_single: "interval \<lparr> pi_Start = p, pi_End = p \<rparr> = {p}"
  by (auto simp: interval_def)

lemma receivedLoop_correct:
  assumes "backInv l" "0 < p"
  shows "backInv (receivedLoop p l) \<and> union (receivedLoop p l) = insert p (union l)
    \<and> top (receivedLoop p l) = max (top l) (unat p)"
  using assms(1)
proof (induction l)
  case Nil
  then show ?case using assms(2) interval_single by simp
next
  case (Cons el l)
  have p: "0 < unat p" using assms(2) by (simp add: word_less_nat_alt)
  have inv: "unat (pi_Start el) \<le> unat (pi_End el)" "0 < unat (pi_Start el)"
    "l \<noteq> [] \<Longrightarrow> top l + 1 < unat (pi_Start el)" "backInv l"
    using Cons.prems by (auto simp: backInv_Cons)
  have lt: "l \<noteq> [] \<Longrightarrow> top l < unat (pi_Start el)" using inv(3) by simp
  note eqs = pred_iff [OF assms(2), of "pi_End el"] succ_iff [OF inv(2), of p]
  consider (inside) "unat (pi_Start el) \<le> unat p" "unat p \<le> unat (pi_End el)"
    | (atEnd) "unat p = unat (pi_End el) + 1" | (atStart) "unat (pi_Start el) = unat p + 1"
    | (above) "unat (pi_End el) + 1 < unat p" | (below) "unat p + 1 < unat (pi_Start el)"
    using inv(1) by linarith
  then show ?case
  proof cases
    case inside
    then have "receivedLoop p (el # l) = el # l" "p \<in> interval el"
      by (simp_all add: word_le_nat_alt interval_iff)
    then show ?thesis using Cons.prems inside by (simp add: insert_absorb)
  next
    case atEnd
    have "\<not> p \<le> pi_End el" "pi_End el = p - 1" using atEnd eqs(1) by (simp_all add: word_le_nat_alt)
    then have loop: "receivedLoop p (el # l) = mergeBack (el\<lparr> pi_End := p \<rparr>) l" by simp
    have "q \<in> interval (el\<lparr> pi_End := p \<rparr>) \<longleftrightarrow> q \<in> insert p (interval el)" for q
      unfolding interval_iff insert_iff word_unat_eq_iff using atEnd inv(1) by auto
    then have i: "interval (el\<lparr> pi_End := p \<rparr>) = insert p (interval el)" by blast
    have "backInv (mergeBack (el\<lparr> pi_End := p \<rparr>) l)
      \<and> union (mergeBack (el\<lparr> pi_End := p \<rparr>) l) = insert p (interval el) \<union> union l
      \<and> top (mergeBack (el\<lparr> pi_End := p \<rparr>) l) = unat p"
      using mergeBack_correct [of "el\<lparr> pi_End := p \<rparr>" l] inv(1,2,4) lt atEnd unfolding i by simp
    then show ?thesis unfolding loop using atEnd by simp
  next
    case atStart
    have "\<not> pi_Start el \<le> p" "pi_End el \<noteq> p - 1" "pi_Start el = p + 1"
      using atStart eqs inv(1) by (simp_all add: word_le_nat_alt)
    then have loop: "receivedLoop p (el # l) = mergeBack (el\<lparr> pi_Start := p \<rparr>) l" by simp
    have "q \<in> interval (el\<lparr> pi_Start := p \<rparr>) \<longleftrightarrow> q \<in> insert p (interval el)" for q
      unfolding interval_iff insert_iff word_unat_eq_iff using atStart inv(1) by auto
    then have i: "interval (el\<lparr> pi_Start := p \<rparr>) = insert p (interval el)" by blast
    have "backInv (mergeBack (el\<lparr> pi_Start := p \<rparr>) l)
      \<and> union (mergeBack (el\<lparr> pi_Start := p \<rparr>) l) = insert p (interval el) \<union> union l
      \<and> top (mergeBack (el\<lparr> pi_Start := p \<rparr>) l) = unat (pi_End el)"
      using mergeBack_correct [of "el\<lparr> pi_Start := p \<rparr>" l] inv atStart p unfolding i by simp
    then show ?thesis unfolding loop using atStart inv(1) by simp
  next
    case above
    then have "receivedLoop p (el # l) = \<lparr> pi_Start = p, pi_End = p \<rparr> # el # l"
      using eqs inv(1) by (auto simp: word_le_nat_alt word_less_nat_alt)
    then show ?thesis using above Cons.prems p interval_single
      by (simp add: backInv_Cons [of "\<lparr> pi_Start = p, pi_End = p \<rparr>"])
  next
    case below
    have "\<not> pi_Start el \<le> p" "pi_End el \<noteq> p - 1" "pi_Start el \<noteq> p + 1" "\<not> pi_End el < p"
      using below eqs inv(1) by (simp_all add: word_le_nat_alt word_less_nat_alt)
    then have loop: "receivedLoop p (el # l) = el # receivedLoop p l" by simp
    have "top (receivedLoop p l) + 1 < unat (pi_Start el)"
      using Cons.IH [OF inv(4)] inv(3) below by (cases l) auto
    then show ?thesis unfolding loop backInv_Cons using below Cons.IH [OF inv(4)] inv(1,2) by auto
  qed
qed

text \<open>From the front: the list in increasing order.\<close>

fun frontInv :: "PacketInterval list \<Rightarrow> bool" where
  "frontInv [] = True"
| "frontInv (el # l) =
     (unat (pi_Start el) \<le> unat (pi_End el) \<and> 0 < unat (pi_Start el)
      \<and> (\<forall>el' \<in> set l. unat (pi_End el) + 1 < unat (pi_Start el')) \<and> frontInv l)"

lemma backInv_snoc:
  "backInv (l @ [el]) \<longleftrightarrow> backInv l \<and> unat (pi_Start el) \<le> unat (pi_End el) \<and> 0 < unat (pi_Start el)
     \<and> (\<forall>el' \<in> set l. unat (pi_End el) + 1 < unat (pi_Start el'))"
proof (induction l)
  case (Cons a l)
  then show ?case by (cases l) (auto simp: backInv_Cons)
qed (auto simp: backInv_Cons)

lemma frontInv_rev: "frontInv l \<longleftrightarrow> backInv (rev l)"
  by (induction l) (auto simp: backInv_snoc)

lemma frontInv_above:
  "frontInv l \<Longrightarrow> \<forall>el \<in> set l. unat p < unat (pi_Start el) \<Longrightarrow>
   deleteLoop p l = l \<and> (\<forall>q \<in> union l. p < q)"
proof (induction l)
  case (Cons el l)
  have "unat p < unat (pi_Start el)" "unat (pi_Start el) \<le> unat (pi_End el)"
    using Cons.prems by auto
  then have "\<not> pi_Start el \<le> p" "\<not> pi_End el \<le> p" "\<forall>q \<in> interval el. p < q"
    by (auto simp: interval_iff word_le_nat_alt word_less_nat_alt)
  with Cons show ?case by simp blast
qed simp

lemma deleteLoop_correct:
  "frontInv l \<Longrightarrow> frontInv (deleteLoop p l) \<and> union (deleteLoop p l) = {q \<in> union l. p < q}"
proof (induction l)
  case (Cons el l)
  have inv: "unat (pi_Start el) \<le> unat (pi_End el)" "0 < unat (pi_Start el)" "frontInv l"
    and gap: "\<forall>el' \<in> set l. unat (pi_End el) + 1 < unat (pi_Start el')"
    using Cons.prems by auto
  consider (cut) "unat (pi_Start el) \<le> unat p" "unat p < unat (pi_End el)"
    | (all) "unat (pi_End el) \<le> unat p" | (none) "unat p < unat (pi_Start el)"
    using inv(1) by linarith
  then show ?case
  proof cases
    case cut
    have s: "unat (p + 1) = unat p + 1"
      using cut(2) unat_uint64_less [of "pi_End el"] by (simp add: unat_word_ariths)
    have "\<forall>el' \<in> set l. unat p < unat (pi_Start el')" using gap cut(2) by fastforce
    with frontInv_above [OF inv(3)] have l: "deleteLoop p l = l" "\<forall>q \<in> union l. p < q" by blast+
    have loop: "deleteLoop p (el # l) = el\<lparr> pi_Start := p + 1 \<rparr> # l"
      using cut l(1) by (simp add: word_le_nat_alt word_less_nat_alt)
    have "q \<in> interval (el\<lparr> pi_Start := p + 1 \<rparr>) \<longleftrightarrow> q \<in> interval el \<and> p < q" for q
      unfolding interval_iff word_less_nat_alt using cut s by auto
    then have "union (deleteLoop p (el # l)) = {q \<in> union (el # l). p < q}"
      unfolding loop using l(2) by auto
    moreover have "frontInv (deleteLoop p (el # l))"
      unfolding loop using inv gap cut s by simp
    ultimately show ?thesis by blast
  next
    case all
    then have loop: "deleteLoop p (el # l) = deleteLoop p l"
      by (simp add: word_le_nat_alt word_less_nat_alt)
    have "\<forall>q \<in> interval el. \<not> p < q" using all by (auto simp: interval_iff word_less_nat_alt)
    then show ?thesis unfolding loop using Cons.IH [OF inv(3)] by auto
  next
    case none
    then have "\<forall>el' \<in> set (el # l). unat p < unat (pi_Start el')" using inv(1) gap by fastforce
    from frontInv_above [OF Cons.prems this] have loop: "deleteLoop p (el # l) = el # l"
      and "\<forall>q \<in> union (el # l). p < q" by blast+
    then show ?thesis unfolding loop using Cons.prems by blast
  qed
qed simp

lemma elems_union: "elems h = union (rh_ranges h)" "union (rev l) = union l"
  by (auto simp: union_def elems_def)

lemma history_add:
  assumes "history_inv h" "0 < p" "history_ReceivedPacket p h = Inr h'"
  shows "history_inv h' \<and> elems h' = insert p (elems h)"
proof -
  have h': "h' = h\<lparr> rh_ranges := rev (receivedLoop p (rev (rh_ranges h))) \<rparr>"
    using assms(3) by (simp add: history_ReceivedPacket_def split: if_splits)
  have "backInv (rev (rh_ranges h))" using assms(1) by (simp only: history_inv_def)
  from receivedLoop_correct [OF this assms(2)] show ?thesis
    unfolding h' by (simp add: history_inv_def elems_union)
qed

lemma history_delete:
  assumes "history_inv h"
  shows "history_inv (DeleteUpTo p h) \<and> elems (DeleteUpTo p h) = {q \<in> elems h. p < q}"
  using deleteLoop_correct [of "rh_ranges h" p] assms
  by (simp add: DeleteUpTo_def history_inv_def frontInv_rev elems_union)

lemma backInv_desc:
  "backInv l \<Longrightarrow> desc (map (\<lambda>el. \<lparr> ar_First = pi_Start el, ar_Last = pi_End el \<rparr>) l)
     \<and> (\<forall>el \<in> set l. 0 < pi_Start el)"
  by (induction l rule: backInv.induct) (auto simp: word_less_nat_alt)

interpretation hist: packet_set newReceivedPacketHistory history_ReceivedPacket DeleteUpTo
  GetAckRanges elems history_inv
proof
  show "history_inv newReceivedPacketHistory" "elems newReceivedPacketHistory = {}"
    by (simp_all add: history_inv_def elems_def newReceivedPacketHistory_def)
  fix s assume "history_inv s"
  then show "desc (GetAckRanges s) \<and> (\<forall>b \<in> set (GetAckRanges s). 0 < ar_First b)
      \<and> elems s = {p. \<exists>b \<in> set (GetAckRanges s). ar_First b \<le> p \<and> p \<le> ar_Last b}"
    using backInv_desc [of "rev (rh_ranges s)"]
    by (auto simp: GetAckRanges_def elems_def interval_def history_inv_def)
qed (rule history_add history_delete; assumption)+

end
