(* ===== verification/ReceivedHandler.thy ===== *)
theory ReceivedHandler
  imports ReceivedHistory
begin

text \<open>
  The handler for received packets of a path (\<open>ackhandler/received_packet_handler.go\<close>): when
  an ACK is due and what it acknowledges. A \<open>time.Time\<close> is a number of nanoseconds, 0 the
  zero time. The reads of the clock during one call are one parameter.
\<close>

section \<open>The handler\<close>

record receivedPacketHandler =
  rph_largestObserved :: PacketNumber
  rph_lowerLimit :: PacketNumber
  rph_largestObservedReceivedTime :: Time
  rph_packetHistory :: receivedPacketHistory
  rph_ackSendDelay :: Duration
  rph_packetsReceivedSinceLastAck :: int
  rph_retransmittablePacketsReceivedSinceLastAck :: int
  rph_ackQueued :: bool
  rph_ackAlarm :: Time
  rph_lastAck :: "AckFrame option"
  rph_version :: VersionNumber
  rph_packets :: uint64

definition errInvalidPacketNumber :: go_error where
  "errInvalidPacketNumber = GoErr ''ReceivedPacketHandler: Invalid packet number''"

definition NewReceivedPacketHandler :: "VersionNumber \<Rightarrow> receivedPacketHandler" where
  "NewReceivedPacketHandler version =
     \<lparr> rph_largestObserved = 0, rph_lowerLimit = 0, rph_largestObservedReceivedTime = 0,
       rph_packetHistory = newReceivedPacketHistory, rph_ackSendDelay = AckSendDelay,
       rph_packetsReceivedSinceLastAck = 0, rph_retransmittablePacketsReceivedSinceLastAck = 0,
       rph_ackQueued = False, rph_ackAlarm = 0, rph_lastAck = None, rph_version = version,
       rph_packets = 0 \<rparr>"

definition rph_GetStatistics :: "receivedPacketHandler \<Rightarrow> uint64" where
  "rph_GetStatistics h = rph_packets h"

text \<open>The four conditions under which \<open>maybeQueueAck\<close> queues an ACK at once.\<close>

definition queueAckAtOnce :: "PacketNumber \<Rightarrow> receivedPacketHandler \<Rightarrow> bool" where
  "queueAckAtOnce packetNumber h \<longleftrightarrow>
     (case rph_lastAck h of
        None \<Rightarrow> True
      | Some lastAck \<Rightarrow>
          packetNumber < ack_LargestAcked lastAck
          \<or> ar_First (GetHighestAckRange (rph_packetHistory h)) > ack_LargestAcked lastAck)
     \<or> rph_version h < Version39
       \<and> rph_packetsReceivedSinceLastAck h \<ge> MaxPacketsReceivedBeforeAckSend"

definition maybeQueueAck ::
  "Time \<Rightarrow> PacketNumber \<Rightarrow> bool \<Rightarrow> receivedPacketHandler \<Rightarrow> receivedPacketHandler" where
  "maybeQueueAck now packetNumber shouldInstigateAck h =
     (let h = h\<lparr> rph_packetsReceivedSinceLastAck := int64 (rph_packetsReceivedSinceLastAck h + 1) \<rparr>;
          h = (if shouldInstigateAck
               then h\<lparr> rph_retransmittablePacketsReceivedSinceLastAck :=
                        int64 (rph_retransmittablePacketsReceivedSinceLastAck h + 1) \<rparr>
               else h);
          h = (if queueAckAtOnce packetNumber h then h\<lparr> rph_ackQueued := True \<rparr> else h);
          h = (if \<not> rph_ackQueued h \<and> shouldInstigateAck
               then if rph_retransmittablePacketsReceivedSinceLastAck h
                         \<ge> RetransmittablePacketsBeforeAck
                    then h\<lparr> rph_ackQueued := True \<rparr>
                    else if rph_ackAlarm h = 0
                    then h\<lparr> rph_ackAlarm := now + rph_ackSendDelay h \<rparr>
                    else h
               else h)
      in if rph_ackQueued h then h\<lparr> rph_ackAlarm := 0 \<rparr> else h)"

text \<open>The handler is changed even when an error is returned.\<close>

definition rph_ReceivedPacket :: "Time \<Rightarrow> PacketNumber \<Rightarrow> bool \<Rightarrow> receivedPacketHandler
    \<Rightarrow> receivedPacketHandler \<times> go_error option" where
  "rph_ReceivedPacket now packetNumber shouldInstigateAck h =
     (if packetNumber = 0 then (h, Some errInvalidPacketNumber)
      else
     let h = h\<lparr> rph_packets := rph_packets h + 1 \<rparr>;
         h = (if packetNumber > rph_largestObserved h
              then h\<lparr> rph_largestObserved := packetNumber,
                      rph_largestObservedReceivedTime := now \<rparr>
              else h)
     in if packetNumber \<le> rph_lowerLimit h then (h, None)
        else case history_ReceivedPacket packetNumber (rph_packetHistory h) of
               Inl err \<Rightarrow> (h, Some err)
             | Inr hist \<Rightarrow>
                 (maybeQueueAck now packetNumber shouldInstigateAck
                    (h\<lparr> rph_packetHistory := hist \<rparr>), None))"

definition SetLowerLimit :: "PacketNumber \<Rightarrow> receivedPacketHandler \<Rightarrow> receivedPacketHandler" where
  "SetLowerLimit p h =
     h\<lparr> rph_lowerLimit := p, rph_packetHistory := DeleteUpTo p (rph_packetHistory h) \<rparr>"

definition indexPanic :: go_error where
  "indexPanic = Panic ''runtime error: index out of range''"

definition rph_GetAckFrame :: "Time \<Rightarrow> receivedPacketHandler
    \<Rightarrow> go_error + (AckFrame option \<times> receivedPacketHandler)" where
  "rph_GetAckFrame now h =
     (if \<not> rph_ackQueued h \<and> (rph_ackAlarm h = 0 \<or> rph_ackAlarm h > now) then Inr (None, h)
      else let ackRanges = GetAckRanges (rph_packetHistory h)
           in if ackRanges = [] then Inl indexPanic
              else let ack = \<lparr> ack_PathID = 0, ack_LargestAcked = rph_largestObserved h,
                               ack_LowestAcked = ar_First (last ackRanges),
                               ack_AckRanges = (if length ackRanges > 1 then ackRanges else []),
                               ack_PacketReceivedTime = rph_largestObservedReceivedTime h,
                               ack_DelayTime = 0 \<rparr>
                   in Inr (Some ack,
                        h\<lparr> rph_lastAck := Some ack, rph_ackAlarm := 0, rph_ackQueued := False,
                           rph_packetsReceivedSinceLastAck := 0,
                           rph_retransmittablePacketsReceivedSinceLastAck := 0 \<rparr>))"

definition GetClosePathFrame :: "receivedPacketHandler \<Rightarrow> go_error + ClosePathFrame" where
  "GetClosePathFrame h =
     (let ackRanges = GetAckRanges (rph_packetHistory h)
      in if ackRanges = [] then Inl indexPanic
         else Inr \<lparr> cpf_PathID = 0, cpf_LargestAcked = rph_largestObserved h,
                    cpf_LowestAcked = ar_First (last ackRanges),
                    cpf_AckRanges = (if length ackRanges > 1 then ackRanges else []) \<rparr>)"

definition rph_GetAlarmTimeout :: "receivedPacketHandler \<Rightarrow> Time" where
  "rph_GetAlarmTimeout h = rph_ackAlarm h"

section \<open>Runs of the handler\<close>

text \<open>
  The states that a path can reach without an error, with the time of the last step and
  the set of all packets received so far. The lower limit never decreases.
\<close>

inductive receiver :: "Time \<Rightarrow> PacketNumber set \<Rightarrow> receivedPacketHandler \<Rightarrow> bool" where
  start: "0 \<le> now \<Longrightarrow> receiver now {} (NewReceivedPacketHandler version)"
| recv: "receiver t R h \<Longrightarrow> t \<le> now \<Longrightarrow> rph_ReceivedPacket now p inst h = (h', None) \<Longrightarrow>
    receiver now (insert p R) h'"
| lower: "receiver t R h \<Longrightarrow> rph_lowerLimit h \<le> p \<Longrightarrow> receiver t R (SetLowerLimit p h)"
| ack: "receiver t R h \<Longrightarrow> t \<le> now \<Longrightarrow> rph_GetAckFrame now h = Inr (f, h') \<Longrightarrow> receiver now R h'"

text \<open>What the state says about the packets received.\<close>

definition tracks :: "PacketNumber set \<Rightarrow> receivedPacketHandler \<Rightarrow> bool" where
  "tracks R h \<longleftrightarrow>
     history_inv (rph_packetHistory h)
     \<and> elems (rph_packetHistory h) = {q \<in> R. rph_lowerLimit h < q}
     \<and> (\<forall>q \<in> R. 0 < q \<and> q \<le> rph_largestObserved h) 
     \<and> (if R = {} then rph_largestObserved h = 0 else rph_largestObserved h \<in> R)"

text \<open>An ACK for a retransmittable packet is queued or scheduled.\<close>

definition scheduled :: "Time \<Rightarrow> receivedPacketHandler \<Rightarrow> bool" where
  "scheduled t h \<longleftrightarrow>
     rph_ackSendDelay h = AckSendDelay \<and> 0 \<le> t
     \<and> (rph_retransmittablePacketsReceivedSinceLastAck h \<noteq> 0 \<longrightarrow>
          rph_ackQueued h \<or> rph_ackAlarm h \<noteq> 0)
     \<and> rph_ackAlarm h \<le> t + AckSendDelay"

lemma maybeQueueAck_same [simp]:
  "rph_largestObserved (maybeQueueAck now p inst h) = rph_largestObserved h"
  "rph_lowerLimit (maybeQueueAck now p inst h) = rph_lowerLimit h"
  "rph_packetHistory (maybeQueueAck now p inst h) = rph_packetHistory h"
  "rph_ackSendDelay (maybeQueueAck now p inst h) = rph_ackSendDelay h"
  by (simp_all add: maybeQueueAck_def Let_def)

lemma maybeQueueAck_first:
  "rph_lastAck h = None \<Longrightarrow> rph_ackQueued (maybeQueueAck now p inst h)"
  "rph_lastAck (maybeQueueAck now p inst h) = rph_lastAck h"
  by (simp_all add: maybeQueueAck_def Let_def queueAckAtOnce_def)

lemma maybeQueueAck_scheduled:
  assumes "scheduled t h" "t \<le> now"
  shows "scheduled now (maybeQueueAck now p inst h)"
    and "inst \<Longrightarrow> rph_ackQueued (maybeQueueAck now p inst h) \<or> rph_ackAlarm (maybeQueueAck now p inst h) \<noteq> 0"
  using assms by (auto simp: scheduled_def maybeQueueAck_def Let_def AckSendDelay_def
      Millisecond_def Microsecond_def)

lemma ReceivedPacket_cases:
  assumes "rph_ReceivedPacket now p inst h = (h', None)"
  obtains (ignored) "p \<noteq> 0" "p \<le> rph_lowerLimit h"
      "h' = h\<lparr> rph_packets := rph_packets h + 1,
              rph_largestObserved := max (rph_largestObserved h) p,
              rph_largestObservedReceivedTime := if p > rph_largestObserved h then now
                else rph_largestObservedReceivedTime h \<rparr>"
    | (registered) hist where "p \<noteq> 0" "rph_lowerLimit h < p"
      "history_ReceivedPacket p (rph_packetHistory h) = Inr hist"
      "h' = maybeQueueAck now p inst (h\<lparr> rph_packets := rph_packets h + 1,
              rph_largestObserved := max (rph_largestObserved h) p,
              rph_largestObservedReceivedTime := if p > rph_largestObserved h then now
                else rph_largestObservedReceivedTime h, rph_packetHistory := hist \<rparr>)"
  using assms
  by (cases "p > rph_largestObserved h")
    (auto simp: rph_ReceivedPacket_def Let_def max_def linorder_not_le split: if_splits sum.splits)

lemma tracks_recv:
  assumes "tracks R h" "rph_ReceivedPacket now p inst h = (h', None)"
  shows "tracks (insert p R) h'"
  using assms(2)
proof (cases rule: ReceivedPacket_cases)
  case ignored
  then show ?thesis using assms(1)
    by (auto simp: tracks_def max_def word_neq_0_conv linorder_not_less intro: order.trans
        split: if_splits)
next
  case (registered hist)
  have p: "0 < p" using registered(1) by (simp add: word_neq_0_conv)
  have "history_inv (rph_packetHistory h)" using assms(1) by (simp add: tracks_def)
  from hist.add [OF this p registered(3)] registered p assms(1) show ?thesis
    by (auto simp: tracks_def max_def linorder_not_less intro: order.trans split: if_splits)
qed

lemma tracks_lower:
  assumes "tracks R h" "rph_lowerLimit h \<le> p"
  shows "tracks R (SetLowerLimit p h)"
  using assms hist.delete [of "rph_packetHistory h" p] by (auto simp: tracks_def SetLowerLimit_def)

lemma GetAckFrame_same:
  assumes "rph_GetAckFrame now h = Inr (f, h')"
  shows "rph_largestObserved h' = rph_largestObserved h" "rph_lowerLimit h' = rph_lowerLimit h"
    "rph_packetHistory h' = rph_packetHistory h" "rph_ackSendDelay h' = rph_ackSendDelay h"
  using assms by (auto simp: rph_GetAckFrame_def Let_def split: if_splits)

lemma receiver_tracks: "receiver t R h \<Longrightarrow> tracks R h"
proof (induction rule: receiver.induct)
  case (start now version)
  then show ?case using hist.inv_empty hist.members_empty
    by (simp add: tracks_def NewReceivedPacketHandler_def)
next
  case (recv t R h now p inst h')
  then show ?case by (blast intro: tracks_recv)
next
  case (lower t R h p)
  then show ?case by (blast intro: tracks_lower)
next
  case (ack t R h now f h')
  then show ?case by (simp add: tracks_def GetAckFrame_same)
qed

lemma scheduled_recv:
  assumes "scheduled t h" "t \<le> now" "rph_ReceivedPacket now p inst h = (h', None)"
  shows "scheduled now h'"
  using assms(3)
proof (cases rule: ReceivedPacket_cases)
  case ignored
  then show ?thesis using assms(1,2) by (auto simp: scheduled_def)
next
  case (registered hist)
  show ?thesis unfolding registered(4)
    by (rule maybeQueueAck_scheduled [of t]) (use assms(1,2) in \<open>auto simp: scheduled_def\<close>)
qed

lemma AckSendDelay_pos: "0 < AckSendDelay"
  by (simp add: AckSendDelay_def Millisecond_def Microsecond_def)

lemma receiver_scheduled: "receiver t R h \<Longrightarrow> scheduled t h"
proof (induction rule: receiver.induct)
  case (start now version)
  then show ?case using AckSendDelay_pos by (simp add: scheduled_def NewReceivedPacketHandler_def)
next
  case (recv t R h now p inst h')
  then show ?case by (blast intro: scheduled_recv)
next
  case (lower t R h p)
  then show ?case by (simp add: scheduled_def SetLowerLimit_def)
next
  case (ack t R h now f h')
  then show ?case using AckSendDelay_pos
    by (auto simp: rph_GetAckFrame_def Let_def scheduled_def split: if_splits)
qed

text \<open>What an ACK says, and when there is none.\<close>

definition ackDue :: "Time \<Rightarrow> receivedPacketHandler \<Rightarrow> bool" where
  "ackDue now h \<longleftrightarrow> rph_ackQueued h \<or> (rph_ackAlarm h \<noteq> 0 \<and> rph_ackAlarm h \<le> now)"

lemma tracks_ranges:
  assumes "tracks R h" "{q \<in> R. rph_lowerLimit h < q} \<noteq> {}"
  shows "elems (rph_packetHistory h) \<noteq> {}" "GetAckRanges (rph_packetHistory h) \<noteq> []"
    "ar_Last (hd (GetAckRanges (rph_packetHistory h))) = rph_largestObserved h"
proof -
  let ?s = "rph_packetHistory h"
  have t: "history_inv ?s" "elems ?s = {q \<in> R. rph_lowerLimit h < q}"
    "\<And>q. q \<in> R \<Longrightarrow> q \<le> rph_largestObserved h" "R \<noteq> {} \<Longrightarrow> rph_largestObserved h \<in> R"
    using assms(1) by (auto simp: tracks_def)
  show ne: "elems ?s \<noteq> {}" using assms(2) t(2) by simp
  then show "GetAckRanges ?s \<noteq> []" using hist.empty_iff [OF t(1)] by blast
  have "rph_largestObserved h \<in> elems ?s"
    using assms(2) t(2-4) by (auto intro: less_le_trans)
  then show "ar_Last (hd (GetAckRanges ?s)) = rph_largestObserved h"
    using hist.largest [OF t(1) ne] t(2,3) by (auto intro: antisym)
qed

lemma GetAckFrame_due:
  assumes "tracks R h" "ackDue now h"
  shows "if {q \<in> R. rph_lowerLimit h < q} = {} then rph_GetAckFrame now h = Inl indexPanic
    else \<exists>f h'. rph_GetAckFrame now h = Inr (Some f, h')
      \<and> ackRanges_wf (ack_LargestAcked f) (ack_LowestAcked f) (ack_AckRanges f)
      \<and> 0 < ack_LowestAcked f \<and> ack_LargestAcked f = rph_largestObserved h
      \<and> (\<forall>q. AckFrame_AcksPacket f q \<longleftrightarrow> q \<in> R \<and> rph_lowerLimit h < q)"
proof (cases "{q \<in> R. rph_lowerLimit h < q} = {}")
  case True
  then have "GetAckRanges (rph_packetHistory h) = []"
    using assms(1) hist.empty_iff [of "rph_packetHistory h"] by (simp add: tracks_def)
  then show ?thesis using assms(2) True by (auto simp: rph_GetAckFrame_def ackDue_def)
next
  case False
  let ?s = "rph_packetHistory h"
  have inv: "history_inv ?s" "elems ?s = {q \<in> R. rph_lowerLimit h < q}"
    using assms(1) by (auto simp: tracks_def)
  note r = tracks_ranges [OF assms(1) False]
  show ?thesis
    using hist.ack_exact [OF inv(1) r(1)] hist.least(3) [OF inv(1) r(1)] r(2,3) False assms(2) inv(2)
    by (auto simp: rph_GetAckFrame_def ackDue_def AckFrame_AcksPacket_def Let_def)
qed

section \<open>Properties\<close>

text \<open>
  C11. The packet history is a set: recording a packet and deleting up to a packet keep the
  intervals ordered, separated and positive, and have the effect of the same operation
  on the set of packet numbers; \<open>GetAckRanges\<close> lists exactly that set, largest first.
\<close>

theorem history_refines_set:
  assumes "history_inv h"
  shows "(0 < p \<and> history_ReceivedPacket p h = Inr h' \<longrightarrow>
      history_inv h' \<and> elems h' = insert p (elems h))
    \<and> (history_ReceivedPacket p h = Inl e \<longleftrightarrow> 2500 \<le> length (rh_ranges h)
        \<and> e = errTooManyOutstandingReceivedAckRanges)
    \<and> history_inv (DeleteUpTo p h) \<and> elems (DeleteUpTo p h) = {q \<in> elems h. p < q}
    \<and> desc (GetAckRanges h) \<and> elems h = {q. inRanges (GetAckRanges h) q}"
  using hist.add [OF assms] hist.delete [OF assms] hist.ranges [OF assms]
  by (auto simp: inRanges_iff history_ReceivedPacket_def MaxTrackedReceivedAckRanges_def
      DefaultMaxCongestionWindow_def)

theorem history_refines_set_witness:
  "elems (DeleteUpTo 2 \<lparr> rh_ranges = [\<lparr> pi_Start = 1, pi_End = 3 \<rparr>, \<lparr> pi_Start = 7, pi_End = 7 \<rparr>],
      rh_lowestInReceivedPacketNumbers = 0 \<rparr>) =
   {q \<in> elems \<lparr> rh_ranges = [\<lparr> pi_Start = 1, pi_End = 3 \<rparr>, \<lparr> pi_Start = 7, pi_End = 7 \<rparr>],
      rh_lowestInReceivedPacketNumbers = 0 \<rparr>. 2 < q}"
  using history_refines_set [of "\<lparr> rh_ranges = [\<lparr> pi_Start = 1, pi_End = 3 \<rparr>,
      \<lparr> pi_Start = 7, pi_End = 7 \<rparr>], rh_lowestInReceivedPacketNumbers = 0 \<rparr>" 2]
  by (simp add: history_inv_def)





text \<open>
  The panic of \<open>GetAckFrame\<close>: in a reachable state it indexes an empty slice exactly
  when an ACK is due and a STOP_WAITING frame has moved the lower limit past every packet
  received.
\<close>

theorem GetAckFrame_panic:
  assumes "receiver t R h"
  shows "rph_GetAckFrame now h = Inl e \<longleftrightarrow>
    e = indexPanic \<and> ackDue now h \<and> (\<forall>p \<in> R. p \<le> rph_lowerLimit h)"
proof (cases "ackDue now h")
  case True
  define S where "S = {q \<in> R. rph_lowerLimit h < q}"
  have all: "(\<forall>p \<in> R. p \<le> rph_lowerLimit h) \<longleftrightarrow> S = {}" by (force simp: S_def)
  note due = GetAckFrame_due [OF receiver_tracks [OF assms] True, folded S_def]
  show ?thesis
  proof (cases "S = {}")
    case True
    with due have "rph_GetAckFrame now h = Inl indexPanic" by simp
    with True \<open>ackDue now h\<close> show ?thesis by (auto simp: all)
  next
    case False
    with due obtain f h' where "rph_GetAckFrame now h = Inr (Some f, h')" by auto
    with False show ?thesis by (simp add: all)
  qed
next
  case False
  then show ?thesis by (auto simp: rph_GetAckFrame_def ackDue_def)
qed

theorem GetAckFrame_panic_witness:
  "rph_GetAckFrame 9 (SetLowerLimit 4 (fst (rph_ReceivedPacket 3 4 True
      (NewReceivedPacketHandler 512)))) = Inl indexPanic"
proof -
  let ?h1 = "fst (rph_ReceivedPacket 3 4 True (NewReceivedPacketHandler 512))"
  have 1: "rph_ReceivedPacket 3 4 True (NewReceivedPacketHandler 512) = (?h1, None)" by code_simp
  have l: "rph_lowerLimit ?h1 = 0" "ackDue 9 (SetLowerLimit 4 ?h1)"
    "rph_lowerLimit (SetLowerLimit 4 ?h1) = 4" by code_simp+
  have "receiver 3 {4} ?h1"
    using receiver.recv [OF receiver.start [of 0 512] _ 1] by simp
  then have "receiver 3 {4} (SetLowerLimit 4 ?h1)" by (rule receiver.lower) (simp add: l(1))
  from GetAckFrame_panic [OF this, of 9 indexPanic] l show ?thesis by simp
qed

text \<open>
  A lower limit that decreases, as a reordered STOP_WAITING frame makes it, breaks the
  exactness of ACKs: after packet \<open>q\<close> was received and dropped below the limit and then
  only an older packet \<open>p\<close> arrives, the ACK acknowledges every packet from \<open>p\<close> to \<open>q\<close>,
  although none between them was received.
\<close>

theorem lower_limit_decrease:
  fixes t1 t2 t3 :: Time and v :: VersionNumber
  assumes "0 < p" "p < q"
  defines "h1 \<equiv> fst (rph_ReceivedPacket t1 q True (NewReceivedPacketHandler v))"
  defines "h2 \<equiv> SetLowerLimit (p - 1) (SetLowerLimit q h1)"
  defines "h3 \<equiv> fst (rph_ReceivedPacket t2 p True h2)"
  shows "\<exists>f h'. rph_GetAckFrame t3 h3 = Inr (Some f, h')
    \<and> (\<forall>x. AckFrame_AcksPacket f x \<longleftrightarrow> p \<le> x \<and> x \<le> q)"
proof -
  have "unat (p - 1) = unat p - 1" using assms(1) unat_minus_one [of p] by blast
  then have q: "0 < q" "0 < p" "\<not> q \<le> 0" "\<not> p \<le> p - 1" "\<not> q < p" "q \<noteq> 0" "p \<noteq> 0"
    using assms(1,2) by (auto simp: word_le_nat_alt word_less_nat_alt)
  note recv = rph_ReceivedPacket_def history_ReceivedPacket_def MaxTrackedReceivedAckRanges_def
    DefaultMaxCongestionWindow_def Let_def
  have h1: "rph_largestObserved h1 = q" "rh_ranges (rph_packetHistory h1) = [\<lparr> pi_Start = q, pi_End = q \<rparr>]"
    "rph_lastAck h1 = None" using q unfolding h1_def NewReceivedPacketHandler_def
    by (simp_all add: recv newReceivedPacketHistory_def maybeQueueAck_first)
  have h2: "rph_largestObserved h2 = q" "rh_ranges (rph_packetHistory h2) = []"
    "rph_lastAck h2 = None" "rph_lowerLimit h2 = p - 1"
    using h1 by (simp_all add: h2_def SetLowerLimit_def DeleteUpTo_def)
  have "rph_largestObserved h3 = q" "rph_ackQueued h3"
    "rh_ranges (rph_packetHistory h3) = [\<lparr> pi_Start = p, pi_End = p \<rparr>]"
    using h2 q unfolding h3_def by (simp_all add: recv maybeQueueAck_first)
  then show ?thesis
    by (auto simp: rph_GetAckFrame_def GetAckRanges_def AckFrame_AcksPacket_def acksPacket_def
        HasMissingRanges_def linorder_not_less Let_def)
qed

theorem lower_limit_decrease_witness:
  "\<exists>f h'. rph_GetAckFrame 30 (fst (rph_ReceivedPacket 20 2 True
        (SetLowerLimit (2 - 1) (SetLowerLimit 5 (fst (rph_ReceivedPacket 10 5 True
          (NewReceivedPacketHandler 512))))))) = Inr (Some f, h')
     \<and> (\<forall>x. AckFrame_AcksPacket f x \<longleftrightarrow> 2 \<le> x \<and> x \<le> 5)"
  by (rule lower_limit_decrease) simp_all

end
