(* ===== verification/Handshake.thy ===== *)
theory Handshake
  imports PublicHeader "HOL-Library.AList"
begin

text \<open>
  Handshake messages (\<open>internal/handshake/handshake_message.go\<close>), tag-value maps in the
  encoding of the QUIC crypto handshake, and the PUBLIC_RESET packet that uses them
  (\<open>internal/wire/public_reset.go\<close>). A Go map is an association list with distinct keys.
\<close>

section \<open>Handshake messages\<close>

type_synonym Tag = uint32

record HandshakeMessage =
  hm_Tag :: Tag
  hm_Data :: "(Tag \<times> byte list) list"

definition CryptoMaxParams :: uint32 where "CryptoMaxParams = 128"
definition CryptoParameterMaxLength :: uint32 where "CryptoParameterMaxLength = 4000"
definition CryptoTooManyEntries :: ErrorCode where "CryptoTooManyEntries = 30"
definition CryptoInvalidValueLength :: ErrorCode where "CryptoInvalidValueLength = 31"

text \<open>\<open>binary.LittleEndian.Uint32\<close> and \<open>Uint64\<close> read the first bytes of a slice.\<close>

definition leUint32 :: "byte list \<Rightarrow> uint32" where
  "leUint32 b = of_nat (le_val (take 4 b))"

definition leUint64 :: "byte list \<Rightarrow> uint64" where
  "leUint64 b = of_nat (le_val (take 8 b))"

text \<open>The loop over the index; \<open>index\<close> is what is left of it.\<close>

fun parsePairs :: "nat \<Rightarrow> byte list \<Rightarrow> uint32 \<Rightarrow> (Tag \<times> byte list) list \<Rightarrow> reader
    \<Rightarrow> go_error + ((Tag \<times> byte list) list \<times> reader)" where
  "parsePairs 0 index dataStart resultMap r = Inr (resultMap, r)"
| "parsePairs (Suc n) index dataStart resultMap r =
     (let tag = leUint32 (take 4 index);
          dataEnd = leUint32 (take 4 (drop 4 index));
          dataLen = dataEnd - dataStart
      in if dataLen > CryptoParameterMaxLength
         then Inl (QuicError CryptoInvalidValueLength ''value too long'')
         else andThen (ReadFull (unat dataLen) r) (\<lambda>data r.
                parsePairs n (drop 8 index) dataEnd (AList.update tag data resultMap) r))"

definition ParseHandshakeMessage :: "reader \<Rightarrow> go_error + (HandshakeMessage \<times> reader)" where
  "ParseHandshakeMessage r =
     andThen (ReadFull 4 r) (\<lambda>slice4 r.
     let messageTag = leUint32 slice4
     in andThen (ReadFull 4 r) (\<lambda>slice4 r.
        let nPairs = leUint32 slice4
        in if nPairs > CryptoMaxParams then Inl (QuicErrCode CryptoTooManyEntries)
           else andThen (ReadFull (unat (nPairs * 8)) r) (\<lambda>index r.
                andThen (parsePairs (unat nPairs) index 0 [] r) (\<lambda>resultMap r.
                  Inr (\<lparr> hm_Tag = messageTag, hm_Data = resultMap \<rparr>, r)))))"

definition getTagsSorted :: "HandshakeMessage \<Rightarrow> Tag list" where
  "getTagsSorted h = sort (map fst (hm_Data h))"

definition lookupTag :: "HandshakeMessage \<Rightarrow> Tag \<Rightarrow> byte list" where
  "lookupTag h t = (case map_of (hm_Data h) t of Some v \<Rightarrow> v | None \<Rightarrow> [])"

text \<open>The loop of \<open>Write\<close>: the index data and the values.\<close>

fun writePairs :: "(Tag \<Rightarrow> byte list) \<Rightarrow> uint32 \<Rightarrow> Tag list \<Rightarrow> byte list \<times> byte list" where
  "writePairs data offset [] = ([], [])"
| "writePairs data offset (t # ts) =
     (let v = data t;
          offset = offset + of_nat (length v);
          (indexData, values) = writePairs data offset ts
      in (WriteUint32 littleEndian t @ WriteUint32 littleEndian offset @ indexData, v @ values))"

definition HandshakeMessage_Write :: "HandshakeMessage \<Rightarrow> byte list" where
  "HandshakeMessage_Write h =
     (let (indexData, values) = writePairs (lookupTag h) 0 (getTagsSorted h)
      in WriteUint32 littleEndian (hm_Tag h)
         @ WriteUint16 littleEndian (of_nat (length (hm_Data h))) @ WriteUint16 littleEndian 0
         @ indexData @ values)"

section \<open>Public reset\<close>

record PublicReset =
  pr_RejectedPacketNumber :: PacketNumber
  pr_Nonce :: uint64

text \<open>Tags are four letters, the first in the lowest byte.\<close>

definition TagPRST :: Tag where
  "TagPRST = 0x50 + push_bit 8 0x52 + push_bit 16 0x53 + push_bit 24 0x54"

definition TagRSEQ :: Tag where
  "TagRSEQ = 0x52 + push_bit 8 0x53 + push_bit 16 0x45 + push_bit 24 0x51"

definition TagRNON :: Tag where
  "TagRNON = 0x52 + push_bit 8 0x4E + push_bit 16 0x4F + push_bit 24 0x4E"

definition WritePublicReset :: "ConnectionID \<Rightarrow> PacketNumber \<Rightarrow> uint64 \<Rightarrow> byte list" where
  "WritePublicReset connectionID rejectedPacketNumber nonceProof =
     [0x0a] @ WriteUint64 littleEndian connectionID
     @ WriteUint32 littleEndian TagPRST @ WriteUint32 littleEndian 2
     @ WriteUint32 littleEndian TagRNON @ WriteUint32 littleEndian 8
     @ WriteUint32 littleEndian TagRSEQ @ WriteUint32 littleEndian 16
     @ WriteUint64 littleEndian nonceProof @ WriteUint64 littleEndian rejectedPacketNumber"

definition ParsePublicReset :: "reader \<Rightarrow> go_error + (PublicReset \<times> reader)" where
  "ParsePublicReset r =
     andThen (ParseHandshakeMessage r) (\<lambda>msg r.
       if hm_Tag msg \<noteq> TagPRST then Inl (GoErr ''wrong public reset tag'')
       else case map_of (hm_Data msg) TagRSEQ of
              None \<Rightarrow> Inl (GoErr ''RSEQ missing'')
            | Some rseq \<Rightarrow>
                if length rseq \<noteq> 8 then Inl (GoErr ''invalid RSEQ tag'')
                else case map_of (hm_Data msg) TagRNON of
                       None \<Rightarrow> Inl (GoErr ''RNON missing'')
                     | Some rnon \<Rightarrow>
                         if length rnon \<noteq> 8 then Inl (GoErr ''invalid RNON tag'')
                         else Inr (\<lparr> pr_RejectedPacketNumber = leUint64 rseq,
                                     pr_Nonce = leUint64 rnon \<rparr>, r))"

section \<open>Messages can be read back\<close>

lemma length_le_writes [simp]:
  "length (le_WriteUint32 x) = 4" "length (le_WriteUint64 y) = 8" "length (le_WriteUint16 z) = 2"
  by (simp_all add: writes_le)

lemma le_fields [simp]:
  "WriteUint32 littleEndian = le_WriteUint32" "WriteUint64 littleEndian = le_WriteUint64"
  "WriteUint16 littleEndian = le_WriteUint16" "ReadUint64 littleEndian = le_ReadUint64"
  by (simp_all add: littleEndian_def)

lemma leUint_Write [simp]:
  "leUint32 (le_WriteUint32 x @ r) = x" "leUint64 (le_WriteUint64 y @ r) = y"
  using unsigned_less [where ?'a = nat, of x] unsigned_less [where ?'a = nat, of y]
  by (simp_all add: leUint32_def leUint64_def writes_le le_val_le_bytes)

lemma leUint_Write_all [simp]:
  "leUint32 (le_WriteUint32 x) = x" "leUint64 (le_WriteUint64 y) = y"
  using leUint_Write [of _ "[]"] by simp_all

lemma leUint32_count:
  "n < 65536 \<Longrightarrow> leUint32 (le_WriteUint16 (of_nat n) @ le_WriteUint16 0) = of_nat n"
  by (simp add: leUint32_def writes_le le_val_append le_val_le_bytes unat_of_nat)

lemma update_fresh: "k \<notin> fst ` set m \<Longrightarrow> AList.update k v m = m @ [(k, v)]"
  by (induction m) auto

lemma length_writePairs: "writePairs f off ts = (idx, vals) \<Longrightarrow> length idx = 8 * length ts"
  by (induction ts arbitrary: off idx vals) (auto simp: Let_def split: prod.splits)

lemma parsePairs_writePairs:
  assumes "writePairs f off ts = (idx, vals)" "distinct ts" "set ts \<inter> fst ` set m = {}"
    and "\<And>t. t \<in> set ts \<Longrightarrow> length (f t) \<le> 4000"
  shows "parsePairs (length ts) idx off m (vals @ r) = Inr (m @ map (\<lambda>t. (t, f t)) ts, r)"
  using assms
proof (induction ts arbitrary: off idx vals m)
  case (Cons t ts)
  let ?off = "off + of_nat (length (f t))"
  obtain idx' vals' where w: "writePairs f ?off ts = (idx', vals')" by (cases "writePairs f ?off ts")
  have v: "idx = le_WriteUint32 t @ le_WriteUint32 ?off @ idx'" "vals = f t @ vals'"
    using Cons.prems(1) w by (auto simp: Let_def)
  have len: "length (f t) \<le> 4000" using Cons.prems(4) by simp
  then have l: "unat (of_nat (length (f t)) :: uint32) = length (f t)"
    "\<not> (of_nat (length (f t)) :: uint32) > CryptoParameterMaxLength"
    by (simp_all add: unat_of_nat CryptoParameterMaxLength_def word_less_nat_alt)
  have "parsePairs (length ts) idx' ?off (AList.update t (f t) m) (vals' @ r) =
      Inr (AList.update t (f t) m @ map (\<lambda>t. (t, f t)) ts, r)"
    using Cons.prems(2-4) by (intro Cons.IH [OF w]) (auto simp: update_fresh)
  then show ?case using l Cons.prems(3) by (simp add: v Let_def ReadFull_append update_fresh)
qed simp

text \<open>The messages that can be written: a map within the limits of the parser.\<close>

definition HandshakeMessage_valid :: "HandshakeMessage \<Rightarrow> bool" where
  "HandshakeMessage_valid h \<longleftrightarrow>
     distinct (map fst (hm_Data h)) \<and> length (hm_Data h) \<le> 128
     \<and> (\<forall>(t, v) \<in> set (hm_Data h). length v \<le> 4000)"

definition HandshakeMessage_sorted :: "HandshakeMessage \<Rightarrow> HandshakeMessage" where
  "HandshakeMessage_sorted h =
     h\<lparr> hm_Data := map (\<lambda>t. (t, lookupTag h t)) (getTagsSorted h) \<rparr>"

lemma lookupTag_mem: "t \<in> set (map fst (hm_Data h)) \<Longrightarrow> (t, lookupTag h t) \<in> set (hm_Data h)"
  by (auto simp: lookupTag_def split: option.splits dest: map_of_SomeD simp: map_of_eq_None_iff)

lemma map_of_tags: "map_of (map (\<lambda>t. (t, f t)) ts) t = (if t \<in> set ts then Some (f t) else None)"
  by (induction ts) auto

lemma sorted_same_map: "map_of (hm_Data (HandshakeMessage_sorted h)) = map_of (hm_Data h)"
proof (rule ext)
  fix t
  show "map_of (hm_Data (HandshakeMessage_sorted h)) t = map_of (hm_Data h) t"
    using map_of_eq_None_iff [of "hm_Data h" t]
    by (cases "map_of (hm_Data h) t")
      (simp_all add: HandshakeMessage_sorted_def map_of_tags getTagsSorted_def lookupTag_def)
qed

lemma HandshakeMessage_write_parse:
  assumes "HandshakeMessage_valid h"
  shows "ParseHandshakeMessage (HandshakeMessage_Write h @ r) = Inr (HandshakeMessage_sorted h, r)"
proof -
  obtain idx vals where w: "writePairs (lookupTag h) 0 (getTagsSorted h) = (idx, vals)"
    by (cases "writePairs (lookupTag h) 0 (getTagsSorted h)")
  let ?n = "length (hm_Data h)"
  have n: "length (getTagsSorted h) = ?n" "?n \<le> 128"
    using assms by (simp_all add: getTagsSorted_def HandshakeMessage_valid_def)
  have p: "parsePairs ?n idx 0 [] (vals @ r) =
      Inr (map (\<lambda>t. (t, lookupTag h t)) (getTagsSorted h), r)"
    using parsePairs_writePairs [OF w, of "[]" r] assms lookupTag_mem [of _ h] unfolding n
    by (force simp: HandshakeMessage_valid_def getTagsSorted_def)
  have u: "unat (of_nat ?n :: uint32) = ?n" "\<not> (of_nat ?n :: uint32) > CryptoMaxParams"
    "unat ((of_nat ?n :: uint32) * 8) = 8 * ?n"
    using n(2) by (simp_all add: unat_of_nat CryptoMaxParams_def word_less_nat_alt unat_word_ariths)
  have c: "ReadFull 4 (le_WriteUint16 (of_nat ?n) @ le_WriteUint16 0 @ x) =
      Inr (le_WriteUint16 (of_nat ?n) @ le_WriteUint16 0, x)" for x
    using ReadFull_append [of "le_WriteUint16 (of_nat ?n) @ le_WriteUint16 0" 4 x] by simp
  show ?thesis
    using leUint32_count [of ?n] n u p length_writePairs [OF w]
    by (simp add: HandshakeMessage_Write_def w ParseHandshakeMessage_def Let_def c ReadFull_append
        HandshakeMessage_sorted_def)
qed

text \<open>The parser only returns messages within the limits.\<close>

lemma parsePairs_valid:
  assumes "parsePairs n index start m r = Inr (m', r')" "distinct (map fst m)"
    and "\<forall>(t, v) \<in> set m. length v \<le> 4000"
  shows "distinct (map fst m') \<and> length m' \<le> length m + n \<and> (\<forall>(t, v) \<in> set m'. length v \<le> 4000)"
  using assms
proof (induction n arbitrary: index start m r)
  case (Suc n)
  let ?tag = "leUint32 (take 4 index)" and ?stop = "leUint32 (take 4 (drop 4 index))"
  have l: "\<not> CryptoParameterMaxLength < ?stop - start" using Suc.prems(1) by (auto simp: Let_def)
  obtain data r1 where d: "ReadFull (unat (?stop - start)) r = Inr (data, r1)"
    "parsePairs n (drop 8 index) ?stop (AList.update ?tag data m) r1 = Inr (m', r')"
    using Suc.prems(1) l by (auto simp: Let_def elim!: andThen_InrE)
  have "length data \<le> 4000"
    using ReadFull_length [OF d(1)] l by (simp add: word_less_nat_alt CryptoParameterMaxLength_def)
  moreover have "set (AList.update ?tag data m) \<subseteq> insert (?tag, data) (set m)"
    by (induction m) auto
  ultimately have v: "\<forall>(t, v) \<in> set (AList.update ?tag data m). length v \<le> 4000"
    using Suc.prems(3) by fastforce
  have "length (AList.update ?tag data m) \<le> Suc (length m)" by (induction m) auto
  with Suc.IH [OF d(2) distinct_update [OF Suc.prems(2)] v] show ?case by auto
qed simp

lemma ParseHandshakeMessage_valid:
  assumes "ParseHandshakeMessage r = Inr (h, r')"
  shows "HandshakeMessage_valid h"
proof -
  from assms obtain n index r1 where n: "\<not> n > CryptoMaxParams"
    and p: "parsePairs (unat n) index 0 [] r1 = Inr (hm_Data h, r')"
    unfolding ParseHandshakeMessage_def Let_def by (auto elim!: andThen_InrE split: if_splits)
  from n have "unat n \<le> 128" by (simp add: word_less_nat_alt CryptoMaxParams_def)
  with parsePairs_valid [OF p] show ?thesis by (simp add: HandshakeMessage_valid_def)
qed

section \<open>Properties\<close>

text \<open>
  C6. Handshake messages: a message with at most 128 parameters of at most 4000 bytes
  is read back as the same map (its entries in tag order), and every message that the
  parser accepts is within these limits.
\<close>

theorem HandshakeMessage_roundtrip:
  "(HandshakeMessage_valid h \<longrightarrow>
      ParseHandshakeMessage (HandshakeMessage_Write h @ r) = Inr (HandshakeMessage_sorted h, r)
      \<and> map_of (hm_Data (HandshakeMessage_sorted h)) = map_of (hm_Data h)
      \<and> sorted (map fst (hm_Data (HandshakeMessage_sorted h))))
    \<and> (ParseHandshakeMessage s = Inr (g, s') \<longrightarrow> HandshakeMessage_valid g)"
  using HandshakeMessage_write_parse sorted_same_map ParseHandshakeMessage_valid
  by (simp add: HandshakeMessage_sorted_def getTagsSorted_def comp_def)

theorem HandshakeMessage_roundtrip_witness:
  "ParseHandshakeMessage (HandshakeMessage_Write
       \<lparr> hm_Tag = 7, hm_Data = [(9, [1, 2]), (3, [])] \<rparr> @ [5]) =
     Inr (\<lparr> hm_Tag = 7, hm_Data = [(3, []), (9, [1, 2])] \<rparr>, [5])"
proof -
  let ?h = "\<lparr> hm_Tag = 7, hm_Data = [(9, [1, 2]), (3, [])] \<rparr>"
  have "HandshakeMessage_valid ?h" by (simp add: HandshakeMessage_valid_def)
  with HandshakeMessage_roundtrip [of ?h "[5]"] show ?thesis
    by (simp add: HandshakeMessage_sorted_def getTagsSorted_def lookupTag_def)
qed

text \<open>
  Public reset: from the packet that one end writes, the other end parses a header
  with the reset flag and the connection ID, and the reset message carries exactly the
  rejected packet number and the nonce.
\<close>

theorem PublicReset_roundtrip:
  assumes "connectionID \<noteq> 0"
  shows "andThen (ParsePublicHeader (WritePublicReset connectionID pn nonce) pers v) (\<lambda>hdr r.
      andThen (ParsePublicReset r) (\<lambda>pr r.
        Inr (ph_ResetFlag hdr, ph_ConnectionID hdr, pr_RejectedPacketNumber pr, pr_Nonce pr, r))) =
    Inr (True, connectionID, pn, nonce, [])"
proof -
  let ?msg = "le_WriteUint32 TagPRST @ le_WriteUint32 2 @ le_WriteUint32 TagRNON @ le_WriteUint32 8
     @ le_WriteUint32 TagRSEQ @ le_WriteUint32 16 @ le_WriteUint64 nonce @ le_WriteUint64 pn"
  let ?idx = "le_WriteUint32 TagRNON @ le_WriteUint32 8 @ le_WriteUint32 TagRSEQ @ le_WriteUint32 16"
  have idx: "ReadFull 16 (?idx @ x) = Inr (?idx, x)" for x
    by (rule ReadFull_append) simp
  have two: "parsePairs 2 = parsePairs (Suc (Suc 0))" by (simp only: numeral_2_eq_2)
  have "ParsePublicReset ?msg = Inr (\<lparr> pr_RejectedPacketNumber = pn, pr_Nonce = nonce \<rparr>, [])"
    using idx [of "le_WriteUint64 nonce @ le_WriteUint64 pn"]
      ReadFull_append [of "le_WriteUint64 pn" 8 "[]"]
    by (simp add: ParsePublicReset_def ParseHandshakeMessage_def ReadFull_append Let_def
        CryptoMaxParams_def CryptoParameterMaxLength_def TagRSEQ_def TagRNON_def two)
  moreover have "ParsePublicHeader (WritePublicReset connectionID pn nonce) pers v =
      Inr (emptyHeader\<lparr> ph_ConnectionID := connectionID, ph_ResetFlag := True \<rparr>, ?msg)"
    using assms le.read_write
    by (simp add: ParsePublicHeader_def WritePublicReset_def Let_def emptyHeader_def
        hasPacketNumber_def parsePathAndNumber_def)
  ultimately show ?thesis by simp
qed

theorem PublicReset_roundtrip_witness:
  "andThen (ParsePublicHeader (WritePublicReset 9 1234 77) PerspectiveServer 512) (\<lambda>hdr r.
      andThen (ParsePublicReset r) (\<lambda>pr r.
        Inr (ph_ResetFlag hdr, ph_ConnectionID hdr, pr_RejectedPacketNumber pr, pr_Nonce pr, r))) =
    Inr (True, 9, 1234, 77, [])"
  by (rule PublicReset_roundtrip) simp

end
