(* ===== verification/GoFloat.thy ===== *)
theory GoFloat
  imports Prelude Complex_Main "HOL-Library.Log_Nat"
begin

text \<open>
  The floating point arithmetic that the congestion control uses. A finite \<open>float32\<close> or
  \<open>float64\<close> value is the rational number it stands for; every operation computes the exact
  result and rounds it to the nearest value of the type, ties to even. All values of the
  program are far inside the normal range of both types, so exponents are not bounded here.
  Conversions to integers truncate; out of range they yield what amd64 yields.
\<close>

section \<open>Rounding\<close>

text \<open>The exponent of a positive number: \<open>2 ^ ilog2 x \<le> x < 2 ^ (ilog2 x + 1)\<close>.\<close>

definition ilog2 :: "rat \<Rightarrow> int" where
  "ilog2 x = (if 1 \<le> x then int (floorlog 2 (nat \<lfloor>x\<rfloor>)) - 1
              else - int (floorlog 2 (nat (\<lceil>1 / x\<rceil> - 1))))"

definition roundEven :: "rat \<Rightarrow> int" where
  "roundEven x =
     (let f = \<lfloor>x\<rfloor>; d = x - of_int f
      in if d < 1 / 2 \<or> (d = 1 / 2 \<and> even f) then f else f + 1)"

text \<open>The nearest number with \<open>p\<close> significant bits.\<close>

definition fround :: "nat \<Rightarrow> rat \<Rightarrow> rat" where
  "fround p x =
     (if x = 0 then 0
      else let u = 2 powi (ilog2 \<bar>x\<bar> - (int p - 1)) in of_int (roundEven (x / u)) * u)"

abbreviation f32 :: "rat \<Rightarrow> rat" where
  "f32 \<equiv> fround 24"

abbreviation f64 :: "rat \<Rightarrow> rat" where
  "f64 \<equiv> fround 53"

section \<open>Conversions to integers\<close>

definition ftrunc :: "rat \<Rightarrow> int" where
  "ftrunc x = (if 0 \<le> x then \<lfloor>x\<rfloor> else \<lceil>x\<rceil>)"

definition toInt64 :: "rat \<Rightarrow> int" where
  "toInt64 x = (let t = ftrunc x in if - (2 ^ 63) \<le> t \<and> t < 2 ^ 63 then t else - (2 ^ 63))"

definition toUint64 :: "rat \<Rightarrow> uint64" where
  "toUint64 x = (let t = ftrunc x in if - (2 ^ 63) \<le> t \<and> t < 2 ^ 64 then of_int t
                                     else if t < 0 then 2 ^ 63 else 0)"

section \<open>Facts\<close>

lemma roundEven_of_int [simp]: "roundEven (of_int n) = n"
  by (simp add: roundEven_def)

lemma roundEven_near:
  assumes "\<bar>x - of_int m\<bar> < 1 / 2"
  shows "roundEven x = m"
proof -
  have "\<lfloor>x\<rfloor> = (if of_int m \<le> x then m else m - 1)"
    using assms by (auto simp: floor_eq_iff abs_if split: if_splits)
  then show ?thesis using assms by (auto simp: roundEven_def Let_def abs_if split: if_splits)
qed

lemma floorlog2_bounds:
  assumes "0 < n"
  shows "2 ^ (floorlog 2 n - 1) \<le> n" "n < 2 ^ floorlog 2 n" "0 < floorlog 2 n"
  using floorlog_bounds [of n 2] assms by (simp_all add: floorlog_def)

lemma ilog2_bounds:
  assumes "0 < x"
  shows "2 powi (ilog2 x) \<le> x" "x < 2 powi (ilog2 x + 1)"
proof -
  have "2 powi (ilog2 x) \<le> x \<and> x < 2 powi (ilog2 x + 1)"
  proof (cases "1 \<le> x")
    case True
    define n where "n = nat \<lfloor>x\<rfloor>"
    have n: "0 < n" "of_nat n \<le> x" "x < of_nat n + 1" using True
      using floor_correct [of x] by (simp_all add: n_def)
    note l = floorlog2_bounds [OF n(1)]
    define k where "k = floorlog 2 n"
    have "2 powi (int k - 1) = (2 ^ (k - 1) :: rat)" using l(3)
      by (simp add: power_int_def k_def nat_diff_distrib)
    moreover have "(2 ^ (k - 1) :: rat) \<le> of_nat n" using l(1) 
      by (metis k_def of_nat_le_iff of_nat_numeral of_nat_power)
    moreover have "of_nat n + 1 \<le> (2 ^ k :: rat)" using l(2)
      by (metis k_def Suc_leI of_nat_Suc of_nat_le_iff of_nat_numeral of_nat_power add.commute)
    ultimately have "2 powi (int k - 1) \<le> x" "x < 2 ^ k" using n by linarith+
    then show ?thesis using True by (simp add: ilog2_def n_def [symmetric] k_def [symmetric])
  next
    case False
    define y where "y = 1 / x"
    have y: "1 < y" "x = 1 / y" using False assms by (simp_all add: y_def)
    define n where "n = nat (\<lceil>y\<rceil> - 1)"
    have n: "0 < n" "of_nat n < y" "y \<le> of_nat n + 1" using y by (auto simp: n_def) linarith+
    note l = floorlog2_bounds [OF n(1)]
    define k where "k = floorlog 2 n"
    have "(2 ^ (k - 1) :: rat) \<le> of_nat n" using l(1) 
      by (metis k_def of_nat_le_iff of_nat_numeral of_nat_power)
    moreover have "of_nat n + 1 \<le> (2 ^ k :: rat)" using l(2)
      by (metis k_def Suc_leI of_nat_Suc of_nat_le_iff of_nat_numeral of_nat_power add.commute)
    ultimately have b: "2 ^ (k - 1) < y" "y \<le> 2 ^ k" using n by linarith+
    have e: "ilog2 x = - int k" using False by (simp add: ilog2_def k_def n_def y_def)
    have "2 powi (- int k + 1) = (1 / 2 ^ (k - 1) :: rat)" using l(3)
      by (cases k) (simp_all add: power_int_def k_def [symmetric] nat_diff_distrib power_divide)
    moreover have "1 / 2 ^ k \<le> x" "x < 1 / 2 ^ (k - 1)"
      using b y(1) unfolding y(2) by (auto intro: divide_left_mono divide_strict_left_mono)
    ultimately show ?thesis unfolding e by (simp add: power_int_minus inverse_eq_divide)
  qed
  then show "2 powi (ilog2 x) \<le> x" "x < 2 powi (ilog2 x + 1)" by blast+
qed

lemma ilog2_unique:
  assumes "2 powi k \<le> x" "x < 2 powi (k + 1)"
  shows "ilog2 x = k"
proof -
  have "0 < x" using assms(1) by (rule less_le_trans [OF zero_less_power_int, rotated]) simp
  note b = ilog2_bounds [OF this]
  have "2 powi k < (2 powi (ilog2 x + 1) :: rat)" "2 powi (ilog2 x) < (2 powi (k + 1) :: rat)"
    using assms b by linarith+
  then have "k < ilog2 x + 1" "ilog2 x < k + 1"
    by (metis linorder_not_less one_le_numeral power_int_increasing)+
  then show ?thesis by simp
qed

lemma fround_eq:
  assumes "2 powi k \<le> \<bar>x\<bar>" "\<bar>x\<bar> < 2 powi (k + 1)"
    and "\<bar>x / 2 powi (k - (int p - 1)) - of_int m\<bar> < 1 / 2"
  shows "fround p x = of_int m * 2 powi (k - (int p - 1))"
proof -
  have "(0 :: rat) < 2 powi k" by simp
  then have "x \<noteq> 0" using assms(1) by linarith
  then show ?thesis using ilog2_unique [OF assms(1,2)] roundEven_near [OF assms(3)] by (simp add: fround_def Let_def)
qed

text \<open>A number whose significand has at most \<open>p\<close> bits is not changed by rounding.\<close>

lemma fround_exact:
  assumes "\<bar>m\<bar> < 2 ^ p"
  shows "fround p (of_int m * 2 powi k) = of_int m * 2 powi k"
proof (cases "m = 0")
  case False
  define x where "x = (of_int m :: rat) * 2 powi k"
  have x: "x \<noteq> 0" using False by (simp add: x_def)
  have "\<bar>x\<bar> < 2 ^ p * 2 powi k" using assms
    by (simp add: x_def abs_mult) (metis of_int_abs of_int_less_iff of_int_numeral of_int_power)
  then have "2 powi (ilog2 \<bar>x\<bar>) < (2 powi (int p + k) :: rat)"
    using ilog2_bounds(1) [of "\<bar>x\<bar>"] x by (simp add: power_int_add)
  then have e: "ilog2 \<bar>x\<bar> < int p + k"
    by (metis linorder_not_less one_le_numeral power_int_increasing)
  define j where "j = nat (k - (ilog2 \<bar>x\<bar> - (int p - 1)))"
  have k: "k = int j + (ilog2 \<bar>x\<bar> - (int p - 1))" using e by (simp add: j_def)
  have "x / 2 powi (ilog2 \<bar>x\<bar> - (int p - 1)) = of_int (m * 2 ^ j)"
    unfolding x_def by (subst k, simp add: power_int_add x_def)
  then have "roundEven (x / 2 powi (ilog2 \<bar>x\<bar> - (int p - 1))) = m * 2 ^ j"
    by (simp only: roundEven_of_int)
  then have "fround p x = of_int m * 2 ^ j * 2 powi (ilog2 \<bar>x\<bar> - (int p - 1))"
    using x by (simp add: fround_def Let_def)
  also have "\<dots> = of_int m * 2 powi (int j + (ilog2 \<bar>x\<bar> - (int p - 1)))" by (simp add: power_int_add)
  also have "\<dots> = x" using k by (simp add: x_def)
  finally show ?thesis by (simp add: x_def)
qed (simp add: fround_def)

text \<open>Integers and fractions with a small power of two as denominator.\<close>

lemma fround_of_int: "\<bar>m\<bar> < 2 ^ p \<Longrightarrow> fround p (of_int m) = of_int m"
  using fround_exact [of m p 0] by simp

lemma fround_half: "\<bar>m\<bar> < 2 ^ p \<Longrightarrow> fround p (of_int m / 2) = of_int m / 2"
  using fround_exact [of m p "- 1"] by (simp add: power_int_minus)

lemma fround_quarter: "\<bar>m\<bar> < 2 ^ p \<Longrightarrow> fround p (of_int m / 4) = of_int m / 4"
  using fround_exact [of m p "- 2"] by (simp add: power_int_minus)

lemma fround_eighth: "\<bar>m\<bar> < 2 ^ p \<Longrightarrow> fround p (of_int m / 8) = of_int m / 8"
  using fround_exact [of m p "- 3"] by (simp add: power_int_minus)

lemma toInt64_divide:
  assumes "0 \<le> m" "0 < d" "m < 2 ^ 63"
  shows "toInt64 (of_int m / of_int d) = m div d"
proof -
  have "0 \<le> m div d" "m div d \<le> m"
    using assms zdiv_mono2 [of m 1 d] by (simp_all add: pos_imp_zdiv_nonneg_iff)
  then show ?thesis using assms
    by (simp add: toInt64_def ftrunc_def Let_def floor_divide_of_int_eq)
qed

text \<open>Rounding is monotone and idempotent.\<close>

lemma roundEven_mono:
  assumes "x \<le> y"
  shows "roundEven x \<le> roundEven y"
proof -
  have b: "\<lfloor>z\<rfloor> \<le> roundEven z \<and> roundEven z \<le> \<lfloor>z\<rfloor> + 1" for z by (simp add: roundEven_def Let_def)
  show ?thesis
  proof (cases "\<lfloor>x\<rfloor> = \<lfloor>y\<rfloor>")
    case True
    then show ?thesis using assms by (auto simp: roundEven_def Let_def)
  next
    case False
    then have "\<lfloor>x\<rfloor> + 1 \<le> \<lfloor>y\<rfloor>" using floor_mono [OF assms] by linarith
    then show ?thesis using b [of x] b [of y] by linarith
  qed
qed

lemma powi_split: "(2 :: rat) powi (k + int n) = 2 ^ n * 2 powi k"
  by (simp add: power_int_add)

lemma fround_bounds:
  assumes "0 < x" "1 \<le> p"
  shows "2 powi (ilog2 x) \<le> fround p x" "fround p x \<le> 2 powi (ilog2 x + 1)"
proof -
  define u where "u = (2 powi (ilog2 x - (int p - 1)) :: rat)"
  have u: "0 < u" by (simp add: u_def)
  have lo: "2 powi (ilog2 x) = 2 ^ (p - 1) * u" and hi: "2 powi (ilog2 x + 1) = 2 ^ p * u"
    using powi_split [of "ilog2 x - (int p - 1)" "p - 1"] powi_split [of "ilog2 x - (int p - 1)" p] assms(2)
    by (simp_all add: u_def)
  note b = ilog2_bounds [OF assms(1)]
  have "(2 ^ (p - 1) :: rat) \<le> x / u" "x / u \<le> 2 ^ p"
    using b u unfolding lo hi by (simp_all add: field_simps)
  then have "roundEven (of_int (2 ^ (p - 1))) \<le> roundEven (x / u)" "roundEven (x / u) \<le> roundEven (of_int (2 ^ p))"
    by (auto intro!: roundEven_mono)
  then have "(of_int (2 ^ (p - 1)) :: rat) \<le> of_int (roundEven (x / u))" "of_int (roundEven (x / u)) \<le> (of_int (2 ^ p) :: rat)"
    by (simp_all only: roundEven_of_int of_int_le_iff)
  moreover have "fround p x = of_int (roundEven (x / u)) * u" using assms(1) by (simp add: fround_def u_def Let_def)
  ultimately show "2 powi (ilog2 x) \<le> fround p x" "fround p x \<le> 2 powi (ilog2 x + 1)"
    using u unfolding lo hi by (simp_all add: mult_right_mono)
qed

lemma fround_nonneg: "0 \<le> x \<Longrightarrow> 1 \<le> p \<Longrightarrow> 0 \<le> fround p x"
proof (cases "x = 0")
  case False
  assume "0 \<le> x" "1 \<le> p"
  then have "2 powi (ilog2 x) \<le> fround p x" using False by (intro fround_bounds(1)) simp_all
  moreover have "(0 :: rat) < 2 powi (ilog2 x)" by simp
  ultimately show "0 \<le> fround p x" by linarith
qed (simp add: fround_def)

lemma fround_mono:
  assumes "0 \<le> x" "x \<le> y" "1 \<le> p"
  shows "fround p x \<le> fround p y"
proof (cases "x = 0")
  case True
  then show ?thesis using fround_nonneg assms by (simp add: fround_def [of p 0])
next
  case False
  then have pos: "0 < x" "0 < y" using assms by auto
  have "2 powi (ilog2 x) < (2 powi (ilog2 y + 1) :: rat)"
    using ilog2_bounds [OF pos(1)] ilog2_bounds [OF pos(2)] assms(2) by linarith
  then have le: "ilog2 x \<le> ilog2 y"
    by (metis linorder_not_less one_le_numeral power_int_increasing zless_add1_eq order_less_le)
  show ?thesis
  proof (cases "ilog2 x = ilog2 y")
    case True
    define u where "u = (2 powi (ilog2 y - (int p - 1)) :: rat)"
    have "roundEven (x / u) \<le> roundEven (y / u)"
      using assms(2) by (intro roundEven_mono) (simp add: u_def divide_right_mono)
    then have "(of_int (roundEven (x / u)) :: rat) * u \<le> of_int (roundEven (y / u)) * u"
      by (intro mult_right_mono) (simp_all add: u_def)
    then show ?thesis using pos True by (simp add: fround_def Let_def u_def)
  next
    case False
    then have "ilog2 x + 1 \<le> ilog2 y" using le by simp
    then have "(2 powi (ilog2 x + 1) :: rat) \<le> 2 powi (ilog2 y)" by (intro power_int_increasing) simp_all
    then show ?thesis using fround_bounds [OF pos(1) assms(3)] fround_bounds [OF pos(2) assms(3)] by linarith
  qed
qed

lemma fround_idem:
  assumes "0 \<le> x" "1 \<le> p"
  shows "fround p (fround p x) = fround p x"
proof (cases "x = 0")
  case False
  define k where "k = ilog2 x - (int p - 1)"
  define m where "m = roundEven (x / 2 powi k)"
  have x: "0 < x" using assms False by simp
  have f: "fround p x = of_int m * 2 powi k" using x by (simp add: fround_def Let_def k_def m_def)
  have "2 powi (ilog2 x + 1) = 2 ^ p * (2 powi k :: rat)"
    using powi_split [of k p] by (simp add: k_def)
  then have "of_int m * 2 powi k \<le> 2 ^ p * (2 powi k :: rat)" using fround_bounds(2) [OF x assms(2)] f by simp
  then have "(of_int m :: rat) \<le> of_int (2 ^ p)" by simp
  then have m: "m \<le> 2 ^ p" by (simp only: of_int_le_iff)
  have "0 \<le> of_int m * (2 powi k :: rat)" using fround_nonneg [OF assms] f by simp
  moreover have "(0 :: rat) < 2 powi k" by simp
  ultimately have "\<not> (of_int m :: rat) < 0" by (meson mult_neg_pos linorder_not_less)
  then have m0: "0 \<le> m" by simp
  show ?thesis
  proof (cases "m = 2 ^ p")
    case True
    then have "fround p x = of_int 1 * 2 powi (k + int p)" unfolding f by (simp add: powi_split)
    then show ?thesis using fround_exact [of 1 p "k + int p"] assms(2) by simp
  next
    case False
    then show ?thesis using fround_exact [of m p k] m m0 unfolding f by simp
  qed
qed (simp add: fround_def)

end
