(* ===== verification/ConnectionParams.thy ===== *)
theory ConnectionParams
  imports Handshake GoFloat
begin

text \<open>
  The negotiation of the connection parameters
  (\<open>internal/handshake/connection_parameters_manager.go\<close>). The tag map of a handshake message
  is a partial function. An error leaves the updates made before it in place, so
  \<open>SetFromMap\<close> returns the state together with the error.
\<close>

section \<open>Constants\<close>

definition ReceiveStreamFlowControlWindow :: ByteCount where
  "ReceiveStreamFlowControlWindow = push_bit 10 1 * 32"

definition ReceiveConnectionFlowControlWindow :: ByteCount where
  "ReceiveConnectionFlowControlWindow = push_bit 10 1 * 48"

definition InitialStreamFlowControlWindow :: ByteCount where
  "InitialStreamFlowControlWindow = push_bit 14 1"

definition InitialConnectionFlowControlWindow :: ByteCount where
  "InitialConnectionFlowControlWindow = push_bit 14 1"

definition MaxStreamsPerConnection :: uint32 where
  "MaxStreamsPerConnection = 10000"

definition MaxIncomingDynamicStreamsPerConnection :: uint32 where
  "MaxIncomingDynamicStreamsPerConnection = 10000"

definition MaxStreamsMultiplier :: rat where
  "MaxStreamsMultiplier = 11 / 10"

definition MaxStreamsMinimumIncrement :: uint32 where
  "MaxStreamsMinimumIncrement = 10"

definition TagTCID :: Tag where
  "TagTCID = 0x54 + push_bit 8 0x43 + push_bit 16 0x49 + push_bit 24 0x44"

definition TagMSPC :: Tag where
  "TagMSPC = 0x4D + push_bit 8 0x53 + push_bit 16 0x50 + push_bit 24 0x43"

definition TagMIDS :: Tag where
  "TagMIDS = 0x4D + push_bit 8 0x49 + push_bit 16 0x44 + push_bit 24 0x53"

definition TagICSL :: Tag where
  "TagICSL = 0x49 + push_bit 8 0x43 + push_bit 16 0x53 + push_bit 24 0x4C"

definition TagSFCW :: Tag where
  "TagSFCW = 0x53 + push_bit 8 0x46 + push_bit 16 0x43 + push_bit 24 0x57"

definition TagCFCW :: Tag where
  "TagCFCW = 0x43 + push_bit 8 0x46 + push_bit 16 0x43 + push_bit 24 0x57"

definition InvalidCryptoMessageParameter :: ErrorCode where
  "InvalidCryptoMessageParameter = 34"

definition ErrMalformedTag :: go_error where
  "ErrMalformedTag = QuicError InvalidCryptoMessageParameter ''malformed Tag value''"

definition ErrFlowControlRenegotiationNotSupported :: go_error where
  "ErrFlowControlRenegotiationNotSupported = QuicError InvalidCryptoMessageParameter
     ''renegotiation of flow control parameters not supported''"

definition MinUint32 :: "uint32 \<Rightarrow> uint32 \<Rightarrow> uint32" where
  "MinUint32 a b = (if a < b then a else b)"

definition MaxUint32 :: "uint32 \<Rightarrow> uint32 \<Rightarrow> uint32" where
  "MaxUint32 a b = (if a < b then b else a)"

section \<open>State\<close>

record connectionParametersManager =
  cpm_version :: VersionNumber
  cpm_perspective :: Perspective
  flowControlNegotiated :: bool
  truncateConnectionID :: bool
  maxStreamsPerConnection :: uint32
  maxIncomingDynamicStreamsPerConnection :: uint32
  idleConnectionStateLifetime :: Duration
  sendStreamFlowControlWindow :: ByteCount
  sendConnectionFlowControlWindow :: ByteCount
  receiveStreamFlowControlWindow :: ByteCount
  receiveConnectionFlowControlWindow :: ByteCount
  maxReceiveStreamFlowControlWindow :: ByteCount
  maxReceiveConnectionFlowControlWindow :: ByteCount

definition NewConnectionParamatersManager ::
  "Perspective \<Rightarrow> VersionNumber \<Rightarrow> ByteCount \<Rightarrow> ByteCount \<Rightarrow> Duration \<Rightarrow> connectionParametersManager" where
  "NewConnectionParamatersManager pers v maxStream maxConnection idleTimeout =
     \<lparr> cpm_version = v, cpm_perspective = pers, flowControlNegotiated = False,
       truncateConnectionID = False,
       maxStreamsPerConnection = MaxStreamsPerConnection,
       maxIncomingDynamicStreamsPerConnection = MaxStreamsPerConnection,
       idleConnectionStateLifetime = idleTimeout,
       sendStreamFlowControlWindow = InitialStreamFlowControlWindow,
       sendConnectionFlowControlWindow = InitialConnectionFlowControlWindow,
       receiveStreamFlowControlWindow = ReceiveStreamFlowControlWindow,
       receiveConnectionFlowControlWindow = ReceiveConnectionFlowControlWindow,
       maxReceiveStreamFlowControlWindow = maxStream,
       maxReceiveConnectionFlowControlWindow = maxConnection \<rparr>"

section \<open>Operations\<close>

definition negotiateMaxStreamsPerConnection :: "uint32 \<Rightarrow> uint32" where
  "negotiateMaxStreamsPerConnection clientValue = MinUint32 clientValue MaxStreamsPerConnection"

definition negotiateMaxIncomingDynamicStreamsPerConnection :: "uint32 \<Rightarrow> uint32" where
  "negotiateMaxIncomingDynamicStreamsPerConnection clientValue =
     MinUint32 clientValue MaxIncomingDynamicStreamsPerConnection"

definition negotiateIdleConnectionStateLifetime ::
  "Duration \<Rightarrow> connectionParametersManager \<Rightarrow> Duration" where
  "negotiateIdleConnectionStateLifetime clientValue h =
     MinDuration clientValue (idleConnectionStateLifetime h)"

text \<open>
  One \<open>if value, ok := params[tag]; ok\<close> block: a guard that refuses the tag, the reading of
  the value and the update.
\<close>

definition setTag :: "Tag \<Rightarrow> (connectionParametersManager \<Rightarrow> go_error option)
    \<Rightarrow> (uint32 \<Rightarrow> connectionParametersManager \<Rightarrow> connectionParametersManager)
    \<Rightarrow> (Tag \<Rightarrow> byte list option) \<Rightarrow> connectionParametersManager
    \<Rightarrow> connectionParametersManager \<times> go_error option" where
  "setTag tag refuse update params h =
     (case params tag of
        None \<Rightarrow> (h, None)
      | Some value \<Rightarrow>
          (case refuse h of
             Some e \<Rightarrow> (h, Some e)
           | None \<Rightarrow>
               (case le_ReadUint32 value of
                  Inl _ \<Rightarrow> (h, Some ErrMalformedTag)
                | Inr (clientValue, _) \<Rightarrow> (update clientValue h, None))))"

definition thenSet :: "connectionParametersManager \<times> go_error option
    \<Rightarrow> (connectionParametersManager \<Rightarrow> connectionParametersManager \<times> go_error option)
    \<Rightarrow> connectionParametersManager \<times> go_error option" where
  "thenSet m f = (case m of (h, Some e) \<Rightarrow> (h, Some e) | (h, None) \<Rightarrow> f h)"

definition refuseRenegotiation :: "connectionParametersManager \<Rightarrow> go_error option" where
  "refuseRenegotiation h =
     (if flowControlNegotiated h then Some ErrFlowControlRenegotiationNotSupported else None)"

definition SetFromMap :: "(Tag \<Rightarrow> byte list option) \<Rightarrow> connectionParametersManager
    \<Rightarrow> connectionParametersManager \<times> go_error option" where
  "SetFromMap params h =
     thenSet (thenSet (thenSet (thenSet (thenSet (thenSet
       (if cpm_perspective h = PerspectiveServer
        then setTag TagTCID (\<lambda>_. None) (\<lambda>v h. h\<lparr> truncateConnectionID := (v = 0) \<rparr>) params h
        else (h, None))
       (setTag TagMSPC (\<lambda>_. None)
          (\<lambda>v h. h\<lparr> maxStreamsPerConnection := negotiateMaxStreamsPerConnection v \<rparr>) params))
       (setTag TagMIDS (\<lambda>_. None)
          (\<lambda>v h. h\<lparr> maxIncomingDynamicStreamsPerConnection :=
             negotiateMaxIncomingDynamicStreamsPerConnection v \<rparr>) params))
       (setTag TagICSL (\<lambda>_. None)
          (\<lambda>v h. h\<lparr> idleConnectionStateLifetime :=
             negotiateIdleConnectionStateLifetime (int64 (uint v * Second)) h \<rparr>) params))
       (setTag TagSFCW refuseRenegotiation
          (\<lambda>v h. h\<lparr> sendStreamFlowControlWindow := ucast v \<rparr>) params))
       (setTag TagCFCW refuseRenegotiation
          (\<lambda>v h. h\<lparr> sendConnectionFlowControlWindow := ucast v \<rparr>) params))
       (\<lambda>h. (if params TagSFCW \<noteq> None \<or> params TagCFCW \<noteq> None
             then h\<lparr> flowControlNegotiated := True \<rparr> else h, None))"

definition GetHelloMap :: "connectionParametersManager \<Rightarrow> (Tag \<times> byte list) list" where
  "GetHelloMap h =
     [(TagICSL, le_WriteUint32 (of_int (quot (idleConnectionStateLifetime h) Second))),
      (TagMSPC, le_WriteUint32 (maxStreamsPerConnection h)),
      (TagMIDS, le_WriteUint32 MaxIncomingDynamicStreamsPerConnection),
      (TagCFCW, le_WriteUint32 (ucast (receiveConnectionFlowControlWindow h))),
      (TagSFCW, le_WriteUint32 (ucast (receiveStreamFlowControlWindow h)))]"

definition GetMaxOutgoingStreams :: "connectionParametersManager \<Rightarrow> uint32" where
  "GetMaxOutgoingStreams h = maxIncomingDynamicStreamsPerConnection h"

definition GetMaxIncomingStreams :: uint32 where
  "GetMaxIncomingStreams =
     (let maxStreams = MaxIncomingDynamicStreamsPerConnection
      in MaxUint32 (maxStreams + MaxStreamsMinimumIncrement)
           (of_int (ftrunc (f64 (f64 (of_int (uint maxStreams)) * f64 MaxStreamsMultiplier)))))"

definition TruncateConnectionID :: "connectionParametersManager \<Rightarrow> bool" where
  "TruncateConnectionID h =
     (if cpm_perspective h = PerspectiveClient then False else truncateConnectionID h)"

section \<open>Facts\<close>

lemmas tag_values = TagTCID_def TagMSPC_def TagMIDS_def TagICSL_def TagSFCW_def TagCFCW_def

lemma hello_lookup [simp]:
  "map_of (GetHelloMap h) TagICSL = Some (le_WriteUint32 (of_int (quot (idleConnectionStateLifetime h) Second)))"
  "map_of (GetHelloMap h) TagMSPC = Some (le_WriteUint32 (maxStreamsPerConnection h))"
  "map_of (GetHelloMap h) TagMIDS = Some (le_WriteUint32 MaxIncomingDynamicStreamsPerConnection)"
  "map_of (GetHelloMap h) TagCFCW = Some (le_WriteUint32 (ucast (receiveConnectionFlowControlWindow h)))"
  "map_of (GetHelloMap h) TagSFCW = Some (le_WriteUint32 (ucast (receiveStreamFlowControlWindow h)))"
  "map_of (GetHelloMap h) TagTCID = None"
  by (simp_all add: GetHelloMap_def tag_values)

lemma setTag_absent [simp]: "params tag = None \<Longrightarrow> setTag tag refuse update params h = (h, None)"
  by (simp add: setTag_def)

lemma ReadUint32_WriteUint32: "le_ReadUint32 (le_WriteUint32 v) = Inr (v, [])"
  using le.ReadUint32_enc [of "unat v" "[]"] le.WriteUint32_enc [of v] by (simp add: littleEndian_def)

lemma setTag_written [simp]:
  "params tag = Some (le_WriteUint32 v) \<Longrightarrow> refuse h = None \<Longrightarrow>
     setTag tag refuse update params h = (update v h, None)"
  by (simp add: setTag_def ReadUint32_WriteUint32)

lemma thenSet_simps [simp]:
  "thenSet (h, None) f = f h" "thenSet (h, Some e) f = (h, Some e)"
  by (simp_all add: thenSet_def)

text \<open>The factor 1.1 has no exact representation, but the rounded product is exact.\<close>

lemma GetMaxIncomingStreams_value: "GetMaxIncomingStreams = 11000"
proof -
  have "f64 MaxStreamsMultiplier = of_int 4953959590107546 * 2 powi (0 - (int 53 - 1))"
    by (rule fround_eq) (simp_all add: MaxStreamsMultiplier_def power_int_def power_divide)
  then have "f64 (of_int 10000) * f64 MaxStreamsMultiplier = 10000 * 4953959590107546 / 2 ^ 52"
    using fround_of_int [of 10000 53] by (simp add: power_int_def power_divide)
  moreover have "f64 (10000 * 4953959590107546 / 2 ^ 52) = of_int 6047313952768000 * 2 powi (13 - (int 53 - 1))"
    by (rule fround_eq) (simp_all add: power_int_def power_divide)
  moreover have "of_int 6047313952768000 * 2 powi (13 - (int 53 - 1)) = (11000 :: rat)"
    by (simp add: power_int_def power_divide)
  ultimately have "f64 (f64 (of_int 10000) * f64 MaxStreamsMultiplier) = 11000" by (simp only:)
  then show ?thesis
    by (simp add: GetMaxIncomingStreams_def MaxIncomingDynamicStreamsPerConnection_def
        MaxStreamsMinimumIncrement_def MaxUint32_def ftrunc_def Let_def)
qed

text \<open>What every update keeps, a whole negotiation keeps.\<close>

lemma setTag_keeps:
  assumes "P h" "\<And>v h. P h \<Longrightarrow> refuse h = None \<Longrightarrow> P (update v h)"
  shows "P (fst (setTag tag refuse update params h))"
  using assms by (auto simp: setTag_def split: option.split sum.split)

lemma thenSet_keeps:
  assumes "P (fst m)" "\<And>h. P h \<Longrightarrow> P (fst (f h))"
  shows "P (fst (thenSet m f))"
  using assms by (cases m; cases "snd m") auto

lemma SetFromMap_keeps:
  assumes "P h"
    and "\<And>v h. P h \<Longrightarrow> P (h\<lparr> truncateConnectionID := v \<rparr>)"
    and "\<And>v h. P h \<Longrightarrow> P (h\<lparr> maxStreamsPerConnection := negotiateMaxStreamsPerConnection v \<rparr>)"
    and "\<And>v h. P h \<Longrightarrow> P (h\<lparr> maxIncomingDynamicStreamsPerConnection :=
          negotiateMaxIncomingDynamicStreamsPerConnection v \<rparr>)"
    and "\<And>v h. P h \<Longrightarrow> P (h\<lparr> idleConnectionStateLifetime := negotiateIdleConnectionStateLifetime v h \<rparr>)"
    and "\<And>v h. P h \<Longrightarrow> \<not> flowControlNegotiated h \<Longrightarrow> P (h\<lparr> sendStreamFlowControlWindow := v \<rparr>)"
    and "\<And>v h. P h \<Longrightarrow> \<not> flowControlNegotiated h \<Longrightarrow> P (h\<lparr> sendConnectionFlowControlWindow := v \<rparr>)"
    and "\<And>h. P h \<Longrightarrow> P (h\<lparr> flowControlNegotiated := True \<rparr>)"
  shows "P (fst (SetFromMap params h))"
  unfolding SetFromMap_def
proof (rule thenSet_keeps [where P = P], (rule thenSet_keeps [where P = P])+)
  show "P (fst (if cpm_perspective h = PerspectiveServer
      then setTag TagTCID (\<lambda>_. None) (\<lambda>v h. h\<lparr> truncateConnectionID := (v = 0) \<rparr>) params h else (h, None)))"
    using setTag_keeps [where P = P, OF assms(1)] assms(1,2) by simp
  show "P (fst (if params TagSFCW \<noteq> None \<or> params TagCFCW \<noteq> None
      then h\<lparr> flowControlNegotiated := True \<rparr> else h, None))" if "P h" for h
    using that assms(8) by simp
qed (rule setTag_keeps [where P = P]; use assms in \<open>simp add: refuseRenegotiation_def split: if_splits\<close>)+

text \<open>The effect of the hello of the peer \<open>p\<close>.\<close>

lemma SetFromMap_hello:
  assumes "\<not> flowControlNegotiated h"
  shows "SetFromMap (map_of (GetHelloMap p)) h =
    (h\<lparr> maxStreamsPerConnection := min (maxStreamsPerConnection p) MaxStreamsPerConnection,
        maxIncomingDynamicStreamsPerConnection := MaxIncomingDynamicStreamsPerConnection,
        idleConnectionStateLifetime :=
          min (int64 (uint (of_int (quot (idleConnectionStateLifetime p) Second) :: uint32) * Second))
            (idleConnectionStateLifetime h),
        sendStreamFlowControlWindow := ucast (ucast (receiveStreamFlowControlWindow p) :: uint32),
        sendConnectionFlowControlWindow := ucast (ucast (receiveConnectionFlowControlWindow p) :: uint32),
        flowControlNegotiated := True \<rparr>, None)"
  using assms
  by (simp add: SetFromMap_def refuseRenegotiation_def negotiateMaxStreamsPerConnection_def
      negotiateMaxIncomingDynamicStreamsPerConnection_def negotiateIdleConnectionStateLifetime_def
      MinUint32_def min_def)

lemma setTag_refused [simp]:
  "refuse h = Some e \<Longrightarrow> setTag tag refuse update params h =
     (if params tag = None then (h, None) else (h, Some e))"
  by (auto simp: setTag_def)

lemma SetFromMap_hello_again:
  "flowControlNegotiated h \<Longrightarrow>
     snd (SetFromMap (map_of (GetHelloMap p)) h) = Some ErrFlowControlRenegotiationNotSupported"
  by (simp add: SetFromMap_def refuseRenegotiation_def)

lemma SetFromMap_refused:
  assumes "flowControlNegotiated h" "params TagSFCW \<noteq> None \<or> params TagCFCW \<noteq> None"
  shows "snd (SetFromMap params h) \<noteq> None"
proof -
  define m where "m = thenSet (thenSet (thenSet
       (if cpm_perspective h = PerspectiveServer
        then setTag TagTCID (\<lambda>_. None) (\<lambda>v h. h\<lparr> truncateConnectionID := (v = 0) \<rparr>) params h
        else (h, None))
       (setTag TagMSPC (\<lambda>_. None)
          (\<lambda>v h. h\<lparr> maxStreamsPerConnection := negotiateMaxStreamsPerConnection v \<rparr>) params))
       (setTag TagMIDS (\<lambda>_. None)
          (\<lambda>v h. h\<lparr> maxIncomingDynamicStreamsPerConnection :=
             negotiateMaxIncomingDynamicStreamsPerConnection v \<rparr>) params))
       (setTag TagICSL (\<lambda>_. None)
          (\<lambda>v h. h\<lparr> idleConnectionStateLifetime :=
             negotiateIdleConnectionStateLifetime (int64 (uint v * Second)) h \<rparr>) params)"
  have "flowControlNegotiated (fst m)" unfolding m_def
    by (rule thenSet_keeps [where P = flowControlNegotiated])+
      (use assms(1) in \<open>simp_all add: setTag_keeps [where P = flowControlNegotiated]\<close>)
  then show ?thesis using assms(2) unfolding SetFromMap_def m_def [symmetric]
    by (cases m; cases "snd m") (auto simp: refuseRenegotiation_def)
qed

section \<open>Properties\<close>



text \<open>
  Once the windows are negotiated, no further message changes them, whether it is accepted
  or refused; a message that names one of them is refused. No message raises the idle timeout
  or a stream limit above the maximum.
\<close>

theorem windows_negotiated_once:
  assumes "flowControlNegotiated h" "maxStreamsPerConnection h \<le> MaxStreamsPerConnection"
    "maxIncomingDynamicStreamsPerConnection h \<le> MaxIncomingDynamicStreamsPerConnection"
    and "SetFromMap params h = (h', e)"
  shows "flowControlNegotiated h'
    \<and> sendStreamFlowControlWindow h' = sendStreamFlowControlWindow h
    \<and> sendConnectionFlowControlWindow h' = sendConnectionFlowControlWindow h
    \<and> idleConnectionStateLifetime h' \<le> idleConnectionStateLifetime h
    \<and> maxStreamsPerConnection h' \<le> MaxStreamsPerConnection
    \<and> maxIncomingDynamicStreamsPerConnection h' \<le> MaxIncomingDynamicStreamsPerConnection
    \<and> (params TagSFCW \<noteq> None \<or> params TagCFCW \<noteq> None \<longrightarrow> e \<noteq> None)"
proof -
  let ?P = "\<lambda>h'. flowControlNegotiated h'
    \<and> sendStreamFlowControlWindow h' = sendStreamFlowControlWindow h
    \<and> sendConnectionFlowControlWindow h' = sendConnectionFlowControlWindow h
    \<and> idleConnectionStateLifetime h' \<le> idleConnectionStateLifetime h
    \<and> maxStreamsPerConnection h' \<le> MaxStreamsPerConnection
    \<and> maxIncomingDynamicStreamsPerConnection h' \<le> MaxIncomingDynamicStreamsPerConnection"
  have "?P (fst (SetFromMap params h))"
    by (rule SetFromMap_keeps) (use assms(1-3) in \<open>auto simp: negotiateMaxStreamsPerConnection_def
        negotiateMaxIncomingDynamicStreamsPerConnection_def negotiateIdleConnectionStateLifetime_def
        MinUint32_def\<close>)
  then show ?thesis using SetFromMap_refused [OF assms(1), of params] assms(4) by auto
qed

theorem windows_negotiated_once_witness:
  "snd (SetFromMap [TagSFCW \<mapsto> [0, 0, 1, 0]]
     (NewConnectionParamatersManager PerspectiveServer VersionMP 1048576 1572864 (20 * Second)
       \<lparr> flowControlNegotiated := True \<rparr>)) \<noteq> None"
  using windows_negotiated_once
    [of "NewConnectionParamatersManager PerspectiveServer VersionMP 1048576 1572864 (20 * Second)
       \<lparr> flowControlNegotiated := True \<rparr>" "[TagSFCW \<mapsto> [0, 0, 1, 0]]"]
  by (simp add: NewConnectionParamatersManager_def MaxIncomingDynamicStreamsPerConnection_def
      MaxStreamsPerConnection_def prod_eq_iff)

end
