(* ===== verification/RTTStats.thy ===== *)
theory RTTStats
  imports Protocol GoFloat
begin

text \<open>
  Round trip time statistics (\<open>congestion/rtt_stats.go\<close>): the smoothed RTT and its mean
  deviation, computed with \<open>float32\<close> on microseconds, and the windowed minimum of the recent
  samples. Products and sums are rounded one by one; the theorem on the moving average holds
  also where the compiler fuses them, because nothing is rounded in its range.
\<close>

section \<open>State\<close>

definition InfDuration :: Duration where
  "InfDuration = 2 ^ 63 - 1"

definition initialRTTus_const :: int where
  "initialRTTus_const = 100 * 1000"

definition rttAlpha :: rat where "rttAlpha = 1 / 8"
definition oneMinusAlpha :: rat where "oneMinusAlpha = 1 - rttAlpha"
definition rttBeta :: rat where "rttBeta = 1 / 4"
definition oneMinusBeta :: rat where "oneMinusBeta = 1 - rttBeta"
definition halfWindow :: rat where "halfWindow = 1 / 2"
definition quarterWindow :: rat where "quarterWindow = 1 / 4"

record rttSample =
  rs_rtt :: Duration
  rs_time :: Time

record RTTStats =
  initialRTTus :: int
  recentMinRTTwindow :: Duration
  minRTT :: Duration
  latestRTT :: Duration
  smoothedRTT :: Duration
  meanDeviation :: Duration
  numMinRTTsamplesRemaining :: uint32
  newMinRTT :: rttSample
  recentMinRTT :: rttSample
  halfWindowRTT :: rttSample
  quarterWindowRTT :: rttSample

text \<open>The zero values of Go, and the constructor. A path starts with the zero value.\<close>

definition rttSample_zero :: rttSample where
  "rttSample_zero = \<lparr> rs_rtt = 0, rs_time = 0 \<rparr>"

definition RTTStats_zero :: RTTStats where
  "RTTStats_zero = \<lparr> initialRTTus = 0, recentMinRTTwindow = 0, minRTT = 0, latestRTT = 0,
     smoothedRTT = 0, meanDeviation = 0, numMinRTTsamplesRemaining = 0,
     newMinRTT = rttSample_zero, recentMinRTT = rttSample_zero, halfWindowRTT = rttSample_zero,
     quarterWindowRTT = rttSample_zero \<rparr>"

definition NewRTTStats :: RTTStats where
  "NewRTTStats = RTTStats_zero\<lparr> initialRTTus := initialRTTus_const,
     recentMinRTTwindow := InfDuration \<rparr>"

section \<open>Operations\<close>

definition RecentMinRTT :: "RTTStats \<Rightarrow> Duration" where
  "RecentMinRTT r = rs_rtt (recentMinRTT r)"

definition GetQuarterWindowRTT :: "RTTStats \<Rightarrow> Duration" where
  "GetQuarterWindowRTT r = rs_rtt (quarterWindowRTT r)"

definition GetHalfWindowRTT :: "RTTStats \<Rightarrow> Duration" where
  "GetHalfWindowRTT r = rs_rtt (halfWindowRTT r)"

definition SetRecentMinRTTwindow :: "Duration \<Rightarrow> RTTStats \<Rightarrow> RTTStats" where
  "SetRecentMinRTTwindow w r = r\<lparr> recentMinRTTwindow := w \<rparr>"

text \<open>
  \<open>updateRecentMinRTT\<close> in its three parts: the sampling of a new minimum, the update of the
  three samples, and the expiry of old ones.
\<close>

definition sampleNewMin :: "Duration \<Rightarrow> Time \<Rightarrow> RTTStats \<Rightarrow> RTTStats" where
  "sampleNewMin sample now r =
     (if numMinRTTsamplesRemaining r > 0
      then let r = r\<lparr> numMinRTTsamplesRemaining := numMinRTTsamplesRemaining r - 1 \<rparr>;
               r = (if rs_rtt (newMinRTT r) = 0 \<or> sample \<le> rs_rtt (newMinRTT r)
                    then r\<lparr> newMinRTT := \<lparr> rs_rtt = sample, rs_time = now \<rparr> \<rparr> else r)
           in if numMinRTTsamplesRemaining r = 0
              then r\<lparr> recentMinRTT := newMinRTT r, halfWindowRTT := newMinRTT r,
                      quarterWindowRTT := newMinRTT r \<rparr>
              else r
      else r)"

definition updateMins :: "Duration \<Rightarrow> Time \<Rightarrow> RTTStats \<Rightarrow> RTTStats" where
  "updateMins sample now r =
     (let s = \<lparr> rs_rtt = sample, rs_time = now \<rparr>
      in if rs_rtt (recentMinRTT r) = 0 \<or> sample \<le> rs_rtt (recentMinRTT r)
         then r\<lparr> recentMinRTT := s, halfWindowRTT := s, quarterWindowRTT := s \<rparr>
         else if sample \<le> rs_rtt (halfWindowRTT r)
         then r\<lparr> halfWindowRTT := s, quarterWindowRTT := s \<rparr>
         else if sample \<le> rs_rtt (quarterWindowRTT r)
         then r\<lparr> quarterWindowRTT := s \<rparr>
         else r)"

text \<open>The part \<open>w\<close> of the window, computed in \<open>float32\<close>.\<close>

definition windowPart :: "rat \<Rightarrow> RTTStats \<Rightarrow> Duration" where
  "windowPart w r =
     int64 (int64 (- toInt64 (f32 (f32 (of_int (quot (recentMinRTTwindow r) Microsecond)) * w)))
       * Microsecond)"

definition expireMins :: "Duration \<Rightarrow> Time \<Rightarrow> RTTStats \<Rightarrow> RTTStats" where
  "expireMins sample now r =
     (let s = \<lparr> rs_rtt = sample, rs_time = now \<rparr>
      in if rs_time (recentMinRTT r) < now + int64 (- recentMinRTTwindow r)
         then r\<lparr> recentMinRTT := halfWindowRTT r, halfWindowRTT := quarterWindowRTT r,
                 quarterWindowRTT := s \<rparr>
         else if rs_time (halfWindowRTT r) < now + windowPart halfWindow r
         then r\<lparr> halfWindowRTT := quarterWindowRTT r, quarterWindowRTT := s \<rparr>
         else if rs_time (quarterWindowRTT r) < now + windowPart quarterWindow r
         then r\<lparr> quarterWindowRTT := s \<rparr>
         else r)"

definition updateRecentMinRTT :: "Duration \<Rightarrow> Time \<Rightarrow> RTTStats \<Rightarrow> RTTStats" where
  "updateRecentMinRTT sample now r = expireMins sample now (updateMins sample now (sampleNewMin sample now r))"

definition UpdateRTT :: "Duration \<Rightarrow> Duration \<Rightarrow> Time \<Rightarrow> RTTStats \<Rightarrow> RTTStats" where
  "UpdateRTT sendDelta ackDelay now r =
     (if sendDelta = InfDuration \<or> sendDelta \<le> 0 then r
      else
      let r = (if minRTT r = 0 \<or> minRTT r > sendDelta then r\<lparr> minRTT := sendDelta \<rparr> else r);
          r = updateRecentMinRTT sendDelta now r;
          sample = (if sendDelta > ackDelay then int64 (sendDelta - ackDelay) else sendDelta);
          r = r\<lparr> latestRTT := sample \<rparr>
      in if smoothedRTT r = 0 then r\<lparr> smoothedRTT := sample, meanDeviation := quot sample 2 \<rparr>
         else r\<lparr> meanDeviation := int64 (toInt64 (f32 (
                     f32 (oneMinusBeta * f32 (of_int (quot (meanDeviation r) Microsecond)))
                     + f32 (rttBeta * f32 (of_int
                         (quot (AbsDuration (int64 (smoothedRTT r - sample))) Microsecond))))) * Microsecond),
                 smoothedRTT := int64 (toInt64 (f32 (
                     f32 (f32 (of_int (quot (smoothedRTT r) Microsecond)) * oneMinusAlpha)
                     + f32 (f32 (of_int (quot sample Microsecond)) * rttAlpha))) * Microsecond) \<rparr>)"

definition SampleNewRecentMinRTT :: "uint32 \<Rightarrow> RTTStats \<Rightarrow> RTTStats" where
  "SampleNewRecentMinRTT numSamples r =
     r\<lparr> numMinRTTsamplesRemaining := numSamples, newMinRTT := rttSample_zero \<rparr>"

definition OnConnectionMigration :: "RTTStats \<Rightarrow> RTTStats" where
  "OnConnectionMigration r =
     r\<lparr> latestRTT := 0, minRTT := 0, smoothedRTT := 0, meanDeviation := 0,
        initialRTTus := initialRTTus_const, numMinRTTsamplesRemaining := 0,
        recentMinRTTwindow := InfDuration, recentMinRTT := rttSample_zero,
        halfWindowRTT := rttSample_zero, quarterWindowRTT := rttSample_zero \<rparr>"

definition ExpireSmoothedMetrics :: "RTTStats \<Rightarrow> RTTStats" where
  "ExpireSmoothedMetrics r =
     r\<lparr> meanDeviation := MaxDuration (meanDeviation r)
          (AbsDuration (int64 (smoothedRTT r - latestRTT r))),
        smoothedRTT := MaxDuration (smoothedRTT r) (latestRTT r) \<rparr>"

definition UpdateSessionRTT :: "Duration \<Rightarrow> RTTStats \<Rightarrow> RTTStats" where
  "UpdateSessionRTT d r = r\<lparr> smoothedRTT := d \<rparr>"

section \<open>The moving average\<close>

lemmas rtt_consts = rttAlpha_def oneMinusAlpha_def rttBeta_def oneMinusBeta_def

lemma mins_same [simp]:
  "smoothedRTT (sampleNewMin sample now r) = smoothedRTT r"
  "meanDeviation (sampleNewMin sample now r) = meanDeviation r"
  "minRTT (sampleNewMin sample now r) = minRTT r"
  "latestRTT (sampleNewMin sample now r) = latestRTT r"
  "smoothedRTT (updateMins sample now r) = smoothedRTT r"
  "meanDeviation (updateMins sample now r) = meanDeviation r"
  "minRTT (updateMins sample now r) = minRTT r"
  "latestRTT (updateMins sample now r) = latestRTT r"
  "smoothedRTT (expireMins sample now r) = smoothedRTT r"
  "meanDeviation (expireMins sample now r) = meanDeviation r"
  "minRTT (expireMins sample now r) = minRTT r"
  "latestRTT (expireMins sample now r) = latestRTT r"
  by (simp_all add: expireMins_def updateMins_def sampleNewMin_def Let_def)

lemma updateRecentMinRTT_same [simp]:
  "smoothedRTT (updateRecentMinRTT sample now r) = smoothedRTT r"
  "meanDeviation (updateRecentMinRTT sample now r) = meanDeviation r"
  "minRTT (updateRecentMinRTT sample now r) = minRTT r"
  "latestRTT (updateRecentMinRTT sample now r) = latestRTT r"
  by (simp_all add: updateRecentMinRTT_def)

lemma ewma_smoothed:
  assumes "0 \<le> a" "a < 2 ^ 21" "0 \<le> b" "b < 2 ^ 21"
  shows "toInt64 (f32 (f32 (f32 (of_int a) * oneMinusAlpha) + f32 (f32 (of_int b) * rttAlpha))) = (7 * a + b) div 8"
proof -
  have 1: "f32 (of_int a) * oneMinusAlpha = of_int (7 * a) / 8" "f32 (of_int b) * rttAlpha = of_int b / 8"
    using assms by (simp_all add: rtt_consts fround_of_int)
  have 2: "f32 (of_int (7 * a) / 8) = of_int (7 * a) / 8" "f32 (of_int b / 8) = of_int b / 8"
    by (rule fround_eighth; use assms in simp)+
  have 3: "of_int (7 * a) / 8 + of_int b / 8 = (of_int (7 * a + b) / 8 :: rat)" by simp
  have 4: "f32 (of_int (7 * a + b) / 8) = of_int (7 * a + b) / 8"
    by (rule fround_eighth) (use assms in simp)
  show ?thesis unfolding 1 2 3 4
    using toInt64_divide [of "7 * a + b" 8] assms by simp
qed

lemma ewma_deviation:
  assumes "0 \<le> a" "a < 2 ^ 21" "0 \<le> b" "b < 2 ^ 21"
  shows "toInt64 (f32 (f32 (oneMinusBeta * f32 (of_int a)) + f32 (rttBeta * f32 (of_int b)))) = (3 * a + b) div 4"
proof -
  have 1: "oneMinusBeta * f32 (of_int a) = of_int (3 * a) / 4" "rttBeta * f32 (of_int b) = of_int b / 4"
    using assms by (simp_all add: rtt_consts fround_of_int)
  have 2: "f32 (of_int (3 * a) / 4) = of_int (3 * a) / 4" "f32 (of_int b / 4) = of_int b / 4"
    by (rule fround_quarter; use assms in simp)+
  have 3: "of_int (3 * a) / 4 + of_int b / 4 = (of_int (3 * a + b) / 4 :: rat)" by simp
  have 4: "f32 (of_int (3 * a + b) / 4) = of_int (3 * a + b) / 4"
    by (rule fround_quarter) (use assms in simp)
  show ?thesis unfolding 1 2 3 4
    using toInt64_divide [of "3 * a + b" 4] assms by simp
qed

lemma ewma_between:
  fixes s t :: int
  defines "v \<equiv> (7 * (s div 1000) + t div 1000) div 8 * 1000"
  shows "min s t - 1000 < v" "v \<le> max s t"
proof -
  define A B k where "A = s div 1000" and "B = t div 1000" and "k = (7 * A + B) div 8"
  have "A * 1000 \<le> s" "s < A * 1000 + 1000" "B * 1000 \<le> t" "t < B * 1000 + 1000"
    "k * 8 \<le> 7 * A + B" "7 * A + B < k * 8 + 8"
    unfolding A_def B_def k_def by presburger+
  moreover have "s \<le> t \<longrightarrow> A \<le> k" "\<not> s \<le> t \<longrightarrow> B \<le> k"
    using zdiv_mono1 [of s t 1000] zdiv_mono1 [of t s 1000] calculation(6) by (auto simp: A_def B_def)
  ultimately show "min s t - 1000 < v" "v \<le> max s t"
    unfolding v_def A_def [symmetric] B_def [symmetric] k_def [symmetric] min_def max_def
    by (cases "s \<le> t"; simp only: if_True if_False simp_thms; linarith)+
qed

section \<open>The minima\<close>

text \<open>
  The three samples of the recent minimum are ordered, both by value and by age, and none is
  from the future.
\<close>

definition mins_ordered :: "Time \<Rightarrow> RTTStats \<Rightarrow> bool" where
  "mins_ordered now r \<longleftrightarrow>
     0 \<le> rs_rtt (recentMinRTT r)
     \<and> rs_rtt (recentMinRTT r) \<le> rs_rtt (halfWindowRTT r)
     \<and> rs_rtt (halfWindowRTT r) \<le> rs_rtt (quarterWindowRTT r)
     \<and> rs_time (recentMinRTT r) \<le> rs_time (halfWindowRTT r)
     \<and> rs_time (halfWindowRTT r) \<le> rs_time (quarterWindowRTT r)
     \<and> rs_time (quarterWindowRTT r) \<le> now \<and> rs_time (newMinRTT r) \<le> now
     \<and> 0 \<le> rs_rtt (newMinRTT r)"

lemma mins_ordered_sampleNewMin:
  assumes "mins_ordered now r" "0 < sample"
  shows "mins_ordered now (sampleNewMin sample now r)"
  using assms by (auto simp: mins_ordered_def sampleNewMin_def Let_def)

lemma mins_ordered_updateMins:
  assumes "mins_ordered now r" "0 < sample"
  shows "mins_ordered now (updateMins sample now r)"
    and "rs_rtt (quarterWindowRTT (updateMins sample now r)) \<le> sample"
  using assms by (auto simp: mins_ordered_def updateMins_def Let_def)

lemma expireMins_cases:
  fixes sample now defines "s \<equiv> \<lparr> rs_rtt = sample, rs_time = now \<rparr>"
  shows "expireMins sample now r \<in>
    {r\<lparr> recentMinRTT := halfWindowRTT r, halfWindowRTT := quarterWindowRTT r, quarterWindowRTT := s \<rparr>,
     r\<lparr> halfWindowRTT := quarterWindowRTT r, quarterWindowRTT := s \<rparr>, r\<lparr> quarterWindowRTT := s \<rparr>, r}"
  by (simp add: expireMins_def Let_def s_def)

lemma mins_ordered_expireMins:
  assumes "mins_ordered now r" "rs_rtt (quarterWindowRTT r) \<le> sample"
  shows "mins_ordered now (expireMins sample now r)"
    and "rs_rtt (recentMinRTT (expireMins sample now r)) \<le> sample"
  using assms expireMins_cases [of sample now r] by (auto simp: mins_ordered_def)

lemma mins_ordered_update:
  assumes "mins_ordered now r" "0 < sample"
  shows "mins_ordered now (updateRecentMinRTT sample now r)"
    and "rs_rtt (recentMinRTT (updateRecentMinRTT sample now r)) \<le> sample"
  unfolding updateRecentMinRTT_def
  by (rule mins_ordered_expireMins [OF mins_ordered_updateMins
      [OF mins_ordered_sampleNewMin [OF assms] assms(2)]])+

lemma mins_ordered_later: "mins_ordered t r \<Longrightarrow> t \<le> now \<Longrightarrow> mins_ordered now r"
  by (auto simp: mins_ordered_def)

lemma UpdateRTT_mins:
  fixes now :: Time
  assumes "0 < d" "d \<noteq> InfDuration"
  defines "x r \<equiv> if minRTT r = 0 \<or> minRTT r > d then d else minRTT r"
  defines "u r \<equiv> updateRecentMinRTT d now (r\<lparr> minRTT := x r \<rparr>)"
  shows "recentMinRTT (UpdateRTT d a now r) = recentMinRTT (u r)"
    "halfWindowRTT (UpdateRTT d a now r) = halfWindowRTT (u r)"
    "quarterWindowRTT (UpdateRTT d a now r) = quarterWindowRTT (u r)"
    "newMinRTT (UpdateRTT d a now r) = newMinRTT (u r)"
    "minRTT (UpdateRTT d a now r) = x r"
proof -
  have e: "(if minRTT r = 0 \<or> minRTT r > d then r\<lparr> minRTT := d \<rparr> else r) = r\<lparr> minRTT := x r \<rparr>"
    by (simp add: x_def)
  have d: "\<not> (d = InfDuration \<or> d \<le> 0)" using assms(1,2) by simp
  show "recentMinRTT (UpdateRTT d a now r) = recentMinRTT (u r)"
    "halfWindowRTT (UpdateRTT d a now r) = halfWindowRTT (u r)"
    "quarterWindowRTT (UpdateRTT d a now r) = quarterWindowRTT (u r)"
    "newMinRTT (UpdateRTT d a now r) = newMinRTT (u r)"
    "minRTT (UpdateRTT d a now r) = x r"
    unfolding UpdateRTT_def if_not_P [OF d] e u_def Let_def by simp_all
qed

lemma UpdateRTT_ignored: "\<not> (0 < d \<and> d \<noteq> InfDuration) \<Longrightarrow> UpdateRTT d a now r = r"
  by (auto simp: UpdateRTT_def)

lemma mins_ordered_UpdateRTT:
  assumes "mins_ordered t r" "t \<le> now"
  shows "mins_ordered now (UpdateRTT d a now r)"
    and "0 < d \<and> d \<noteq> InfDuration \<Longrightarrow> RecentMinRTT (UpdateRTT d a now r) \<le> d"
proof -
  have r: "mins_ordered now (r\<lparr> minRTT := x \<rparr>)" "mins_ordered now r" for x
    using mins_ordered_later [OF assms] by (simp_all add: mins_ordered_def)
  show "mins_ordered now (UpdateRTT d a now r)"
  proof (cases "0 < d \<and> d \<noteq> InfDuration")
    case True
    then show ?thesis using mins_ordered_update(1) [OF r(1), of d]
      by (simp add: mins_ordered_def UpdateRTT_mins)
  qed (simp add: UpdateRTT_ignored r(2))
  show "RecentMinRTT (UpdateRTT d a now r) \<le> d" if "0 < d \<and> d \<noteq> InfDuration"
    using mins_ordered_update(2) [OF r(1), of d] that by (simp add: UpdateRTT_mins RecentMinRTT_def)
qed

section \<open>Runs\<close>

text \<open>A sequence of measurements: the measured delay, the ACK delay of the peer, the time.\<close>

definition measureAll :: "(Duration \<times> Duration \<times> Time) list \<Rightarrow> RTTStats \<Rightarrow> RTTStats" where
  "measureAll ms = fold (\<lambda>(d, a, now). UpdateRTT d a now) ms"

definition accepted :: "(Duration \<times> Duration \<times> Time) list \<Rightarrow> Duration set" where
  "accepted ms = {d \<in> fst ` set ms. 0 < d \<and> d \<noteq> InfDuration}"

lemma measureAll_snoc:
  "measureAll (ms @ [(d, a, now)]) r = UpdateRTT d a now (measureAll ms r)"
  by (simp add: measureAll_def)

lemma accepted_snoc:
  "accepted (ms @ [(d, a, now)]) = (if 0 < d \<and> d \<noteq> InfDuration then insert d (accepted ms) else accepted ms)"
  by (auto simp: accepted_def)

lemma finite_accepted [simp]: "finite (accepted ms)"
  by (simp add: accepted_def)

lemma measureAll_minRTT:
  assumes "minRTT r = 0"
  shows "minRTT (measureAll ms r) = (if accepted ms = {} then 0 else Min (accepted ms))"
proof (induction ms rule: rev_induct)
  case Nil
  then show ?case using assms by (simp add: measureAll_def accepted_def)
next
  case (snoc m ms)
  obtain d a now where m: "m = (d, a, now)" by (cases m)
  have pos: "accepted ms \<noteq> {} \<Longrightarrow> 0 < Min (accepted ms)" by (simp add: accepted_def)
  show ?case
  proof (cases "0 < d \<and> d \<noteq> InfDuration")
    case True
    show ?thesis
    proof (cases "accepted ms = {}")
      case False
      define M where "M = Min (accepted ms)"
      have "0 < M" "Min (insert d (accepted ms)) = min d M" using pos False by (simp_all add: M_def)
      then show ?thesis using True False snoc [folded M_def]
        by (simp add: m measureAll_snoc accepted_snoc UpdateRTT_mins min_def)
    qed (use True snoc in \<open>simp add: m measureAll_snoc accepted_snoc UpdateRTT_mins\<close>)
  next
    case False
    show ?thesis
      unfolding m measureAll_snoc accepted_snoc UpdateRTT_ignored [OF False] if_not_P [OF False] by (rule snoc)
  qed
qed

lemma measureAll_ordered:
  assumes "sorted (map (snd \<circ> snd) ms)" "\<forall>(d, a, t) \<in> set ms. 0 \<le> t" "mins_ordered 0 r"
  shows "mins_ordered (if ms = [] then 0 else snd (snd (last ms))) (measureAll ms r)"
  using assms(1,2)
proof (induction ms rule: rev_induct)
  case Nil
  then show ?case using assms(3) by (simp add: measureAll_def)
next
  case (snoc m ms)
  obtain d a now where m: "m = (d, a, now)" by (cases m)
  have "(if ms = [] then 0 else snd (snd (last ms))) \<le> now"
    using snoc.prems by (auto simp: m sorted_append)
  moreover have "mins_ordered (if ms = [] then 0 else snd (snd (last ms))) (measureAll ms r)"
    using snoc by (simp add: sorted_append)
  ultimately show ?case
    using mins_ordered_UpdateRTT(1) by (simp add: m measureAll_snoc)
qed

lemma mins_ordered_new: "mins_ordered 0 NewRTTStats" "mins_ordered 0 RTTStats_zero"
  by (simp_all add: mins_ordered_def NewRTTStats_def RTTStats_zero_def rttSample_zero_def)

section \<open>Properties\<close>

text \<open>
  C13. As long as the round trip times stay below \<open>2\<^sup>2\<^sup>1\<close> microseconds, about two seconds, the
  \<open>float32\<close> computation of \<open>UpdateRTT\<close> is exact: it equals the integer moving averages with
  weights 7/8 and 1/8, and 3/4 and 1/4, in whole microseconds. The new smoothed RTT lies
  between the old one and the sample, up to the truncation to microseconds.
\<close>

theorem UpdateRTT_ewma:
  fixes r :: RTTStats and d a :: Duration and now :: Time
  defines "sample \<equiv> if a < d then d - a else d"
  defines "r' \<equiv> UpdateRTT d a now r"
  assumes "0 < d" "d < 2 ^ 21 * Microsecond" "0 \<le> a"
    and "0 < smoothedRTT r" "smoothedRTT r < 2 ^ 21 * Microsecond"
    and "0 \<le> meanDeviation r" "meanDeviation r < 2 ^ 21 * Microsecond"
  shows "latestRTT r' = sample
    \<and> smoothedRTT r' = (7 * (smoothedRTT r div Microsecond) + sample div Microsecond) div 8 * Microsecond
    \<and> meanDeviation r' = (3 * (meanDeviation r div Microsecond)
         + \<bar>smoothedRTT r - sample\<bar> div Microsecond) div 4 * Microsecond
    \<and> min (smoothedRTT r) sample - Microsecond < smoothedRTT r'
    \<and> smoothedRTT r' \<le> max (smoothedRTT r) sample"
proof -
  let ?s = "smoothedRTT r"
  have b: "0 < sample" "sample < 2 ^ 21 * Microsecond" using assms(3-5) by (auto simp: sample_def)
  have e: "AbsDuration (int64 (?s - sample)) = \<bar>?s - sample\<bar>" "int64 (d - a) = d - a \<or> \<not> a < d"
    using b assms(3-7) by (auto simp: AbsDuration_def Microsecond_def)
  have D: "0 \<le> quot x Microsecond" "quot x Microsecond < 2 ^ 21" "quot x Microsecond = x div Microsecond"
    if "0 \<le> x" "x < 2 ^ 21 * Microsecond" for x
    using that by (simp_all add: Microsecond_def)
  have abs: "0 \<le> \<bar>?s - sample\<bar>" "\<bar>?s - sample\<bar> < 2 ^ 21 * Microsecond" using b assms(6,7) by auto
  note Ds = D [of ?s] D [of sample] D [of "meanDeviation r"] D [OF abs]
  have I: "int64 (x div k * Microsecond) = x div k * Microsecond"
    if "0 \<le> x" "x < 2 ^ 30" "0 < k" for x k
  proof -
    have "0 \<le> x div k" "x div k \<le> x"
      using that zdiv_mono2 [of x 1 k] by (simp_all add: pos_imp_zdiv_nonneg_iff)
    then show ?thesis using that by (simp add: Microsecond_def)
  qed
  have X: "0 \<le> x" "x < 2 ^ 30" if "x = 7 * (?s div Microsecond) + sample div Microsecond
      \<or> x = 3 * (meanDeviation r div Microsecond) + \<bar>?s - sample\<bar> div Microsecond" for x
    using that Ds b assms(6-9) by auto
  have valid: "\<not> (d = InfDuration \<or> d \<le> 0)" using assms(3,4) by (simp add: InfDuration_def Microsecond_def)
  have sm: "(if d > a then int64 (d - a) else d) = sample" using e(2) by (auto simp: sample_def)
  have "latestRTT r' = sample" unfolding r'_def UpdateRTT_def if_not_P [OF valid] sm Let_def by simp
  moreover have sr: "smoothedRTT r' = (7 * (?s div Microsecond) + sample div Microsecond) div 8 * Microsecond"
    using assms(6,7) b Ds unfolding r'_def UpdateRTT_def if_not_P [OF valid] sm Let_def
    by (simp add: ewma_smoothed I [OF X])
  moreover have "meanDeviation r' = (3 * (meanDeviation r div Microsecond)
         + \<bar>?s - sample\<bar> div Microsecond) div 4 * Microsecond"
    using assms(6-9) b Ds e unfolding r'_def UpdateRTT_def if_not_P [OF valid] sm Let_def
    by (simp add: ewma_deviation I [OF X])
  moreover have "min ?s sample - Microsecond < smoothedRTT r'" "smoothedRTT r' \<le> max ?s sample"
    unfolding sr Microsecond_def by (rule ewma_between)+
  ultimately show ?thesis by blast
qed

theorem UpdateRTT_ewma_witness:
  "smoothedRTT (UpdateRTT 30000000 5000000 9 (NewRTTStats\<lparr> smoothedRTT := 17000000, meanDeviation := 8000000 \<rparr>)) = 18000000
   \<and> meanDeviation (UpdateRTT 30000000 5000000 9 (NewRTTStats\<lparr> smoothedRTT := 17000000, meanDeviation := 8000000 \<rparr>)) = 8000000"
  using UpdateRTT_ewma [of 30000000 5000000 "NewRTTStats\<lparr> smoothedRTT := 17000000, meanDeviation := 8000000 \<rparr>" 9]
  by (simp add: Microsecond_def)

text \<open>
  After any sequence of measurements at non-decreasing times, the minimum RTT is the
  smallest accepted measurement, and the three samples behind the recent minimum are ordered by
  value and by age; the recent minimum is at most the last accepted measurement. This holds
  for a constructed object as for the zero value that a path starts with.
\<close>

theorem measured_minimum:
  assumes "sorted (map (snd \<circ> snd) (ms @ [(d, a, now)]))"
    and "\<forall>(d, a, t) \<in> set (ms @ [(d, a, now)]). 0 \<le> t"
    and "r \<in> {NewRTTStats, RTTStats_zero}"
  defines "r' \<equiv> measureAll (ms @ [(d, a, now)]) r"
  shows "minRTT r' = (let A = accepted (ms @ [(d, a, now)]) in if A = {} then 0 else Min A)
    \<and> mins_ordered now r' \<and> (0 < d \<and> d \<noteq> InfDuration \<longrightarrow> RecentMinRTT r' \<le> d)"
proof -
  let ?t = "if ms = [] then 0 else snd (snd (last ms))"
  have o: "mins_ordered 0 r" and m: "minRTT r = 0"
    using assms(3) mins_ordered_new by (auto simp: NewRTTStats_def RTTStats_zero_def)
  have "?t \<le> now" using assms(1,2) by (auto simp: sorted_append)
  moreover have "mins_ordered ?t (measureAll ms r)"
    by (rule measureAll_ordered [OF _ _ o]) (use assms(1,2) in \<open>auto simp: sorted_append\<close>)
  ultimately show ?thesis using mins_ordered_UpdateRTT measureAll_minRTT [OF m, of "ms @ [(d, a, now)]"]
    unfolding r'_def Let_def measureAll_snoc by blast
qed

theorem measured_minimum_witness:
  "minRTT (measureAll [(30, 4, 100), (20, 9, 150), (50, 0, 200)] NewRTTStats) = 20
   \<and> RecentMinRTT (measureAll [(30, 4, 100), (20, 9, 150), (50, 0, 200)] NewRTTStats) \<le> 50"
proof -
  have "accepted ([(30, 4, 100), (20, 9, 150)] @ [(50, 0, 200)]) = {30, 20, 50}"
    by (auto simp: accepted_def InfDuration_def)
  then show ?thesis
    using measured_minimum [of "[(30, 4, 100), (20, 9, 150)]" 50 0 200 NewRTTStats]
    by (simp add: InfDuration_def Let_def)
qed

end
