(* ===== verification/FlowControl.thy ===== *)
theory FlowControl
  imports ConnectionParams RTTStats Qerr "HOL-Library.AList"
begin

text \<open>
  Flow control (\<open>internal/flowcontrol\<close>): one controller per stream and one for the
  connection, and the manager that keeps them. The controllers of the code point to objects
  they share with the session: the connection parameters, the RTT statistics and the RTTs that
  the peer reported. These are the environment \<open>fcEnv\<close>, an argument of the operations that read
  it. Times are arguments as well.
\<close>

section \<open>One controller\<close>

record flowController =
  fc_streamID :: StreamID
  fc_contributesToConnection :: bool
  fc_bytesSent :: ByteCount
  fc_sendWindow :: ByteCount
  fc_bytesRetrans :: ByteCount
  fc_lastWindowUpdateTime :: Time
  fc_bytesRead :: ByteCount
  fc_highestReceived :: ByteCount
  fc_receiveWindow :: ByteCount
  fc_receiveWindowIncrement :: ByteCount
  fc_maxReceiveWindowIncrement :: ByteCount

record fcEnv =
  env_connectionParameters :: connectionParametersManager
  env_rttStats :: RTTStats
  env_remoteRTTs :: "(PathID \<times> Duration) list"

definition ErrReceivedSmallerByteOffset :: go_error where
  "ErrReceivedSmallerByteOffset = GoErr ''Received a smaller byte offset''"

definition newFlowController :: "StreamID \<Rightarrow> bool \<Rightarrow> fcEnv \<Rightarrow> flowController" where
  "newFlowController streamID contributes env =
     (let cp = env_connectionParameters env;
          window = (if streamID = 0 then receiveConnectionFlowControlWindow cp
                    else receiveStreamFlowControlWindow cp)
      in \<lparr> fc_streamID = streamID, fc_contributesToConnection = contributes, fc_bytesSent = 0,
           fc_sendWindow = 0, fc_bytesRetrans = 0, fc_lastWindowUpdateTime = 0, fc_bytesRead = 0,
           fc_highestReceived = 0, fc_receiveWindow = window, fc_receiveWindowIncrement = window,
           fc_maxReceiveWindowIncrement =
             (if streamID = 0 then maxReceiveConnectionFlowControlWindow cp
              else maxReceiveStreamFlowControlWindow cp) \<rparr>)"

definition getSendWindow :: "fcEnv \<Rightarrow> flowController \<Rightarrow> ByteCount" where
  "getSendWindow env c =
     (if fc_sendWindow c = 0
      then if fc_streamID c = 0
           then sendConnectionFlowControlWindow (env_connectionParameters env)
           else sendStreamFlowControlWindow (env_connectionParameters env)
      else fc_sendWindow c)"

definition fc_AddBytesSent :: "ByteCount \<Rightarrow> flowController \<Rightarrow> flowController" where
  "fc_AddBytesSent n c = c\<lparr> fc_bytesSent := fc_bytesSent c + n \<rparr>"

definition fc_AddBytesRetrans :: "ByteCount \<Rightarrow> flowController \<Rightarrow> flowController" where
  "fc_AddBytesRetrans n c = c\<lparr> fc_bytesRetrans := fc_bytesRetrans c + n \<rparr>"

definition UpdateSendWindow :: "ByteCount \<Rightarrow> flowController \<Rightarrow> bool \<times> flowController" where
  "UpdateSendWindow newOffset c =
     (if newOffset > fc_sendWindow c then (True, c\<lparr> fc_sendWindow := newOffset \<rparr>) else (False, c))"

definition fc_SendWindowSize :: "fcEnv \<Rightarrow> flowController \<Rightarrow> ByteCount" where
  "fc_SendWindowSize env c =
     (let sendWindow = getSendWindow env c
      in if fc_bytesSent c > sendWindow then 0 else sendWindow - fc_bytesSent c)"

definition SendWindowOffset :: "fcEnv \<Rightarrow> flowController \<Rightarrow> ByteCount" where
  "SendWindowOffset env c = getSendWindow env c"

text \<open>The increment is returned also with the error, as 0.\<close>

definition fc_UpdateHighestReceived ::
  "ByteCount \<Rightarrow> flowController \<Rightarrow> flowController \<times> ByteCount \<times> go_error option" where
  "fc_UpdateHighestReceived byteOffset c =
     (if byteOffset = fc_highestReceived c then (c, 0, None)
      else if byteOffset > fc_highestReceived c
      then (c\<lparr> fc_highestReceived := byteOffset \<rparr>, byteOffset - fc_highestReceived c, None)
      else (c, 0, Some ErrReceivedSmallerByteOffset))"

definition IncrementHighestReceived :: "ByteCount \<Rightarrow> flowController \<Rightarrow> flowController" where
  "IncrementHighestReceived increment c =
     c\<lparr> fc_highestReceived := fc_highestReceived c + increment \<rparr>"

definition fc_AddBytesRead :: "Time \<Rightarrow> ByteCount \<Rightarrow> flowController \<Rightarrow> flowController" where
  "fc_AddBytesRead now n c =
     (let c = (if fc_bytesRead c = 0 then c\<lparr> fc_lastWindowUpdateTime := now \<rparr> else c)
      in c\<lparr> fc_bytesRead := fc_bytesRead c + n \<rparr>)"

definition maxRemoteRTT :: "(PathID \<times> Duration) list \<Rightarrow> Duration" where
  "maxRemoteRTT rtts = fold (\<lambda>(_, rtt) m. MaxDuration m rtt) rtts 0"

definition maybeAdjustWindowIncrement :: "fcEnv \<Rightarrow> Time \<Rightarrow> flowController \<Rightarrow> flowController" where
  "maybeAdjustWindowIncrement env now c =
     (if fc_lastWindowUpdateTime c = 0 then c
      else let rtt = smoothedRTT (env_rttStats env)
           in if rtt = 0 then c
              else if now - fc_lastWindowUpdateTime c
                        \<ge> int64 (2 * MaxDuration rtt (maxRemoteRTT (env_remoteRTTs env))) then c
              else c\<lparr> fc_receiveWindowIncrement :=
                        MinByteCount (2 * fc_receiveWindowIncrement c) (fc_maxReceiveWindowIncrement c) \<rparr>)"

text \<open>The clock is read twice, for the time since the last update and for the new one.\<close>

definition MaybeUpdateWindow ::
  "fcEnv \<Rightarrow> Time \<times> Time \<Rightarrow> flowController \<Rightarrow> (bool \<times> ByteCount \<times> ByteCount) \<times> flowController" where
  "MaybeUpdateWindow env clock c =
     (let diff = fc_receiveWindow c - fc_bytesRead c
      in if diff < fc_receiveWindowIncrement c div 2
         then let oldWindowIncrement = fc_receiveWindowIncrement c;
                  c = maybeAdjustWindowIncrement env (fst clock) c;
                  newWindowIncrement = (if fc_receiveWindowIncrement c \<noteq> oldWindowIncrement
                                        then fc_receiveWindowIncrement c else 0);
                  c = c\<lparr> fc_lastWindowUpdateTime := snd clock,
                        fc_receiveWindow := fc_bytesRead c + fc_receiveWindowIncrement c \<rparr>
              in ((True, newWindowIncrement, fc_receiveWindow c), c)
         else ((False, fc_receiveWindowIncrement c, fc_receiveWindow c), c))"

definition EnsureMinimumWindowIncrement :: "ByteCount \<Rightarrow> flowController \<Rightarrow> flowController" where
  "EnsureMinimumWindowIncrement inc c =
     (if inc > fc_receiveWindowIncrement c
      then c\<lparr> fc_receiveWindowIncrement := MinByteCount inc (fc_maxReceiveWindowIncrement c),
              fc_lastWindowUpdateTime := 0 \<rparr>
      else c)"

definition CheckFlowControlViolation :: "flowController \<Rightarrow> bool" where
  "CheckFlowControlViolation c \<longleftrightarrow> fc_highestReceived c > fc_receiveWindow c"

section \<open>The manager\<close>

record flowControlManager =
  fcm_streamFlowController :: "(StreamID \<times> flowController) list"
  fcm_connFlowController :: flowController

record WindowUpdate =
  wu_StreamID :: StreamID
  wu_Offset :: ByteCount

definition ConnectionFlowControlMultiplier :: rat where
  "ConnectionFlowControlMultiplier = 3 / 2"

definition StreamDataAfterTermination :: ErrorCode where
  "StreamDataAfterTermination = 2"

definition FlowControlReceivedTooMuchData :: ErrorCode where
  "FlowControlReceivedTooMuchData = 59"

definition errMapAccess :: go_error where
  "errMapAccess = GoErr ''Error accessing the flowController map.''"

definition NewFlowControlManager :: "fcEnv \<Rightarrow> flowControlManager" where
  "NewFlowControlManager env =
     \<lparr> fcm_streamFlowController = [], fcm_connFlowController = newFlowController 0 False env \<rparr>"

definition getFlowController :: "StreamID \<Rightarrow> flowControlManager \<Rightarrow> go_error + flowController" where
  "getFlowController streamID f =
     (case map_of (fcm_streamFlowController f) streamID of
        None \<Rightarrow> Inl errMapAccess
      | Some c \<Rightarrow> Inr c)"

text \<open>Writing through the pointer that \<open>getFlowController\<close> returns.\<close>

definition putFlowController :: "StreamID \<Rightarrow> flowController \<Rightarrow> flowControlManager \<Rightarrow> flowControlManager" where
  "putFlowController streamID c f =
     f\<lparr> fcm_streamFlowController := AList.update streamID c (fcm_streamFlowController f) \<rparr>"

definition NewStream :: "fcEnv \<Rightarrow> StreamID \<Rightarrow> bool \<Rightarrow> flowControlManager \<Rightarrow> flowControlManager" where
  "NewStream env streamID contributes f =
     (if map_of (fcm_streamFlowController f) streamID \<noteq> None then f
      else putFlowController streamID (newFlowController streamID contributes env) f)"

definition fcm_RemoveStream :: "StreamID \<Rightarrow> flowControlManager \<Rightarrow> flowControlManager" where
  "fcm_RemoveStream streamID f =
     f\<lparr> fcm_streamFlowController := AList.delete streamID (fcm_streamFlowController f) \<rparr>"

definition tooMuchStreamData :: "ByteCount \<Rightarrow> StreamID \<Rightarrow> flowController \<Rightarrow> go_error" where
  "tooMuchStreamData byteOffset streamID c =
     QuicError FlowControlReceivedTooMuchData
       (''Received '' @ formatBase 10 (unat byteOffset) @ '' bytes on stream '' @ formatBase 10 (unat streamID)
         @ '', allowed '' @ formatBase 10 (unat (fc_receiveWindow c)) @ '' bytes'')"

definition tooMuchConnectionData :: "flowController \<Rightarrow> go_error" where
  "tooMuchConnectionData c =
     QuicError FlowControlReceivedTooMuchData
       (''Received '' @ formatBase 10 (unat (fc_highestReceived c)) @ '' bytes for the connection, allowed ''
         @ formatBase 10 (unat (fc_receiveWindow c)) @ '' bytes'')"

text \<open>The common end of \<open>ResetStream\<close> and \<open>UpdateHighestReceived\<close>.\<close>

definition checkReceived :: "StreamID \<Rightarrow> ByteCount \<Rightarrow> ByteCount \<Rightarrow> flowController
    \<Rightarrow> flowControlManager \<Rightarrow> flowControlManager \<times> go_error option" where
  "checkReceived streamID byteOffset increment c f =
     (let f = putFlowController streamID c f
      in if CheckFlowControlViolation c then (f, Some (tooMuchStreamData byteOffset streamID c))
         else if fc_contributesToConnection c
         then let conn = IncrementHighestReceived increment (fcm_connFlowController f);
                  f = f\<lparr> fcm_connFlowController := conn \<rparr>
              in if CheckFlowControlViolation conn then (f, Some (tooMuchConnectionData conn))
                 else (f, None)
         else (f, None))"

definition ResetStream ::
  "StreamID \<Rightarrow> ByteCount \<Rightarrow> flowControlManager \<Rightarrow> flowControlManager \<times> go_error option" where
  "ResetStream streamID byteOffset f =
     (case getFlowController streamID f of
        Inl e \<Rightarrow> (f, Some e)
      | Inr c \<Rightarrow>
          (case fc_UpdateHighestReceived byteOffset c of
             (c, _, Some _) \<Rightarrow> (putFlowController streamID c f, Some (QuicErrCode StreamDataAfterTermination))
           | (c, increment, None) \<Rightarrow> checkReceived streamID byteOffset increment c f))"

definition UpdateHighestReceived ::
  "StreamID \<Rightarrow> ByteCount \<Rightarrow> flowControlManager \<Rightarrow> flowControlManager \<times> go_error option" where
  "UpdateHighestReceived streamID byteOffset f =
     (case getFlowController streamID f of
        Inl e \<Rightarrow> (f, Some e)
      | Inr c \<Rightarrow>
          (case fc_UpdateHighestReceived byteOffset c of
             (c, increment, _) \<Rightarrow> checkReceived streamID byteOffset increment c f))"

text \<open>
  \<open>AddBytesRead\<close>, \<open>AddBytesSent\<close> and \<open>AddBytesRetrans\<close> apply an operation to the controller of
  the stream, and to the one of the connection when the stream contributes to it.
\<close>

definition onBoth :: "(flowController \<Rightarrow> flowController) \<Rightarrow> (flowController \<Rightarrow> flowController) \<Rightarrow> StreamID
    \<Rightarrow> flowControlManager \<Rightarrow> flowControlManager \<times> go_error option" where
  "onBoth opStream opConn streamID f =
     (case getFlowController streamID f of
        Inl e \<Rightarrow> (f, Some e)
      | Inr c \<Rightarrow>
          (let f = putFlowController streamID (opStream c) f
           in (if fc_contributesToConnection c
               then f\<lparr> fcm_connFlowController := opConn (fcm_connFlowController f) \<rparr> else f, None)))"

definition AddBytesRead :: "Time \<times> Time \<Rightarrow> StreamID \<Rightarrow> ByteCount \<Rightarrow> flowControlManager
    \<Rightarrow> flowControlManager \<times> go_error option" where
  "AddBytesRead clock streamID n = onBoth (fc_AddBytesRead (fst clock) n) (fc_AddBytesRead (snd clock) n) streamID"

definition AddBytesSent :: "StreamID \<Rightarrow> ByteCount \<Rightarrow> flowControlManager
    \<Rightarrow> flowControlManager \<times> go_error option" where
  "AddBytesSent streamID n = onBoth (fc_AddBytesSent n) (fc_AddBytesSent n) streamID"

definition AddBytesRetrans :: "StreamID \<Rightarrow> ByteCount \<Rightarrow> flowControlManager
    \<Rightarrow> flowControlManager \<times> go_error option" where
  "AddBytesRetrans streamID n = onBoth (fc_AddBytesRetrans n) (fc_AddBytesRetrans n) streamID"

definition GetBytesSent :: "StreamID \<Rightarrow> flowControlManager \<Rightarrow> go_error + ByteCount" where
  "GetBytesSent streamID f = okThen (getFlowController streamID f) (\<lambda>c. Inr (fc_bytesSent c))"

definition GetBytesRetrans :: "StreamID \<Rightarrow> flowControlManager \<Rightarrow> go_error + ByteCount" where
  "GetBytesRetrans streamID f = okThen (getFlowController streamID f) (\<lambda>c. Inr (fc_bytesRetrans c))"

definition GetReceiveWindow :: "StreamID \<Rightarrow> flowControlManager \<Rightarrow> go_error + ByteCount" where
  "GetReceiveWindow streamID f =
     (if streamID = 0 then Inr (fc_receiveWindow (fcm_connFlowController f))
      else okThen (getFlowController streamID f) (\<lambda>c. Inr (fc_receiveWindow c)))"

definition fcm_SendWindowSize :: "fcEnv \<Rightarrow> StreamID \<Rightarrow> flowControlManager \<Rightarrow> go_error + ByteCount" where
  "fcm_SendWindowSize env streamID f =
     okThen (getFlowController streamID f) (\<lambda>c.
       let res = fc_SendWindowSize env c
       in Inr (if fc_contributesToConnection c
               then MinByteCount res (fc_SendWindowSize env (fcm_connFlowController f)) else res))"

definition RemainingConnectionWindowSize :: "fcEnv \<Rightarrow> flowControlManager \<Rightarrow> ByteCount" where
  "RemainingConnectionWindowSize env f = fc_SendWindowSize env (fcm_connFlowController f)"

definition UpdateWindow ::
  "StreamID \<Rightarrow> ByteCount \<Rightarrow> flowControlManager \<Rightarrow> go_error + (bool \<times> flowControlManager)" where
  "UpdateWindow streamID offset f =
     (if streamID = 0
      then let (updated, c) = UpdateSendWindow offset (fcm_connFlowController f)
           in Inr (updated, f\<lparr> fcm_connFlowController := c \<rparr>)
      else okThen (getFlowController streamID f) (\<lambda>c.
             let (updated, c) = UpdateSendWindow offset c
             in Inr (updated, putFlowController streamID c f)))"

text \<open>
  The loop of \<open>GetWindowUpdates\<close> over the stream controllers. The order in which Go visits a map
  is not specified, so it is an argument: the list of the keys. The clock readings are given
  per stream, with 0 for the connection.
\<close>

definition minConnIncrement :: "ByteCount \<Rightarrow> ByteCount" where
  "minConnIncrement newIncrement =
     toUint64 (f64 (f64 (of_int (uint newIncrement)) * ConnectionFlowControlMultiplier))"

fun windowUpdateLoop :: "fcEnv \<Rightarrow> (StreamID \<Rightarrow> Time \<times> Time) \<Rightarrow> bool \<Rightarrow> StreamID list
    \<Rightarrow> flowControlManager \<Rightarrow> WindowUpdate list \<times> flowControlManager" where
  "windowUpdateLoop env clock force [] f = ([], f)"
| "windowUpdateLoop env clock force (sid # ids) f =
     (case map_of (fcm_streamFlowController f) sid of
        None \<Rightarrow> windowUpdateLoop env clock force ids f
      | Some c \<Rightarrow>
          (let ((necessary, newIncrement, offset), c) = MaybeUpdateWindow env (clock sid) c;
               f = putFlowController sid c f
           in if force \<or> necessary
              then let f = (if fc_contributesToConnection c \<and> newIncrement \<noteq> 0
                            then f\<lparr> fcm_connFlowController := EnsureMinimumWindowIncrement
                                     (minConnIncrement newIncrement) (fcm_connFlowController f) \<rparr>
                            else f);
                       (res, f) = windowUpdateLoop env clock force ids f
                   in (\<lparr> wu_StreamID = sid, wu_Offset = offset \<rparr> # res, f)
              else windowUpdateLoop env clock force ids f))"

definition GetWindowUpdates :: "fcEnv \<Rightarrow> (StreamID \<Rightarrow> Time \<times> Time) \<Rightarrow> StreamID list \<Rightarrow> bool
    \<Rightarrow> flowControlManager \<Rightarrow> WindowUpdate list \<times> flowControlManager" where
  "GetWindowUpdates env clock order force f =
     (let (res, f) = windowUpdateLoop env clock force order f;
          ((necessary, _, offset), conn) = MaybeUpdateWindow env (clock 0) (fcm_connFlowController f);
          f = f\<lparr> fcm_connFlowController := conn \<rparr>
      in (if force \<or> necessary then res @ [\<lparr> wu_StreamID = 0, wu_Offset = offset \<rparr>] else res, f))"

section \<open>Sums over the streams\<close>

definition lsum :: "('b \<Rightarrow> nat) \<Rightarrow> ('a \<times> 'b) list \<Rightarrow> nat" where
  "lsum h xs = (\<Sum>x\<leftarrow>xs. h (snd x))"

lemma lsum_update:
  "distinct (map fst xs) \<Longrightarrow> map_of xs k = Some c \<Longrightarrow>
     lsum h (AList.update k c' xs) + h c = lsum h xs + h c'"
  by (induction xs) (auto simp: lsum_def)

lemma lsum_fresh: "map_of xs k = None \<Longrightarrow> lsum h (AList.update k c xs) = lsum h xs + h c"
  by (induction xs) (auto simp: lsum_def)

lemma lsum_delete:
  "distinct (map fst xs) \<Longrightarrow> map_of xs k = Some c \<Longrightarrow> lsum h (AList.delete k xs) + h c = lsum h xs"
proof (induction xs)
  case (Cons x xs)
  show ?case
  proof (cases "fst x = k")
    case True
    then have "AList.delete k (x # xs) = xs" using Cons.prems(1)
      by (auto simp: AList.delete_eq filter_id_conv image_iff)
    then show ?thesis using Cons.prems(2) True by (cases x) (simp add: lsum_def)
  next
    case False
    then show ?thesis using Cons by (cases x) (simp add: lsum_def)
  qed
qed simp

lemma lsum_mono:
  "(\<And>k c. (k, c) \<in> set xs \<Longrightarrow> h c \<le> h' c) \<Longrightarrow> lsum h xs \<le> lsum h' xs"
  by (auto simp: lsum_def intro!: sum_list_mono)

section \<open>One controller\<close>

text \<open>What a receiving controller keeps, given that only received data is read.\<close>

definition fc_inv :: "flowController \<Rightarrow> bool" where
  "fc_inv c \<longleftrightarrow>
     fc_bytesRead c \<le> fc_highestReceived c \<and> fc_highestReceived c \<le> fc_receiveWindow c
     \<and> fc_receiveWindow c < 2 ^ 63
     \<and> fc_receiveWindowIncrement c \<le> fc_maxReceiveWindowIncrement c
     \<and> fc_maxReceiveWindowIncrement c < 2 ^ 63"

lemma maybeAdjust_cases:
  "maybeAdjustWindowIncrement env now c \<in>
     {c, c\<lparr> fc_receiveWindowIncrement :=
              min (2 * fc_receiveWindowIncrement c) (fc_maxReceiveWindowIncrement c) \<rparr>}"
  by (simp add: maybeAdjustWindowIncrement_def Let_def)

lemma maybeAdjust_increment:
  assumes "fc_inv c"
  obtains inc where "maybeAdjustWindowIncrement env now c = c\<lparr> fc_receiveWindowIncrement := inc \<rparr>"
    and "fc_receiveWindowIncrement c \<le> inc" "inc \<le> fc_maxReceiveWindowIncrement c"
proof -
  let ?i = "fc_receiveWindowIncrement c" and ?m = "fc_maxReceiveWindowIncrement c"
  have "unat ?i < 2 ^ 63" "?i \<le> ?m" using assms by (auto simp: fc_inv_def word_le_nat_alt word_less_nat_alt)
  then have "?i \<le> min (2 * ?i) ?m" "min (2 * ?i) ?m \<le> ?m"
    by (simp_all add: word_le_nat_alt unat_word_ariths min_def)
  note le = this
  consider "maybeAdjustWindowIncrement env now c = c\<lparr> fc_receiveWindowIncrement := ?i \<rparr>"
    | "maybeAdjustWindowIncrement env now c = c\<lparr> fc_receiveWindowIncrement := min (2 * ?i) ?m \<rparr>"
    using maybeAdjust_cases [of env now c] by auto
  then show thesis by (cases; intro that) (assumption | rule order.refl le \<open>?i \<le> ?m\<close>)+
qed

text \<open>A window update never takes back what was granted, and always leaves half of the increment.\<close>

lemma MaybeUpdateWindow_cases:
  assumes "fc_inv c"
  obtains (same) "fc_receiveWindowIncrement c div 2 \<le> fc_receiveWindow c - fc_bytesRead c"
      "MaybeUpdateWindow env clock c = ((False, fc_receiveWindowIncrement c, fc_receiveWindow c), c)"
    | (updated) inc new where "fc_receiveWindow c - fc_bytesRead c < fc_receiveWindowIncrement c div 2"
      "fc_receiveWindowIncrement c \<le> inc" "inc \<le> fc_maxReceiveWindowIncrement c"
      "unat (fc_bytesRead c + inc) = unat (fc_bytesRead c) + unat inc"
      "fc_receiveWindow c < fc_bytesRead c + inc"
      "MaybeUpdateWindow env clock c = ((True, new, fc_bytesRead c + inc),
         c\<lparr> fc_receiveWindowIncrement := inc, fc_lastWindowUpdateTime := snd clock,
            fc_receiveWindow := fc_bytesRead c + inc \<rparr>)"
proof (cases "fc_receiveWindow c - fc_bytesRead c < fc_receiveWindowIncrement c div 2")
  case False
  show ?thesis by (rule same) (use False in \<open>simp_all add: MaybeUpdateWindow_def\<close>)
next
  case True
  obtain inc where inc: "maybeAdjustWindowIncrement env (fst clock) c = c\<lparr> fc_receiveWindowIncrement := inc \<rparr>"
    "fc_receiveWindowIncrement c \<le> inc" "inc \<le> fc_maxReceiveWindowIncrement c"
    using maybeAdjust_increment [OF assms] .
  let ?r = "unat (fc_bytesRead c)" and ?w = "unat (fc_receiveWindow c)"
  have b: "?r \<le> ?w" "?w < 2 ^ 63" "unat inc < 2 ^ 63" "unat (fc_receiveWindowIncrement c) \<le> unat inc"
    using assms inc by (auto simp: fc_inv_def word_le_nat_alt word_less_nat_alt)
  have sum: "unat (fc_bytesRead c + inc) = ?r + unat inc" using b by (simp add: unat_word_ariths)
  have "unat (fc_receiveWindow c - fc_bytesRead c) = ?w - ?r" using b(1) by (simp add: unat_sub word_le_nat_alt)
  then have "?w - ?r < unat (fc_receiveWindowIncrement c) div 2"
    using True by (simp add: word_less_nat_alt unat_div)
  then have "fc_receiveWindow c < fc_bytesRead c + inc" using sum b by (simp add: word_less_nat_alt)
  then show ?thesis
    by (rule updated [OF True inc(2,3) sum]) (use True inc(1) in \<open>simp add: MaybeUpdateWindow_def Let_def\<close>)
qed

text \<open>Fewer than \<open>2\<^sup>6\<^sup>3\<close> bytes are read over the lifetime of a controller.\<close>

definition fc_small :: "flowController \<Rightarrow> bool" where
  "fc_small c \<longleftrightarrow> unat (fc_bytesRead c) + unat (fc_maxReceiveWindowIncrement c) < 2 ^ 63"

text \<open>Everything but the window, its increment and the time of the last update.\<close>

definition fc_same :: "flowController \<Rightarrow> flowController \<Rightarrow> bool" where
  "fc_same c c' \<longleftrightarrow>
     fc_streamID c' = fc_streamID c \<and> fc_contributesToConnection c' = fc_contributesToConnection c
     \<and> fc_bytesSent c' = fc_bytesSent c \<and> fc_sendWindow c' = fc_sendWindow c
     \<and> fc_bytesRead c' = fc_bytesRead c \<and> fc_highestReceived c' = fc_highestReceived c
     \<and> fc_maxReceiveWindowIncrement c' = fc_maxReceiveWindowIncrement c"

lemma MaybeUpdateWindow_inv:
  assumes "fc_inv c" "fc_small c" "MaybeUpdateWindow env clock c = (res, c')"
  shows "fc_inv c' \<and> fc_same c c'"
  using assms(1)
proof (cases rule: MaybeUpdateWindow_cases [where env = env and clock = clock])
  case same
  then show ?thesis using assms by (simp add: fc_same_def)
next
  case (updated inc new)
  then have c': "c' = c\<lparr> fc_receiveWindowIncrement := inc, fc_lastWindowUpdateTime := snd clock,
            fc_receiveWindow := fc_bytesRead c + inc \<rparr>" using assms(3) by simp
  have "fc_same c c'" by (simp add: c' fc_same_def)
  moreover have "fc_inv c'" using assms(1,2) updated(2-5)
    by (auto simp: c' fc_inv_def fc_small_def word_le_nat_alt word_less_nat_alt)
  ultimately show ?thesis by simp
qed

lemma EnsureMinimumWindowIncrement_inv:
  assumes "fc_inv c"
  shows "fc_inv (EnsureMinimumWindowIncrement inc c)" "fc_same c (EnsureMinimumWindowIncrement inc c)"
  using assms by (auto simp: EnsureMinimumWindowIncrement_def fc_inv_def fc_same_def)

section \<open>The manager\<close>

definition received :: "flowController \<Rightarrow> nat" where
  "received c = (if fc_contributesToConnection c then unat (fc_highestReceived c) else 0)"

definition readBytes :: "flowController \<Rightarrow> nat" where
  "readBytes c = (if fc_contributesToConnection c then unat (fc_bytesRead c) else 0)"

definition sentBytes :: "flowController \<Rightarrow> nat" where
  "sentBytes c = (if fc_contributesToConnection c then unat (fc_bytesSent c) else 0)"

definition mgr_inv :: "nat \<Rightarrow> nat \<Rightarrow> flowControlManager \<Rightarrow> bool" where
  "mgr_inv gh gr f \<longleftrightarrow>
     distinct (map fst (fcm_streamFlowController f))
     \<and> (\<forall>(sid, c) \<in> set (fcm_streamFlowController f). fc_inv c) \<and> fc_inv (fcm_connFlowController f)
     \<and> unat (fc_highestReceived (fcm_connFlowController f)) = gh + lsum received (fcm_streamFlowController f)
     \<and> unat (fc_bytesRead (fcm_connFlowController f)) = gr + lsum readBytes (fcm_streamFlowController f)
     \<and> gr \<le> gh"

lemma set_update_subset:
  "(k', c) \<in> set (AList.update k v xs) \<Longrightarrow> distinct (map fst xs) \<Longrightarrow> (k', c) = (k, v) \<or> (k', c) \<in> set xs"
  by (induction xs) (auto split: if_splits)

lemma mgr_inv_put:
  assumes "mgr_inv gh gr f" "map_of (fcm_streamFlowController f) sid = Some c"
    and "fc_inv c'" "fc_inv conn"
    and "unat (fc_highestReceived conn) + received c
       = unat (fc_highestReceived (fcm_connFlowController f)) + received c'"
    and "unat (fc_bytesRead conn) + readBytes c
       = unat (fc_bytesRead (fcm_connFlowController f)) + readBytes c'"
  shows "mgr_inv gh gr (putFlowController sid c' f\<lparr> fcm_connFlowController := conn \<rparr>)"
proof -
  have d: "distinct (map fst (fcm_streamFlowController f))" using assms(1) by (simp add: mgr_inv_def)
  have l: "lsum h (AList.update sid c' (fcm_streamFlowController f)) + h c
    = lsum h (fcm_streamFlowController f) + h c'" for h using lsum_update [OF d assms(2)] .
  have "\<forall>(s, x) \<in> set (AList.update sid c' (fcm_streamFlowController f)). fc_inv x"
    using assms(1,3) d by (auto simp: mgr_inv_def dest!: set_update_subset)
  then show ?thesis
    using assms d l [of received] l [of readBytes]
    by (simp add: mgr_inv_def putFlowController_def distinct_update)
qed

lemma put_conn_same [simp]:
  "putFlowController sid c f\<lparr> fcm_connFlowController := fcm_connFlowController f \<rparr> = putFlowController sid c f"
  "fcm_connFlowController (putFlowController sid c f) = fcm_connFlowController f"
  "fcm_streamFlowController (putFlowController sid c f) = AList.update sid c (fcm_streamFlowController f)"
  by (simp_all add: putFlowController_def)

lemma mgr_inv_stream:
  assumes "mgr_inv gh gr f"
  shows "map_of (fcm_streamFlowController f) sid = Some c \<Longrightarrow> fc_inv c" "fc_inv (fcm_connFlowController f)"
  using assms by (auto simp: mgr_inv_def dest: map_of_SomeD)

text \<open>A step that changes neither what was received nor what was read.\<close>

lemma mgr_inv_put_same:
  assumes "mgr_inv gh gr f" "map_of (fcm_streamFlowController f) sid = Some c"
    and "fc_inv c'" "fc_same c c'" "fc_inv conn" "fc_same (fcm_connFlowController f) conn"
  shows "mgr_inv gh gr (putFlowController sid c' f\<lparr> fcm_connFlowController := conn \<rparr>)"
  by (rule mgr_inv_put [OF assms(1-3,5)])
    (use assms(4,6) in \<open>simp_all add: fc_same_def received_def readBytes_def\<close>)

definition mgr_small :: "flowControlManager \<Rightarrow> bool" where
  "mgr_small f \<longleftrightarrow>
     (\<forall>(sid, c) \<in> set (fcm_streamFlowController f). fc_small c) \<and> fc_small (fcm_connFlowController f)"

lemma fc_small_same: "fc_same c c' \<Longrightarrow> fc_small c' = fc_small c"
  by (simp add: fc_same_def fc_small_def)

lemma mgr_small_put:
  assumes "mgr_small f" "distinct (map fst (fcm_streamFlowController f))" "fc_small c'" "fc_small conn"
  shows "mgr_small (putFlowController sid c' f\<lparr> fcm_connFlowController := conn \<rparr>)"
  using assms by (auto simp: mgr_small_def dest!: set_update_subset)

lemma windowUpdateLoop_inv:
  assumes "mgr_inv gh gr f" "mgr_small f" "windowUpdateLoop env clock force ids f = (res, f')"
  shows "mgr_inv gh gr f' \<and> mgr_small f'"
  using assms
proof (induction ids arbitrary: f res)
  case Nil
  then show ?case by simp
next
  case (Cons sid ids)
  show ?case
  proof (cases "map_of (fcm_streamFlowController f) sid")
    case None
    then show ?thesis using Cons by simp
  next
    case (Some c)
    obtain nec inc off c' where m: "MaybeUpdateWindow env (clock sid) c = ((nec, inc, off), c')"
      by (metis prod.exhaust)
    define conn where "conn = (if (force \<or> nec) \<and> fc_contributesToConnection c' \<and> inc \<noteq> 0
      then EnsureMinimumWindowIncrement (minConnIncrement inc) (fcm_connFlowController f)
      else fcm_connFlowController f)"
    define f1 where "f1 = putFlowController sid c' f\<lparr> fcm_connFlowController := conn \<rparr>"
    have "\<exists>res'. windowUpdateLoop env clock force ids f1 = (res', f')"
      using Cons.prems(3) Some m
      by (cases "windowUpdateLoop env clock force ids f1")
        (auto simp: f1_def conn_def Let_def split: if_splits prod.splits)
    moreover have c: "fc_inv c'" "fc_same c c'" "fc_inv c" "fc_small c"
      using MaybeUpdateWindow_inv [OF _ _ m] mgr_inv_stream(1) [OF Cons.prems(1) Some] Cons.prems(2) Some
      by (auto simp: mgr_small_def dest: map_of_SomeD)
    moreover have n: "fc_inv conn" "fc_same (fcm_connFlowController f) conn"
      using EnsureMinimumWindowIncrement_inv mgr_inv_stream(2) [OF Cons.prems(1)]
      by (simp_all add: conn_def fc_same_def)
    moreover have "mgr_inv gh gr f1" unfolding f1_def
      by (rule mgr_inv_put_same [OF Cons.prems(1) Some c(1,2) n])
    moreover have "mgr_small f1" unfolding f1_def
      by (rule mgr_small_put [OF Cons.prems(2)])
        (use Cons.prems(1,2) fc_small_same [OF c(2)] fc_small_same [OF n(2)] c(4) in
          \<open>auto simp: mgr_inv_def mgr_small_def\<close>)
    ultimately show ?thesis using Cons.IH by blast
  qed
qed

lemma GetWindowUpdates_inv:
  assumes "mgr_inv gh gr f" "mgr_small f" "GetWindowUpdates env clock order force f = (ups, f')"
  shows "mgr_inv gh gr f'"
proof -
  obtain res f1 where l: "windowUpdateLoop env clock force order f = (res, f1)"
    by (cases "windowUpdateLoop env clock force order f")
  note i = windowUpdateLoop_inv [OF assms(1,2) l]
  obtain nec inc off conn where
    m: "MaybeUpdateWindow env (clock 0) (fcm_connFlowController f1) = ((nec, inc, off), conn)"
    by (metis prod.exhaust)
  have "fc_inv conn \<and> fc_same (fcm_connFlowController f1) conn"
    by (rule MaybeUpdateWindow_inv [OF _ _ m]) (use i in \<open>auto simp: mgr_inv_def mgr_small_def\<close>)
  moreover have "f' = f1\<lparr> fcm_connFlowController := conn \<rparr>"
    using assms(3) l m by (auto simp: GetWindowUpdates_def)
  ultimately show ?thesis using i by (auto simp: mgr_inv_def fc_same_def)
qed

section \<open>Runs\<close>

text \<open>
  The states that the manager of a connection reaches without an error. Data is read only
  after it was received, and a contributing stream sends at most what \<open>SendWindowSize\<close>
  allows. The numbers count what the streams that are closed by now had received, read and
  sent for the connection.
\<close>

inductive flow :: "connectionParametersManager \<Rightarrow> nat \<Rightarrow> nat \<Rightarrow> nat \<Rightarrow> flowControlManager \<Rightarrow> bool"
  for cp where
  start: "env_connectionParameters env = cp \<Longrightarrow> flow cp 0 0 0 (NewFlowControlManager env)"
| opened: "flow cp gh gr gs f \<Longrightarrow> env_connectionParameters env = cp \<Longrightarrow>
    flow cp gh gr gs (NewStream env sid contributes f)"
| closed: "flow cp gh gr gs f \<Longrightarrow> map_of (fcm_streamFlowController f) sid = Some c \<Longrightarrow>
    flow cp (gh + received c) (gr + readBytes c) (gs + sentBytes c) (fcm_RemoveStream sid f)"
| frame: "flow cp gh gr gs f \<Longrightarrow> UpdateHighestReceived sid byteOffset f = (f', None) \<Longrightarrow> flow cp gh gr gs f'"
| reset: "flow cp gh gr gs f \<Longrightarrow> ResetStream sid byteOffset f = (f', None) \<Longrightarrow> flow cp gh gr gs f'"
| read: "flow cp gh gr gs f \<Longrightarrow> getFlowController sid f = Inr c \<Longrightarrow>
    unat (fc_bytesRead c) + unat n \<le> unat (fc_highestReceived c) \<Longrightarrow>
    AddBytesRead clock sid n f = (f', None) \<Longrightarrow> flow cp gh gr gs f'"
| sent: "flow cp gh gr gs f \<Longrightarrow> getFlowController sid f = Inr c \<Longrightarrow> env_connectionParameters env = cp \<Longrightarrow>
    fcm_SendWindowSize env sid f = Inr w \<Longrightarrow> fc_contributesToConnection c \<longrightarrow> n \<le> w \<Longrightarrow>
    AddBytesSent sid n f = (f', None) \<Longrightarrow> flow cp gh gr gs f'"
| retrans: "flow cp gh gr gs f \<Longrightarrow> AddBytesRetrans sid n f = (f', None) \<Longrightarrow> flow cp gh gr gs f'"
| granted: "flow cp gh gr gs f \<Longrightarrow> UpdateWindow sid offset f = Inr (updated, f') \<Longrightarrow> flow cp gh gr gs f'"
| grant: "flow cp gh gr gs f \<Longrightarrow> env_connectionParameters env = cp \<Longrightarrow> mgr_small f \<Longrightarrow>
    GetWindowUpdates env clock order force f = (ups, f') \<Longrightarrow> flow cp gh gr gs f'"

text \<open>Windows of a sensible configuration: within the maximum and far from overflow.\<close>

definition params_ok :: "connectionParametersManager \<Rightarrow> bool" where
  "params_ok cp \<longleftrightarrow>
     receiveStreamFlowControlWindow cp \<le> maxReceiveStreamFlowControlWindow cp
     \<and> maxReceiveStreamFlowControlWindow cp < 2 ^ 63
     \<and> receiveConnectionFlowControlWindow cp \<le> maxReceiveConnectionFlowControlWindow cp
     \<and> maxReceiveConnectionFlowControlWindow cp < 2 ^ 63"

lemma fc_inv_new:
  "params_ok (env_connectionParameters env) \<Longrightarrow> fc_inv (newFlowController sid contributes env)"
  by (auto simp: params_ok_def fc_inv_def newFlowController_def Let_def)

lemma new_counts [simp]:
  "received (newFlowController sid b env) = 0" "readBytes (newFlowController sid b env) = 0"
  "sentBytes (newFlowController sid b env) = 0"
  by (simp_all add: received_def readBytes_def sentBytes_def newFlowController_def Let_def)

lemma mgr_inv_opened:
  assumes "mgr_inv gh gr f" "params_ok (env_connectionParameters env)"
  shows "mgr_inv gh gr (NewStream env sid b f)"
proof (cases "map_of (fcm_streamFlowController f) sid")
  case None
  have "\<forall>(s, x) \<in> set (AList.update sid (newFlowController sid b env) (fcm_streamFlowController f)). fc_inv x"
    using assms fc_inv_new by (auto simp: mgr_inv_def dest!: set_update_subset)
  then show ?thesis using assms None
    by (simp add: NewStream_def mgr_inv_def lsum_fresh distinct_update)
qed (use assms in \<open>simp add: NewStream_def\<close>)

lemma mgr_inv_closed:
  assumes "mgr_inv gh gr f" "map_of (fcm_streamFlowController f) sid = Some c"
  shows "mgr_inv (gh + received c) (gr + readBytes c) (fcm_RemoveStream sid f)"
proof -
  have d: "distinct (map fst (fcm_streamFlowController f))" using assms(1) by (simp add: mgr_inv_def)
  have "readBytes c \<le> received c" using mgr_inv_stream(1) [OF assms]
    by (simp add: readBytes_def received_def fc_inv_def word_le_nat_alt)
  moreover have "set (AList.delete sid (fcm_streamFlowController f)) \<subseteq> set (fcm_streamFlowController f)"
    by (auto simp: AList.delete_eq)
  ultimately show ?thesis
    using assms(1) lsum_delete [OF d assms(2), of received] lsum_delete [OF d assms(2), of readBytes] d
    by (auto simp: mgr_inv_def fcm_RemoveStream_def distinct_delete)
qed

lemma checkReceived_inv:
  assumes "mgr_inv gh gr f" "map_of (fcm_streamFlowController f) sid = Some c"
    and "fc_UpdateHighestReceived byteOffset c = (c', increment, e)"
    and "checkReceived sid byteOffset increment c' f = (f', None)"
  shows "mgr_inv gh gr f'"
proof -
  define conn where "conn = (if fc_contributesToConnection c'
    then IncrementHighestReceived increment (fcm_connFlowController f) else fcm_connFlowController f)"
  note ic = mgr_inv_stream(1) [OF assms(1,2)] mgr_inv_stream(2) [OF assms(1)]
  have f': "f' = putFlowController sid c' f\<lparr> fcm_connFlowController := conn \<rparr>"
    and ok: "\<not> CheckFlowControlViolation c'" "\<not> CheckFlowControlViolation conn"
    using assms(4) ic(2)
    by (auto simp: checkReceived_def conn_def Let_def CheckFlowControlViolation_def fc_inv_def split: if_splits)
  have c': "c' = c\<lparr> fc_highestReceived := fc_highestReceived c + increment \<rparr>"
    "unat (fc_highestReceived c') = unat (fc_highestReceived c) + unat increment"
    using assms(3) by (auto simp: fc_UpdateHighestReceived_def unat_sub word_less_nat_alt word_le_nat_alt split: if_splits)
  have inc: "unat increment < 2 ^ 63" "fc_inv c'"
    using ok(1) ic(1) c' by (auto simp: CheckFlowControlViolation_def fc_inv_def word_le_nat_alt word_less_nat_alt)
  have "unat (fc_highestReceived (fcm_connFlowController f) + increment)
    = unat (fc_highestReceived (fcm_connFlowController f)) + unat increment"
    using inc(1) ic(2) by (simp add: fc_inv_def unat_word_ariths word_le_nat_alt word_less_nat_alt)
  note sum = this
  have "fc_inv conn" using ok(2) ic(2) sum
    by (auto simp: conn_def CheckFlowControlViolation_def fc_inv_def IncrementHighestReceived_def
        word_le_nat_alt word_less_nat_alt)
  then show ?thesis unfolding f'
    by (rule mgr_inv_put [OF assms(1,2) inc(2)])
      (use sum c' in \<open>auto simp: conn_def received_def readBytes_def IncrementHighestReceived_def\<close>)
qed

lemma getFlowController_Inr:
  "getFlowController sid f = Inr c \<longleftrightarrow> map_of (fcm_streamFlowController f) sid = Some c"
  by (auto simp: getFlowController_def split: option.splits)

lemma onBoth_ok:
  assumes "onBoth op op' sid f = (f', None)"
  obtains c where "map_of (fcm_streamFlowController f) sid = Some c"
    and "f' = putFlowController sid (op c) f\<lparr> fcm_connFlowController :=
      (if fc_contributesToConnection c then op' (fcm_connFlowController f) else fcm_connFlowController f) \<rparr>"
  using assms by (auto simp: onBoth_def getFlowController_def Let_def split: option.splits)

lemma mgr_inv_frame:
  assumes "mgr_inv gh gr f"
  shows "UpdateHighestReceived sid byteOffset f = (f', None) \<Longrightarrow> mgr_inv gh gr f'"
    and "ResetStream sid byteOffset f = (f', None) \<Longrightarrow> mgr_inv gh gr f'"
  using checkReceived_inv [OF assms]
  by (auto simp: UpdateHighestReceived_def ResetStream_def getFlowController_def
      split: option.splits prod.splits sum.splits)

lemma fc_AddBytesRead_simps [simp]:
  "fc_bytesRead (fc_AddBytesRead now n c) = fc_bytesRead c + n"
  "fc_highestReceived (fc_AddBytesRead now n c) = fc_highestReceived c"
  "fc_receiveWindow (fc_AddBytesRead now n c) = fc_receiveWindow c"
  "fc_receiveWindowIncrement (fc_AddBytesRead now n c) = fc_receiveWindowIncrement c"
  "fc_maxReceiveWindowIncrement (fc_AddBytesRead now n c) = fc_maxReceiveWindowIncrement c"
  "fc_contributesToConnection (fc_AddBytesRead now n c) = fc_contributesToConnection c"
  "fc_bytesSent (fc_AddBytesRead now n c) = fc_bytesSent c"
  "fc_sendWindow (fc_AddBytesRead now n c) = fc_sendWindow c"
  "fc_streamID (fc_AddBytesRead now n c) = fc_streamID c"
  by (simp_all add: fc_AddBytesRead_def Let_def)

lemma sum_reads_le:
  assumes "mgr_inv gh gr f" "map_of (fcm_streamFlowController f) sid = Some c" "fc_contributesToConnection c"
    and "unat (fc_bytesRead c) + n \<le> unat (fc_highestReceived c)"
  shows "unat (fc_bytesRead (fcm_connFlowController f)) + n \<le> unat (fc_highestReceived (fcm_connFlowController f))"
proof -
  let ?xs = "fcm_streamFlowController f"
  have i: "distinct (map fst ?xs)" "\<And>k x. (k, x) \<in> set ?xs \<Longrightarrow> fc_inv x"
    using assms(1) by (auto simp: mgr_inv_def)
  have "lsum readBytes (AList.delete sid ?xs) \<le> lsum received (AList.delete sid ?xs)"
    using i(2) by (intro lsum_mono)
      (auto simp: AList.delete_eq readBytes_def received_def fc_inv_def word_le_nat_alt)
  then show ?thesis
    using assms lsum_delete [OF i(1) assms(2), of received] lsum_delete [OF i(1) assms(2), of readBytes]
    by (simp add: mgr_inv_def received_def readBytes_def)
qed

lemma mgr_inv_read:
  assumes "mgr_inv gh gr f" "map_of (fcm_streamFlowController f) sid = Some c"
    and "unat (fc_bytesRead c) + unat n \<le> unat (fc_highestReceived c)"
    and "AddBytesRead clock sid n f = (f', None)"
  shows "mgr_inv gh gr f'"
proof -
  let ?n = "fcm_connFlowController f"
  note ic = mgr_inv_stream(1) [OF assms(1,2)] mgr_inv_stream(2) [OF assms(1)]
  have r: "unat (fc_bytesRead c + n) = unat (fc_bytesRead c) + unat n"
    "fc_contributesToConnection c \<Longrightarrow> unat (fc_bytesRead ?n + n) = unat (fc_bytesRead ?n) + unat n"
    using assms(3) sum_reads_le [OF assms(1,2) _ assms(3)] unsigned_less [where ?'a = nat, of "fc_highestReceived c"]
      unsigned_less [where ?'a = nat, of "fc_highestReceived ?n"]
    by (simp_all add: unat_word_ariths)
  have "fc_inv (fc_AddBytesRead (fst clock) n c)"
    using ic(1) r(1) assms(3) by (simp add: fc_inv_def word_le_nat_alt)
  moreover have "fc_inv (if fc_contributesToConnection c then fc_AddBytesRead (snd clock) n ?n else ?n)"
    using ic(2) r(2) sum_reads_le [OF assms(1,2) _ assms(3)] by (simp add: fc_inv_def word_le_nat_alt)
  ultimately have "mgr_inv gh gr (putFlowController sid (fc_AddBytesRead (fst clock) n c) f\<lparr> fcm_connFlowController :=
      (if fc_contributesToConnection c then fc_AddBytesRead (snd clock) n ?n else ?n) \<rparr>)"
    by (rule mgr_inv_put [OF assms(1,2)]) (use r in \<open>simp_all add: received_def readBytes_def\<close>)
  then show ?thesis using assms(2,4) unfolding AddBytesRead_def
    by (auto elim: onBoth_ok)
qed

text \<open>Operations of the sending side do not touch the receiving side.\<close>

lemma mgr_inv_sending:
  assumes "mgr_inv gh gr f" "map_of (fcm_streamFlowController f) sid = Some c"
    and "\<And>c. fc_inv (op c) = fc_inv c" "\<And>c. received (op c) = received c" "\<And>c. readBytes (op c) = readBytes c"
    and "\<And>c. fc_highestReceived (op c) = fc_highestReceived c" "\<And>c. fc_bytesRead (op c) = fc_bytesRead c"
  shows "mgr_inv gh gr (putFlowController sid (op c) f\<lparr> fcm_connFlowController := op (fcm_connFlowController f) \<rparr>)"
    and "mgr_inv gh gr (putFlowController sid (op c) f)"
    and "mgr_inv gh gr (f\<lparr> fcm_connFlowController := op (fcm_connFlowController f) \<rparr>)"
proof -
  note ic = mgr_inv_stream(1) [OF assms(1,2)] mgr_inv_stream(2) [OF assms(1)]
  show "mgr_inv gh gr (putFlowController sid (op c) f\<lparr> fcm_connFlowController := op (fcm_connFlowController f) \<rparr>)"
    by (rule mgr_inv_put [OF assms(1,2)]) (simp_all add: assms ic)
  show "mgr_inv gh gr (putFlowController sid (op c) f)"
    using mgr_inv_put [OF assms(1,2), of "op c" "fcm_connFlowController f"] assms ic by simp
  show "mgr_inv gh gr (f\<lparr> fcm_connFlowController := op (fcm_connFlowController f) \<rparr>)"
    using assms(1) by (simp add: mgr_inv_def assms)
qed

lemma mgr_inv_UpdateWindow:
  assumes "mgr_inv gh gr f" "UpdateWindow sid offset f = Inr (updated, f')"
  shows "mgr_inv gh gr f'"
proof -
  define op where "op c = snd (UpdateSendWindow offset c)" for c
  have op: "fc_inv (op c) = fc_inv c" "received (op c) = received c" "readBytes (op c) = readBytes c"
    "fc_highestReceived (op c) = fc_highestReceived c" "fc_bytesRead (op c) = fc_bytesRead c" for c
    by (simp_all add: op_def UpdateSendWindow_def fc_inv_def received_def readBytes_def)
  show ?thesis
  proof (cases "sid = 0")
    case True
    then have "f' = f\<lparr> fcm_connFlowController := op (fcm_connFlowController f) \<rparr>"
      using assms(2) by (auto simp: UpdateWindow_def op_def split: prod.splits)
    then show ?thesis using assms(1) op by (simp add: mgr_inv_def)
  next
    case False
    then obtain c where "map_of (fcm_streamFlowController f) sid = Some c"
      and f': "f' = putFlowController sid (op c) f"
      using assms(2) by (auto simp: UpdateWindow_def op_def okThen_Inr_iff getFlowController_Inr split_beta Let_def)
    then show ?thesis using mgr_inv_sending(2) [OF assms(1), of sid c op] op by simp
  qed
qed

lemma flow_mgr_inv: "flow cp gh gr gs f \<Longrightarrow> params_ok cp \<Longrightarrow> mgr_inv gh gr f"
proof (induction rule: flow.induct)
  case (start env)
  then show ?case using fc_inv_new [of env 0 False]
    by (simp add: NewFlowControlManager_def mgr_inv_def lsum_def newFlowController_def Let_def)
next
  case (opened gh gr gs f env sid contributes)
  then show ?case by (simp add: mgr_inv_opened)
next
  case (closed gh gr gs f sid c)
  then show ?case by (simp add: mgr_inv_closed)
next
  case (frame gh gr gs f sid byteOffset f')
  then show ?case by (blast intro: mgr_inv_frame)
next
  case (reset gh gr gs f sid byteOffset f')
  then show ?case by (blast intro: mgr_inv_frame)
next
  case (read gh gr gs f sid c n clock f')
  then show ?case by (blast intro: mgr_inv_read dest: getFlowController_Inr [THEN iffD1])
next
  case (sent gh gr gs f sid c env w n f')
  have op: "fc_inv (fc_AddBytesSent n c) = fc_inv c" "received (fc_AddBytesSent n c) = received c"
    "readBytes (fc_AddBytesSent n c) = readBytes c" for c
    by (simp_all add: fc_AddBytesSent_def fc_inv_def received_def readBytes_def)
  show ?case using sent mgr_inv_sending(1,2) [of gh gr f sid _ "fc_AddBytesSent n", OF _ _ op]
    unfolding AddBytesSent_def by (elim onBoth_ok) (auto simp: fc_AddBytesSent_def)
next
  case (retrans gh gr gs f sid n f')
  have op: "fc_inv (fc_AddBytesRetrans n c) = fc_inv c" "received (fc_AddBytesRetrans n c) = received c"
    "readBytes (fc_AddBytesRetrans n c) = readBytes c" for c
    by (simp_all add: fc_AddBytesRetrans_def fc_inv_def received_def readBytes_def)
  show ?case using retrans mgr_inv_sending(1,2) [of gh gr f sid _ "fc_AddBytesRetrans n", OF _ _ op]
    unfolding AddBytesRetrans_def by (elim onBoth_ok) (auto simp: fc_AddBytesRetrans_def)
next
  case (granted gh gr gs f sid offset updated f')
  then show ?case by (blast intro: mgr_inv_UpdateWindow)
next
  case (grant gh gr gs f env clock order force ups f')
  then show ?case by (blast intro: GetWindowUpdates_inv)
qed

section \<open>The sending side\<close>

definition sndsame :: "flowController \<Rightarrow> flowController \<Rightarrow> bool" where
  "sndsame c c' \<longleftrightarrow>
     fc_streamID c' = fc_streamID c \<and> fc_contributesToConnection c' = fc_contributesToConnection c
     \<and> fc_bytesSent c' = fc_bytesSent c \<and> fc_sendWindow c' = fc_sendWindow c"

definition mgr_sndsame :: "flowControlManager \<Rightarrow> flowControlManager \<Rightarrow> bool" where
  "mgr_sndsame f f' \<longleftrightarrow>
     list_all2 (\<lambda>x y. fst x = fst y \<and> sndsame (snd x) (snd y))
       (fcm_streamFlowController f) (fcm_streamFlowController f')
     \<and> sndsame (fcm_connFlowController f) (fcm_connFlowController f')"

lemma sndsame_refl [simp]: "sndsame c c"
  by (simp add: sndsame_def)

lemma sndsame_trans: "sndsame a b \<Longrightarrow> sndsame b c \<Longrightarrow> sndsame a c"
  by (simp add: sndsame_def)

lemma mgr_sndsame_refl [simp]: "mgr_sndsame f f"
  by (auto simp: mgr_sndsame_def intro: list.rel_refl)

lemma mgr_sndsame_trans:
  assumes "mgr_sndsame f g" "mgr_sndsame g h"
  shows "mgr_sndsame f h"
proof -
  let ?P = "\<lambda>x y. fst x = fst y \<and> sndsame (snd x) (snd y)"
  have "list_all2 ?P (fcm_streamFlowController f) (fcm_streamFlowController h)"
    by (rule list_all2_trans [where ?P1.0 = ?P and ?P2.0 = ?P, of _ _ "fcm_streamFlowController g"])
      (use assms in \<open>auto simp: mgr_sndsame_def intro: sndsame_trans\<close>)
  then show ?thesis using assms by (auto simp: mgr_sndsame_def intro: sndsame_trans)
qed

lemma mgr_sndsame_put:
  assumes "map_of (fcm_streamFlowController f) sid = Some c" "sndsame c c'"
    and "sndsame (fcm_connFlowController f) conn"
  shows "mgr_sndsame f (putFlowController sid c' f\<lparr> fcm_connFlowController := conn \<rparr>)"
proof -
  have "map_of xs sid = Some c \<Longrightarrow>
    list_all2 (\<lambda>x y. fst x = fst y \<and> sndsame (snd x) (snd y)) xs (AList.update sid c' xs)" for xs
    using assms(2) by (induction xs) (auto intro: list.rel_refl)
  then show ?thesis using assms by (simp add: mgr_sndsame_def)
qed

lemma sndsame_ops:
  "sndsame c (snd (MaybeUpdateWindow env clock c))" "sndsame c (EnsureMinimumWindowIncrement inc c)"
  "sndsame c (fst (fc_UpdateHighestReceived byteOffset c))" "sndsame c (IncrementHighestReceived inc c)"
  "sndsame c (fc_AddBytesRead now n c)" "sndsame c (fc_AddBytesRetrans n c)"
  by (simp_all add: sndsame_def MaybeUpdateWindow_def maybeAdjustWindowIncrement_def Let_def
      EnsureMinimumWindowIncrement_def fc_UpdateHighestReceived_def IncrementHighestReceived_def
      fc_AddBytesRetrans_def)

lemma windowUpdateLoop_sndsame:
  "windowUpdateLoop env clock force ids f = (res, f') \<Longrightarrow> mgr_sndsame f f'"
proof (induction ids arbitrary: f res)
  case (Cons sid ids)
  show ?case
  proof (cases "map_of (fcm_streamFlowController f) sid")
    case None
    then show ?thesis using Cons by simp
  next
    case (Some c)
    obtain nec inc off c' where m: "MaybeUpdateWindow env (clock sid) c = ((nec, inc, off), c')"
      by (metis prod.exhaust)
    define conn where "conn = (if (force \<or> nec) \<and> fc_contributesToConnection c' \<and> inc \<noteq> 0
      then EnsureMinimumWindowIncrement (minConnIncrement inc) (fcm_connFlowController f)
      else fcm_connFlowController f)"
    define f1 where "f1 = putFlowController sid c' f\<lparr> fcm_connFlowController := conn \<rparr>"
    have "\<exists>res'. windowUpdateLoop env clock force ids f1 = (res', f')"
      using Cons.prems Some m
      by (cases "windowUpdateLoop env clock force ids f1")
        (auto simp: f1_def conn_def Let_def split: if_splits prod.splits)
    then have "mgr_sndsame f1 f'" using Cons.IH by blast
    moreover have "mgr_sndsame f f1" unfolding f1_def
      by (rule mgr_sndsame_put [OF Some]) (use sndsame_ops(1) [of c env "clock sid"] sndsame_ops(2) m in
        \<open>simp_all add: conn_def\<close>)
    ultimately show ?thesis using mgr_sndsame_trans by blast
  qed
qed simp

lemma GetWindowUpdates_sndsame:
  assumes "GetWindowUpdates env clock order force f = (ups, f')"
  shows "mgr_sndsame f f'"
proof -
  obtain res f1 where l: "windowUpdateLoop env clock force order f = (res, f1)"
    by (cases "windowUpdateLoop env clock force order f")
  have "f' = f1\<lparr> fcm_connFlowController := snd (MaybeUpdateWindow env (clock 0) (fcm_connFlowController f1)) \<rparr>"
    using assms l by (auto simp: GetWindowUpdates_def split: prod.splits)
  then show ?thesis
    using windowUpdateLoop_sndsame [OF l] sndsame_ops(1) [of "fcm_connFlowController f1" env "clock 0"]
    by (auto simp: mgr_sndsame_def intro: sndsame_trans)
qed

lemma checkReceived_sndsame:
  assumes "map_of (fcm_streamFlowController f) sid = Some c"
    and "fc_UpdateHighestReceived byteOffset c = (c', increment, e)"
    and "checkReceived sid byteOffset increment c' f = (f', None)"
  shows "mgr_sndsame f f'"
proof -
  have "f' = putFlowController sid c' f\<lparr> fcm_connFlowController := (if fc_contributesToConnection c'
    then IncrementHighestReceived increment (fcm_connFlowController f) else fcm_connFlowController f) \<rparr>"
    using assms(3) by (auto simp: checkReceived_def Let_def split: if_splits)
  then show ?thesis
    using mgr_sndsame_put [OF assms(1)] sndsame_ops(3) [of c byteOffset] sndsame_ops(4) assms(2) by simp
qed

lemma frame_sndsame:
  "UpdateHighestReceived sid byteOffset f = (f', None) \<Longrightarrow> mgr_sndsame f f'"
  "ResetStream sid byteOffset f = (f', None) \<Longrightarrow> mgr_sndsame f f'"
  using checkReceived_sndsame
  by (auto simp: UpdateHighestReceived_def ResetStream_def getFlowController_def
      split: option.splits prod.splits sum.splits)

lemma onBoth_sndsame:
  assumes "onBoth op op' sid f = (f', None)" "\<And>c. sndsame c (op c)" "\<And>c. sndsame c (op' c)"
  shows "mgr_sndsame f f'"
  using assms(1) by (rule onBoth_ok) (simp add: mgr_sndsame_put assms(2,3))

text \<open>
  The most that the peer ever allowed: the negotiated window, or the largest offset of a
  WINDOW_UPDATE frame.
\<close>

definition sendLimit :: "connectionParametersManager \<Rightarrow> flowController \<Rightarrow> ByteCount" where
  "sendLimit cp c =
     max (if fc_streamID c = 0 then sendConnectionFlowControlWindow cp else sendStreamFlowControlWindow cp)
       (fc_sendWindow c)"

definition snd_inv :: "connectionParametersManager \<Rightarrow> nat \<Rightarrow> flowControlManager \<Rightarrow> bool" where
  "snd_inv cp gs f \<longleftrightarrow>
     distinct (map fst (fcm_streamFlowController f))
     \<and> (\<forall>(sid, c) \<in> set (fcm_streamFlowController f).
          fc_contributesToConnection c \<longrightarrow> fc_bytesSent c \<le> sendLimit cp c)
     \<and> fc_bytesSent (fcm_connFlowController f) \<le> sendLimit cp (fcm_connFlowController f)
     \<and> unat (fc_bytesSent (fcm_connFlowController f)) = gs + lsum sentBytes (fcm_streamFlowController f)"

lemma snd_inv_same:
  assumes "snd_inv cp gs f" "mgr_sndsame f f'"
  shows "snd_inv cp gs f'"
proof -
  let ?xs = "fcm_streamFlowController f" and ?ys = "fcm_streamFlowController f'"
  have r: "list_all2 (\<lambda>x y. fst x = fst y \<and> sndsame (snd x) (snd y)) ?xs ?ys"
    using assms(2) by (simp add: mgr_sndsame_def)
  then have "map fst ?xs = map fst ?ys" "lsum sentBytes ?xs = lsum sentBytes ?ys"
    by (induction rule: list_all2_induct) (auto simp: lsum_def sentBytes_def sndsame_def)
  moreover have "\<forall>(sid, c) \<in> set ?ys. fc_contributesToConnection c \<longrightarrow> fc_bytesSent c \<le> sendLimit cp c"
    if "\<forall>(sid, c) \<in> set ?xs. fc_contributesToConnection c \<longrightarrow> fc_bytesSent c \<le> sendLimit cp c"
    using r that by (induction rule: list_all2_induct) (auto simp: sndsame_def sendLimit_def)
  ultimately show ?thesis using assms by (auto simp: snd_inv_def mgr_sndsame_def sndsame_def sendLimit_def)
qed

lemma snd_inv_put:
  assumes "snd_inv cp gs f" "map_of (fcm_streamFlowController f) sid = Some c"
    and "fc_contributesToConnection c' \<longrightarrow> fc_bytesSent c' \<le> sendLimit cp c'"
    and "fc_bytesSent conn \<le> sendLimit cp conn"
    and "unat (fc_bytesSent conn) + sentBytes c
       = unat (fc_bytesSent (fcm_connFlowController f)) + sentBytes c'"
  shows "snd_inv cp gs (putFlowController sid c' f\<lparr> fcm_connFlowController := conn \<rparr>)"
proof -
  have d: "distinct (map fst (fcm_streamFlowController f))" using assms(1) by (simp add: snd_inv_def)
  have "\<forall>(s, x) \<in> set (AList.update sid c' (fcm_streamFlowController f)).
      fc_contributesToConnection x \<longrightarrow> fc_bytesSent x \<le> sendLimit cp x"
    using assms(1,3) d by (auto simp: snd_inv_def dest!: set_update_subset)
  then show ?thesis using assms d lsum_update [OF d assms(2), of sentBytes c']
    by (simp add: snd_inv_def distinct_update)
qed

lemma snd_inv_stream:
  assumes "snd_inv cp gs f"
  shows "map_of (fcm_streamFlowController f) sid = Some c \<Longrightarrow> fc_contributesToConnection c \<Longrightarrow>
      fc_bytesSent c \<le> sendLimit cp c"
    and "fc_bytesSent (fcm_connFlowController f) \<le> sendLimit cp (fcm_connFlowController f)"
  using assms by (auto simp: snd_inv_def dest: map_of_SomeD)

lemma fc_sent:
  assumes "n \<le> fc_SendWindowSize env c" "env_connectionParameters env = cp" "fc_bytesSent c \<le> sendLimit cp c"
  shows "fc_bytesSent (fc_AddBytesSent n c) \<le> sendLimit cp (fc_AddBytesSent n c)"
    and "unat (fc_bytesSent (fc_AddBytesSent n c)) = unat (fc_bytesSent c) + unat n"
proof -
  have "getSendWindow env c \<le> sendLimit cp c"
    using assms(2) by (auto simp: getSendWindow_def sendLimit_def le_max_iff_disj)
  moreover have "n = 0 \<or> unat (fc_bytesSent c) + unat n \<le> unat (getSendWindow env c)"
    using assms(1) unfolding fc_SendWindowSize_def Let_def
    by (auto simp: unat_sub word_le_nat_alt word_less_nat_alt unat_eq_zero split: if_splits)
  moreover have "unat (getSendWindow env c) < 2 ^ 64" using unsigned_less [where ?'a = nat, of "getSendWindow env c"] by simp
  ultimately have *: "unat (fc_bytesSent c + n) = unat (fc_bytesSent c) + unat n"
    "n = 0 \<or> unat (fc_bytesSent c) + unat n \<le> unat (sendLimit cp c)"
    using unsigned_less [where ?'a = nat, of "fc_bytesSent c"]
    by (auto simp: unat_word_ariths word_le_nat_alt)
  show "unat (fc_bytesSent (fc_AddBytesSent n c)) = unat (fc_bytesSent c) + unat n"
    using * by (simp add: fc_AddBytesSent_def)
  have "sendLimit cp (fc_AddBytesSent n c) = sendLimit cp c" by (simp add: fc_AddBytesSent_def sendLimit_def)
  then show "fc_bytesSent (fc_AddBytesSent n c) \<le> sendLimit cp (fc_AddBytesSent n c)"
    using * assms(3) by (auto simp: fc_AddBytesSent_def word_le_nat_alt)
qed

lemma snd_inv_sent:
  assumes "snd_inv cp gs f" "map_of (fcm_streamFlowController f) sid = Some c" "env_connectionParameters env = cp"
    and "fcm_SendWindowSize env sid f = Inr w" "fc_contributesToConnection c \<longrightarrow> n \<le> w"
    and "AddBytesSent sid n f = (f', None)"
  shows "snd_inv cp gs f'"
proof -
  let ?n = "fcm_connFlowController f"
  have f': "f' = putFlowController sid (fc_AddBytesSent n c) f\<lparr> fcm_connFlowController :=
      (if fc_contributesToConnection c then fc_AddBytesSent n ?n else ?n) \<rparr>"
    using assms(2,6) unfolding AddBytesSent_def by (auto elim: onBoth_ok)
  have w: "w = (if fc_contributesToConnection c then min (fc_SendWindowSize env c) (fc_SendWindowSize env ?n)
      else fc_SendWindowSize env c)"
    using assms(2,4) by (auto simp: fcm_SendWindowSize_def getFlowController_def Let_def split: if_splits)
  show ?thesis
  proof (cases "fc_contributesToConnection c")
    case True
    then have "n \<le> fc_SendWindowSize env c" "n \<le> fc_SendWindowSize env ?n" using w assms(5) by simp_all
    note s = fc_sent [OF this(1) assms(3) snd_inv_stream(1) [OF assms(1,2) True]]
      fc_sent [OF this(2) assms(3) snd_inv_stream(2) [OF assms(1)]]
    show ?thesis unfolding f'
      by (rule snd_inv_put [OF assms(1,2)]) (use True s in \<open>auto simp: sentBytes_def fc_AddBytesSent_def\<close>)
  next
    case False
    then show ?thesis unfolding f'
      by (intro snd_inv_put [OF assms(1,2)])
        (use snd_inv_stream(2) [OF assms(1)] in \<open>auto simp: sentBytes_def fc_AddBytesSent_def\<close>)
  qed
qed

lemma UpdateSendWindow_limit:
  assumes "UpdateSendWindow offset c = (b, c')"
  shows "\<And>cp. sendLimit cp c \<le> sendLimit cp c'" "fc_bytesSent c' = fc_bytesSent c"
    "fc_contributesToConnection c' = fc_contributesToConnection c"
  using assms by (auto simp: UpdateSendWindow_def sendLimit_def le_max_iff_disj split: if_splits)

lemma snd_inv_UpdateWindow:
  assumes "snd_inv cp gs f" "UpdateWindow sid offset f = Inr (updated, f')"
  shows "snd_inv cp gs f'"
proof (cases "sid = 0")
  case True
  then obtain c b where u: "UpdateSendWindow offset (fcm_connFlowController f) = (b, c)"
    and f': "f' = f\<lparr> fcm_connFlowController := c \<rparr>"
    using assms(2) by (auto simp: UpdateWindow_def split: prod.splits)
  show ?thesis using assms(1) UpdateSendWindow_limit [OF u] unfolding f'
    by (auto simp: snd_inv_def intro: order.trans)
next
  case False
  then obtain c where c: "map_of (fcm_streamFlowController f) sid = Some c"
    and "f' = putFlowController sid (snd (UpdateSendWindow offset c)) f"
    using assms(2) by (auto simp: UpdateWindow_def okThen_Inr_iff getFlowController_Inr split_beta Let_def)
  then obtain b c' where u: "UpdateSendWindow offset c = (b, c')" and f': "f' = putFlowController sid c' f"
    by (cases "UpdateSendWindow offset c") simp
  note l = UpdateSendWindow_limit [OF u]
  have "snd_inv cp gs (putFlowController sid c' f\<lparr> fcm_connFlowController := fcm_connFlowController f \<rparr>)"
    by (rule snd_inv_put [OF assms(1) c])
      (use l snd_inv_stream [OF assms(1)] c in \<open>auto simp: sentBytes_def intro: order.trans\<close>)
  then show ?thesis by (simp add: f')
qed

lemma flow_snd_inv: "flow cp gh gr gs f \<Longrightarrow> snd_inv cp gs f"
proof (induction rule: flow.induct)
  case (start env)
  then show ?case by (simp add: NewFlowControlManager_def snd_inv_def lsum_def newFlowController_def Let_def)
next
  case (opened gh gr gs f env sid contributes)
  then show ?case
  proof (cases "map_of (fcm_streamFlowController f) sid")
    case None
    have "\<forall>(s, x) \<in> set (AList.update sid (newFlowController sid contributes env) (fcm_streamFlowController f)).
        fc_contributesToConnection x \<longrightarrow> fc_bytesSent x \<le> sendLimit cp x"
      using opened by (auto simp: snd_inv_def newFlowController_def Let_def dest!: set_update_subset)
    then show ?thesis using opened None by (simp add: NewStream_def snd_inv_def lsum_fresh distinct_update)
  qed (simp add: NewStream_def)
next
  case (closed gh gr gs f sid c)
  have d: "distinct (map fst (fcm_streamFlowController f))" using closed.IH by (simp add: snd_inv_def)
  have "set (AList.delete sid (fcm_streamFlowController f)) \<subseteq> set (fcm_streamFlowController f)"
    by (auto simp: AList.delete_eq)
  then show ?case using closed lsum_delete [OF d closed.hyps(2), of sentBytes] d
    by (auto simp: snd_inv_def fcm_RemoveStream_def distinct_delete)
next
  case (frame gh gr gs f sid byteOffset f')
  then show ?case by (blast intro: snd_inv_same frame_sndsame)
next
  case (reset gh gr gs f sid byteOffset f')
  then show ?case by (blast intro: snd_inv_same frame_sndsame)
next
  case (read gh gr gs f sid c n clock f')
  then show ?case unfolding AddBytesRead_def by (blast intro: snd_inv_same onBoth_sndsame sndsame_ops)
next
  case (sent gh gr gs f sid c env w n f')
  then show ?case by (blast intro: snd_inv_sent dest: getFlowController_Inr [THEN iffD1])
next
  case (retrans gh gr gs f sid n f')
  then show ?case unfolding AddBytesRetrans_def by (blast intro: snd_inv_same onBoth_sndsame sndsame_ops)
next
  case (granted gh gr gs f sid offset updated f')
  then show ?case by (blast intro: snd_inv_UpdateWindow)
next
  case (grant gh gr gs f env clock order force ups f')
  then show ?case by (blast intro: snd_inv_same GetWindowUpdates_sndsame)
qed

section \<open>Window updates\<close>

definition lowWindow :: "flowController \<Rightarrow> bool" where
  "lowWindow c \<longleftrightarrow> fc_receiveWindow c - fc_bytesRead c < fc_receiveWindowIncrement c div 2"

lemma EnsureMinimum_grows:
  assumes "fc_inv c"
  shows "fc_receiveWindow (EnsureMinimumWindowIncrement inc c) = fc_receiveWindow c"
    "fc_receiveWindowIncrement c \<le> fc_receiveWindowIncrement (EnsureMinimumWindowIncrement inc c)"
    "fc_bytesRead (EnsureMinimumWindowIncrement inc c) = fc_bytesRead c"
  using assms by (auto simp: EnsureMinimumWindowIncrement_def fc_inv_def)

lemma MaybeUpdateWindow_offset:
  assumes "fc_inv c" "MaybeUpdateWindow env clock c = ((nec, inc, off), c')"
  shows "fc_receiveWindow c \<le> off" "nec = lowWindow c" "lowWindow c \<Longrightarrow> fc_receiveWindow c < off"
proof -
  have "fc_receiveWindow c \<le> off \<and> nec = lowWindow c \<and> (lowWindow c \<longrightarrow> fc_receiveWindow c < off)"
    using assms(1)
  proof (cases rule: MaybeUpdateWindow_cases [where env = env and clock = clock])
    case same
    then show ?thesis using assms(2) by (simp add: lowWindow_def)
  next
    case (updated inc' new)
    then show ?thesis using assms(2) by (simp add: lowWindow_def)
  qed
  then show "fc_receiveWindow c \<le> off" "nec = lowWindow c" "lowWindow c \<Longrightarrow> fc_receiveWindow c < off"
    by blast+
qed

lemma windowUpdateLoop_updates:
  assumes "mgr_inv gh gr f" "mgr_small f" "distinct ids"
    and "windowUpdateLoop env clock force ids f = (res, f')"
  shows "(\<forall>u \<in> set res. \<exists>c. wu_StreamID u \<in> set ids
        \<and> map_of (fcm_streamFlowController f) (wu_StreamID u) = Some c \<and> fc_receiveWindow c \<le> wu_Offset u)
    \<and> (\<forall>sid \<in> set ids. \<forall>c. map_of (fcm_streamFlowController f) sid = Some c \<longrightarrow> lowWindow c \<longrightarrow>
        (\<exists>u \<in> set res. wu_StreamID u = sid \<and> fc_receiveWindow c < wu_Offset u))
    \<and> fc_receiveWindow (fcm_connFlowController f') = fc_receiveWindow (fcm_connFlowController f)
    \<and> fc_receiveWindowIncrement (fcm_connFlowController f) \<le> fc_receiveWindowIncrement (fcm_connFlowController f')
    \<and> fc_bytesRead (fcm_connFlowController f') = fc_bytesRead (fcm_connFlowController f)"
  using assms
proof (induction ids arbitrary: f res)
  case (Cons sid ids)
  show ?case
  proof (cases "map_of (fcm_streamFlowController f) sid")
    case None
    then show ?thesis using Cons by fastforce
  next
    case (Some c)
    obtain nec inc off c' where m: "MaybeUpdateWindow env (clock sid) c = ((nec, inc, off), c')"
      by (metis prod.exhaust)
    define conn where "conn = (if (force \<or> nec) \<and> fc_contributesToConnection c' \<and> inc \<noteq> 0
      then EnsureMinimumWindowIncrement (minConnIncrement inc) (fcm_connFlowController f)
      else fcm_connFlowController f)"
    define f1 where "f1 = putFlowController sid c' f\<lparr> fcm_connFlowController := conn \<rparr>"
    obtain res' where l: "windowUpdateLoop env clock force ids f1 = (res', f')"
      and res: "res = (if force \<or> nec then \<lparr> wu_StreamID = sid, wu_Offset = off \<rparr> # res' else res')"
      using Cons.prems(4) Some m
      by (cases "windowUpdateLoop env clock force ids f1")
        (auto simp: f1_def conn_def Let_def split: if_splits prod.splits)
    have one: "windowUpdateLoop env clock force [sid] f = (if force \<or> nec then [\<lparr> wu_StreamID = sid, wu_Offset = off \<rparr>] else [], f1)"
      using Some m by (auto simp: f1_def conn_def Let_def)
    note i = windowUpdateLoop_inv [OF Cons.prems(1,2) one]
    note IH = Cons.IH [OF conjunct1 [OF i] conjunct2 [OF i] _ l]
    have c: "fc_inv c" "fc_inv (fcm_connFlowController f)"
      using mgr_inv_stream [OF Cons.prems(1)] Some by blast+
    note o = MaybeUpdateWindow_offset [OF c(1) m]
    have conn: "fc_receiveWindow conn = fc_receiveWindow (fcm_connFlowController f)"
      "fc_receiveWindowIncrement (fcm_connFlowController f) \<le> fc_receiveWindowIncrement conn"
      "fc_bytesRead conn = fc_bytesRead (fcm_connFlowController f)"
      using EnsureMinimum_grows [OF c(2)] by (simp_all add: conn_def)
    have other: "map_of (fcm_streamFlowController f1) s = map_of (fcm_streamFlowController f) s" if "s \<in> set ids" for s
      using that Cons.prems(3) by (auto simp: f1_def update_conv')
    have n: "fcm_connFlowController f1 = conn" by (simp add: f1_def)
    show ?thesis using IH Cons.prems(3) o conn Some unfolding n res
      by (auto simp: other; fastforce simp: other)
  qed
qed simp

end
