(* ===== verification/FlowControlLive.thy ===== *)
theory FlowControlLive
  imports FlowControl
begin

text \<open>
  Properties of the flow control managers of the two ends of a connection: the accounting of
  received and sent data, and that window updates never leave a sender blocked for good.
\<close>

section \<open>Window updates of the receiver\<close>

lemma GetWindowUpdates_updates:
  assumes "mgr_inv gh gr f" "mgr_small f" "distinct order" "0 \<notin> set order"
    and "GetWindowUpdates env clock order force f = (ups, f')"
  shows "(\<forall>u \<in> set ups. if wu_StreamID u = 0 then fc_receiveWindow (fcm_connFlowController f) \<le> wu_Offset u
        else \<exists>c. map_of (fcm_streamFlowController f) (wu_StreamID u) = Some c \<and> fc_receiveWindow c \<le> wu_Offset u)
    \<and> (\<forall>sid \<in> set order. \<forall>c. map_of (fcm_streamFlowController f) sid = Some c \<longrightarrow> lowWindow c \<longrightarrow>
        (\<exists>u \<in> set ups. wu_StreamID u = sid \<and> fc_receiveWindow c < wu_Offset u))
    \<and> (lowWindow (fcm_connFlowController f) \<longrightarrow>
        (\<exists>u \<in> set ups. wu_StreamID u = 0 \<and> fc_receiveWindow (fcm_connFlowController f) < wu_Offset u))"
proof -
  obtain res f1 where l: "windowUpdateLoop env clock force order f = (res, f1)"
    by (cases "windowUpdateLoop env clock force order f")
  let ?n = "fcm_connFlowController f" and ?n1 = "fcm_connFlowController f1"
  note u = windowUpdateLoop_updates [OF assms(1-3) l] and i = windowUpdateLoop_inv [OF assms(1,2) l]
  obtain nec inc off conn where m: "MaybeUpdateWindow env (clock 0) ?n1 = ((nec, inc, off), conn)"
    by (metis prod.exhaust)
  have ups: "ups = (if force \<or> nec then res @ [\<lparr> wu_StreamID = 0, wu_Offset = off \<rparr>] else res)"
    using assms(5) l m by (auto simp: GetWindowUpdates_def)
  have "fc_inv ?n1" using i by (simp add: mgr_inv_def)
  note o = MaybeUpdateWindow_offset [OF this m]
  have "fc_receiveWindowIncrement ?n div 2 \<le> fc_receiveWindowIncrement ?n1 div 2"
    using u by (simp add: word_le_nat_alt unat_div div_le_mono)
  then have low: "lowWindow ?n \<Longrightarrow> lowWindow ?n1" using u by (simp add: lowWindow_def)
  have "if wu_StreamID w = 0 then fc_receiveWindow ?n \<le> wu_Offset w
        else \<exists>c. map_of (fcm_streamFlowController f) (wu_StreamID w) = Some c \<and> fc_receiveWindow c \<le> wu_Offset w"
    if "w \<in> set ups" for w
  proof (cases "w \<in> set res")
    case True
    then show ?thesis using u assms(4) by metis
  next
    case False
    then have "w = \<lparr> wu_StreamID = 0, wu_Offset = off \<rparr>" using that ups by (simp split: if_splits)
    then show ?thesis using o(1) u by simp
  qed
  moreover have "set res \<subseteq> set ups" using ups by auto
  moreover have "\<exists>w \<in> set ups. wu_StreamID w = 0 \<and> fc_receiveWindow ?n < wu_Offset w" if "lowWindow ?n"
    using low [OF that] o(2,3) u ups by auto
  ultimately show ?thesis using u by blast
qed

text \<open>The sender processes the WINDOW_UPDATE frames; frames for unknown streams change nothing.\<close>

definition applyUpdates :: "WindowUpdate list \<Rightarrow> flowControlManager \<Rightarrow> flowControlManager" where
  "applyUpdates = fold (\<lambda>u f. case UpdateWindow (wu_StreamID u) (wu_Offset u) f of Inl _ \<Rightarrow> f | Inr (_, f') \<Rightarrow> f')"

definition offsetsFor :: "StreamID \<Rightarrow> WindowUpdate list \<Rightarrow> ByteCount list" where
  "offsetsFor sid ups = map wu_Offset (filter (\<lambda>u. wu_StreamID u = sid) ups)"

lemma applyUpdates_windows:
  assumes "map_of (fcm_streamFlowController f) sid = Some c" "sid \<noteq> 0"
  shows "map_of (fcm_streamFlowController (applyUpdates ups f)) sid
      = Some (c\<lparr> fc_sendWindow := fold max (offsetsFor sid ups) (fc_sendWindow c) \<rparr>)
    \<and> fcm_connFlowController (applyUpdates ups f)
      = (fcm_connFlowController f)\<lparr> fc_sendWindow :=
          fold max (offsetsFor 0 ups) (fc_sendWindow (fcm_connFlowController f)) \<rparr>"
  using assms(1)
proof (induction ups arbitrary: f c)
  case Nil
  then show ?case by (simp add: applyUpdates_def offsetsFor_def)
next
  case (Cons u ups)
  define f1 where "f1 = (case UpdateWindow (wu_StreamID u) (wu_Offset u) f of Inl _ \<Rightarrow> f | Inr (_, f') \<Rightarrow> f')"
  have conn: "fcm_connFlowController f1 = (fcm_connFlowController f)\<lparr> fc_sendWindow :=
      fold max (offsetsFor 0 [u]) (fc_sendWindow (fcm_connFlowController f)) \<rparr>"
    by (auto simp: f1_def UpdateWindow_def UpdateSendWindow_def offsetsFor_def getFlowController_def
        max_def split: sum.splits option.splits prod.splits)
  have "map_of (fcm_streamFlowController f1) sid
      = Some (c\<lparr> fc_sendWindow := fold max (offsetsFor sid [u]) (fc_sendWindow c) \<rparr>)"
    using Cons.prems assms(2)
    by (auto simp: f1_def UpdateWindow_def UpdateSendWindow_def offsetsFor_def getFlowController_def
        max_def update_conv' split: sum.splits option.splits prod.splits)
  note IH = Cons.IH [OF this]
  have "applyUpdates (u # ups) f = applyUpdates ups f1" by (simp add: applyUpdates_def f1_def)
  moreover have "fold max (offsetsFor s ups) (fold max (offsetsFor s [u]) x) = fold max (offsetsFor s (u # ups)) x" for s x
    by (simp add: offsetsFor_def)
  ultimately show ?case using IH conn by simp
qed

lemma fold_max_ge:
  fixes x :: "'a::linorder"
  shows "x \<le> fold max os x" "o' \<in> set os \<Longrightarrow> o' \<le> fold max os x"
    "fold max os x = x \<or> fold max os x \<in> set os"
proof -
  have "x \<le> fold max os x \<and> (\<forall>o' \<in> set os. o' \<le> fold max os x) \<and> (fold max os x = x \<or> fold max os x \<in> set os)"
  proof (induction os arbitrary: x)
    case (Cons a os)
    show ?case using Cons [of "max a x"] by (auto simp: max_def split: if_splits intro: order.trans)
  qed simp
  then show "x \<le> fold max os x" "o' \<in> set os \<Longrightarrow> o' \<le> fold max os x"
    "fold max os x = x \<or> fold max os x \<in> set os" by blast+
qed

lemma live_step:
  assumes inv: "fc_inv c" and inc: "2 \<le> fc_receiveWindowIncrement c"
    and sender: "getSendWindow env s = fc_receiveWindow c" "fc_bytesSent s = fc_bytesRead c"
    and sound: "\<forall>w \<in> set os. fc_receiveWindow c \<le> w"
    and complete: "lowWindow c \<longrightarrow> (\<exists>w \<in> set os. fc_receiveWindow c < w)"
  shows "0 < fc_SendWindowSize env (s\<lparr> fc_sendWindow := fold max os (fc_sendWindow s) \<rparr>)"
proof -
  let ?s = "s\<lparr> fc_sendWindow := fold max os (fc_sendWindow s) \<rparr>"
  note f = fold_max_ge [where x = "fc_sendWindow s" and os = os]
  have ge: "fc_receiveWindow c \<le> getSendWindow env ?s"
  proof (cases "os = []")
    case False
    then obtain w where "w \<in> set os" by (cases os) auto
    then have "fc_receiveWindow c \<le> fold max os (fc_sendWindow s)" using sound f(2) order.trans by blast
    then show ?thesis using sender(1) f(3) by (auto simp: getSendWindow_def split: if_splits)
  qed (use sender(1) in simp)
  have "fc_bytesRead c < getSendWindow env ?s"
  proof (cases "lowWindow c")
    case True
    then obtain w where w: "w \<in> set os" "fc_receiveWindow c < w" using complete by blast
    then have "fc_receiveWindow c < fold max os (fc_sendWindow s)" using f(2) less_le_trans by blast
    then have "fc_receiveWindow c < getSendWindow env ?s" by (auto simp: getSendWindow_def)
    then show ?thesis using inv by (auto simp: fc_inv_def)
  next
    case False
    have "0 < fc_receiveWindowIncrement c div 2"
      using inc by (simp add: word_le_nat_alt word_less_nat_alt unat_div)
    then have "fc_bytesRead c \<noteq> fc_receiveWindow c" using False by (auto simp: lowWindow_def)
    then show ?thesis using inv ge by (auto simp: fc_inv_def)
  qed
  then show ?thesis
    using sender(2) by (auto simp: fc_SendWindowSize_def getSendWindow_def Let_def word_less_nat_alt
        unat_sub word_le_nat_alt)
qed

section \<open>An example run\<close>

text \<open>With small windows: stream 5 receives a full window of 16 bytes, and all of it is read.\<close>

definition exEnv :: fcEnv where
  "exEnv = \<lparr> env_connectionParameters =
       (NewConnectionParamatersManager PerspectiveClient VersionMP 64 96 (30 * Second))
         \<lparr> sendStreamFlowControlWindow := 16, sendConnectionFlowControlWindow := 24,
           receiveStreamFlowControlWindow := 16, receiveConnectionFlowControlWindow := 24 \<rparr>,
     env_rttStats = NewRTTStats, env_remoteRTTs = [(1, 40)] \<rparr>"

definition exOpened :: flowControlManager where
  "exOpened = NewStream exEnv 5 True (NewFlowControlManager exEnv)"

definition exReceived :: flowControlManager where
  "exReceived = fst (UpdateHighestReceived 5 16 exOpened)"

definition exRead :: flowControlManager where
  "exRead = fst (AddBytesRead (7, 8) 5 16 exReceived)"

definition exSent :: flowControlManager where
  "exSent = fst (AddBytesSent 5 16 exOpened)"

lemma example_params: "params_ok (env_connectionParameters exEnv)"
  by code_simp

lemma example_opened: "flow (env_connectionParameters exEnv) 0 0 0 exOpened"
  unfolding exOpened_def by (intro flow.start flow.opened) simp_all

lemma example_received: "flow (env_connectionParameters exEnv) 0 0 0 exReceived"
proof -
  have "UpdateHighestReceived 5 16 exOpened = (exReceived, None)"
    unfolding exReceived_def by code_simp
  then show ?thesis by (rule flow.frame [OF example_opened])
qed

lemma example_read: "flow (env_connectionParameters exEnv) 0 0 0 exRead"
proof -
  let ?c = "the (map_of (fcm_streamFlowController exReceived) 5)"
  have "map_of (fcm_streamFlowController exReceived) 5 = Some ?c"
    "unat (fc_bytesRead ?c) + unat (16 :: ByteCount) \<le> unat (fc_highestReceived ?c)" by code_simp+
  moreover have "AddBytesRead (7, 8) 5 16 exReceived = (exRead, None)" unfolding exRead_def by code_simp
  ultimately show ?thesis by (intro flow.read [OF example_received]) (simp_all add: getFlowController_Inr)
qed

lemma exRead_value:
  "exRead = \<lparr> fcm_streamFlowController = [(5, \<lparr> fc_streamID = 5, fc_contributesToConnection = True,
       fc_bytesSent = 0, fc_sendWindow = 0, fc_bytesRetrans = 0, fc_lastWindowUpdateTime = 7,
       fc_bytesRead = 16, fc_highestReceived = 16, fc_receiveWindow = 16,
       fc_receiveWindowIncrement = 16, fc_maxReceiveWindowIncrement = 64 \<rparr>)],
     fcm_connFlowController = \<lparr> fc_streamID = 0, fc_contributesToConnection = False,
       fc_bytesSent = 0, fc_sendWindow = 0, fc_bytesRetrans = 0, fc_lastWindowUpdateTime = 8,
       fc_bytesRead = 16, fc_highestReceived = 16, fc_receiveWindow = 24,
       fc_receiveWindowIncrement = 24, fc_maxReceiveWindowIncrement = 96 \<rparr> \<rparr>"
  by code_simp

lemma example_sent: "flow (env_connectionParameters exEnv) 0 0 0 exSent"
proof -
  let ?c = "the (map_of (fcm_streamFlowController exOpened) 5)"
  have "getFlowController 5 exOpened = Inr ?c" by code_simp
  moreover have "fcm_SendWindowSize exEnv 5 exOpened = Inr 16" by code_simp
  moreover have "AddBytesSent 5 16 exOpened = (exSent, None)" unfolding exSent_def by code_simp
  ultimately show ?thesis by (intro flow.sent [OF example_opened, where w = 16 and n = 16]) simp_all
qed

section \<open>Properties\<close>

text \<open>
  C15. In every state that the manager reaches without an error, no stream and not the
  connection has received more than its window, only received data was read, and the
  connection counts exactly what its contributing streams, open and closed, have received
  and read.
\<close>

theorem receive_accounting:
  assumes "flow cp gh gr gs f" "params_ok cp"
  shows "(\<forall>sid c. map_of (fcm_streamFlowController f) sid = Some c \<longrightarrow>
        fc_bytesRead c \<le> fc_highestReceived c \<and> fc_highestReceived c \<le> fc_receiveWindow c)
    \<and> fc_bytesRead (fcm_connFlowController f) \<le> fc_highestReceived (fcm_connFlowController f)
    \<and> fc_highestReceived (fcm_connFlowController f) \<le> fc_receiveWindow (fcm_connFlowController f)
    \<and> unat (fc_highestReceived (fcm_connFlowController f)) = gh + lsum received (fcm_streamFlowController f)
    \<and> unat (fc_bytesRead (fcm_connFlowController f)) = gr + lsum readBytes (fcm_streamFlowController f)"
  using flow_mgr_inv [OF assms] mgr_inv_stream [OF flow_mgr_inv [OF assms]]
  by (auto simp: mgr_inv_def fc_inv_def)

theorem receive_accounting_witness:
  "fc_highestReceived (fcm_connFlowController exRead) \<le> fc_receiveWindow (fcm_connFlowController exRead)
   \<and> unat (fc_highestReceived (fcm_connFlowController exRead)) = 0 + lsum received (fcm_streamFlowController exRead)"
  using receive_accounting [OF example_read example_params] by simp



text \<open>
  C17. Flow control does not deadlock. Let the receiver have read everything that the sender
  has sent on a stream and on the connection, and let the sender know the current windows.
  After the window updates of the receiver reach the sender, the sender can send on the
  stream again.
\<close>

theorem flow_control_live:
  assumes rcv: "flow cp gh gr gs f" "params_ok cp" "mgr_small f"
    and stream: "map_of (fcm_streamFlowController f) sid = Some c" "sid \<noteq> 0"
    and order: "distinct order" "set order = fst ` set (fcm_streamFlowController f)" "0 \<notin> set order"
    and increments: "2 \<le> fc_receiveWindowIncrement c"
      "2 \<le> fc_receiveWindowIncrement (fcm_connFlowController f)"
    and snd: "map_of (fcm_streamFlowController g) sid = Some s"
      "getSendWindow env s = fc_receiveWindow c"
      "getSendWindow env (fcm_connFlowController g) = fc_receiveWindow (fcm_connFlowController f)"
      "fc_bytesSent s = fc_bytesRead c"
      "fc_bytesSent (fcm_connFlowController g) = fc_bytesRead (fcm_connFlowController f)"
    and ups: "GetWindowUpdates env' clock order force f = (ups, f')"
  shows "\<exists>w. fcm_SendWindowSize env sid (applyUpdates ups g) = Inr w \<and> 0 < w"
proof -
  note inv = flow_mgr_inv [OF rcv(1,2)]
  note i = mgr_inv_stream(1) [OF inv stream(1)] mgr_inv_stream(2) [OF inv]
  note u = GetWindowUpdates_updates [OF inv rcv(3) order(1,3) ups]
  have sid: "sid \<in> set order" using stream(1) order(2) by (force dest: map_of_SomeD)
  have off: "w \<in> set (offsetsFor k ups) \<longleftrightarrow> (\<exists>x \<in> set ups. wu_StreamID x = k \<and> wu_Offset x = w)" for k w
    by (auto simp: offsetsFor_def)
  have "0 < fc_SendWindowSize env (s\<lparr> fc_sendWindow := fold max (offsetsFor sid ups) (fc_sendWindow s) \<rparr>)"
    by (rule live_step [OF i(1) increments(1) snd(2,4)])
      (use u sid stream in \<open>force simp: off\<close>)+
  moreover have "0 < fc_SendWindowSize env ((fcm_connFlowController g)\<lparr> fc_sendWindow :=
      fold max (offsetsFor 0 ups) (fc_sendWindow (fcm_connFlowController g)) \<rparr>)"
    by (rule live_step [OF i(2) increments(2) snd(3,5)]) (use u in \<open>force simp: off\<close>)+
  ultimately show ?thesis using applyUpdates_windows [OF snd(1) stream(2), of ups]
    by (simp add: fcm_SendWindowSize_def getFlowController_def Let_def)
qed

theorem flow_control_live_witness:
  "\<exists>w. fcm_SendWindowSize exEnv 5
      (applyUpdates (fst (GetWindowUpdates exEnv (\<lambda>_. (9, 9)) [5] False exRead)) exSent) = Inr w \<and> 0 < w"
proof (rule flow_control_live [OF example_read example_params])
  let ?c = "the (map_of (fcm_streamFlowController exRead) 5)"
  show "mgr_small exRead" by (simp add: exRead_value mgr_small_def fc_small_def)
  show "map_of (fcm_streamFlowController exRead) 5 = Some ?c" by code_simp
  show "set [5] = fst ` set (fcm_streamFlowController exRead)" by code_simp
  show "2 \<le> fc_receiveWindowIncrement ?c" "2 \<le> fc_receiveWindowIncrement (fcm_connFlowController exRead)"
    by code_simp+
  let ?s = "the (map_of (fcm_streamFlowController exSent) 5)"
  show "map_of (fcm_streamFlowController exSent) 5 = Some ?s" by code_simp
  show "getSendWindow exEnv ?s = fc_receiveWindow ?c" "fc_bytesSent ?s = fc_bytesRead ?c" by code_simp+
  show "getSendWindow exEnv (fcm_connFlowController exSent) = fc_receiveWindow (fcm_connFlowController exRead)"
    "fc_bytesSent (fcm_connFlowController exSent) = fc_bytesRead (fcm_connFlowController exRead)"
    by code_simp+
  show "GetWindowUpdates exEnv (\<lambda>_. (9, 9)) [5] False exRead
    = (fst (GetWindowUpdates exEnv (\<lambda>_. (9, 9)) [5] False exRead),
       snd (GetWindowUpdates exEnv (\<lambda>_. (9, 9)) [5] False exRead))" by simp
qed simp_all

text \<open>
  C18. A frame is accepted exactly when its last byte is within the window of the stream and,
  for a stream that contributes, the new bytes are within the window of the connection;
  otherwise the connection is closed for receiving too much data. Reordered frames change
  nothing. The counters of the connection cannot be made to wrap around.
\<close>

theorem UpdateHighestReceived_exact:
  assumes "flow cp gh gr gs f" "params_ok cp" "map_of (fcm_streamFlowController f) sid = Some c"
  defines "conn \<equiv> fcm_connFlowController f"
  shows "(snd (UpdateHighestReceived sid byteOffset f) = None \<longleftrightarrow>
        byteOffset \<le> fc_receiveWindow c
        \<and> (fc_contributesToConnection c \<longrightarrow> unat (fc_highestReceived conn)
             + (unat byteOffset - unat (fc_highestReceived c)) \<le> unat (fc_receiveWindow conn)))
    \<and> (snd (UpdateHighestReceived sid byteOffset f) \<noteq> None \<longrightarrow>
        (\<exists>msg. snd (UpdateHighestReceived sid byteOffset f) = Some (QuicError FlowControlReceivedTooMuchData msg)))
    \<and> (byteOffset \<le> fc_highestReceived c \<longrightarrow>
        map_of (fcm_streamFlowController (fst (UpdateHighestReceived sid byteOffset f))) = map_of (fcm_streamFlowController f)
        \<and> fcm_connFlowController (fst (UpdateHighestReceived sid byteOffset f)) = conn)"
proof -
  note inv = flow_mgr_inv [OF assms(1,2)]
  note i = mgr_inv_stream(1) [OF inv assms(3)] mgr_inv_stream(2) [OF inv, folded conn_def]
  let ?h = "fc_highestReceived c"
  have get: "getFlowController sid f = Inr c" using assms(3) by (simp add: getFlowController_Inr)
  show ?thesis
  proof (cases "byteOffset \<le> ?h")
    case True
    then have u: "fst (fc_UpdateHighestReceived byteOffset c) = c" "fst (snd (fc_UpdateHighestReceived byteOffset c)) = 0"
      by (auto simp: fc_UpdateHighestReceived_def)
    have "unat byteOffset - unat ?h = 0" "byteOffset \<le> fc_receiveWindow c"
      using True i(1) by (auto simp: word_le_nat_alt fc_inv_def)
    moreover have "UpdateHighestReceived sid byteOffset f
        = (putFlowController sid c f\<lparr> fcm_connFlowController := conn \<rparr>, None)"
      using i get u
      by (auto simp: UpdateHighestReceived_def checkReceived_def CheckFlowControlViolation_def Let_def
          IncrementHighestReceived_def fc_inv_def conn_def split: prod.splits)
    ultimately show ?thesis using True i(2) assms(3)
      by (auto simp: fc_inv_def word_le_nat_alt update_conv' fun_upd_idem)
  next
    case False
    then have u: "fc_UpdateHighestReceived byteOffset c = (c\<lparr> fc_highestReceived := byteOffset \<rparr>, byteOffset - ?h, None)"
      by (auto simp: fc_UpdateHighestReceived_def)
    have "byteOffset \<le> fc_receiveWindow c \<Longrightarrow>
      unat (fc_highestReceived conn + (byteOffset - ?h)) = unat (fc_highestReceived conn) + (unat byteOffset - unat ?h)"
      using False i by (auto simp: unat_word_ariths unat_sub fc_inv_def word_le_nat_alt word_less_nat_alt)
    then show ?thesis using False get u
      by (auto simp: UpdateHighestReceived_def checkReceived_def CheckFlowControlViolation_def Let_def
          IncrementHighestReceived_def tooMuchStreamData_def tooMuchConnectionData_def conn_def
          word_le_nat_alt word_less_nat_alt linorder_not_less)
  qed
qed

theorem UpdateHighestReceived_exact_witness:
  "snd (UpdateHighestReceived 5 16 exOpened) = None
   \<and> (\<exists>msg. snd (UpdateHighestReceived 5 17 exOpened) = Some (QuicError FlowControlReceivedTooMuchData msg))"
proof -
  let ?c = "the (map_of (fcm_streamFlowController exOpened) 5)"
  have c: "map_of (fcm_streamFlowController exOpened) 5 = Some ?c" by code_simp
  have "(16 :: ByteCount) \<le> fc_receiveWindow ?c
    \<and> (fc_contributesToConnection ?c \<longrightarrow> unat (fc_highestReceived (fcm_connFlowController exOpened))
         + (unat (16 :: ByteCount) - unat (fc_highestReceived ?c)) \<le> unat (fc_receiveWindow (fcm_connFlowController exOpened)))"
    "\<not> (17 :: ByteCount) \<le> fc_receiveWindow ?c" by code_simp+
  then show ?thesis
    using UpdateHighestReceived_exact [OF example_opened example_params c, of 16]
      UpdateHighestReceived_exact [OF example_opened example_params c, of 17] by blast
qed

text \<open>
  The first WINDOW_UPDATE may take window back: as long as none was received, the
  negotiated window counts, but any positive offset replaces it, also a smaller one, although
  the frame is reported as an update. All later ones only raise the window.
\<close>

theorem first_update_shrinks:
  assumes "0 < offset"
  shows "\<exists>c'. UpdateSendWindow offset (newFlowController sid contributes env) = (True, c')
      \<and> SendWindowOffset env c' = offset
      \<and> (\<forall>o2. SendWindowOffset env c' \<le> SendWindowOffset env (snd (UpdateSendWindow o2 c')))"
  using assms
  by (auto simp: UpdateSendWindow_def newFlowController_def SendWindowOffset_def getSendWindow_def Let_def)

theorem first_update_shrinks_witness:
  "\<exists>c'. UpdateSendWindow 4 (newFlowController 5 True exEnv) = (True, c') \<and> SendWindowOffset exEnv c' = 4"
  using first_update_shrinks [of 4 5 True exEnv] by auto

end
