(* ===== verification/FrameSorter.thy ===== *)
theory FrameSorter
  imports WireStream
begin

text \<open>
  Reassembly of stream data (\<open>stream_frame_sorter.go\<close>): frames are queued by offset, and a
  list of gaps says which bytes are missing. The linked list of gaps is a list; the two
  pointers into it that \<open>Push\<close> uses are positions, represented by splitting the list.
  \<open>Push\<close> returns the state also with an error. The copying of cut data has no effect here.
\<close>

section \<open>State\<close>

record ByteInterval =
  bi_Start :: ByteCount
  bi_End :: ByteCount

record streamFrameSorter =
  sfs_queuedFrames :: "ByteCount \<Rightarrow> StreamFrame option"
  sfs_readPosition :: ByteCount
  sfs_gaps :: "ByteInterval list"

definition errTooManyGapsInReceivedStreamData :: go_error where
  "errTooManyGapsInReceivedStreamData = GoErr ''Too many gaps in received StreamFrame data''"

definition errDuplicateStreamData :: go_error where
  "errDuplicateStreamData = GoErr ''Duplicate Stream Data''"

definition errEmptyStreamData :: go_error where
  "errEmptyStreamData = GoErr ''Stream Data empty''"

definition newStreamFrameSorter :: streamFrameSorter where
  "newStreamFrameSorter =
     \<lparr> sfs_queuedFrames = (\<lambda>_. None), sfs_readPosition = 0,
       sfs_gaps = [\<lparr> bi_Start = 0, bi_End = MaxByteCount_const \<rparr>] \<rparr>"

section \<open>Push\<close>

text \<open>The first gap that the frame reaches, with the gaps before and after it.\<close>

fun findGap :: "ByteCount \<Rightarrow> ByteCount \<Rightarrow> ByteInterval list \<Rightarrow> ByteInterval list
    \<Rightarrow> go_error + (ByteInterval list \<times> ByteInterval \<times> ByteInterval list)" where
  "findGap start stop before [] = Inl (GoErr ''StreamFrameSorter BUG: no gap found'')"
| "findGap start stop before (gap # after) =
     (if stop \<le> bi_Start gap then Inl errDuplicateStreamData
      else if stop > bi_Start gap \<and> start \<le> bi_End gap then Inr (before, gap, after)
      else findGap start stop (before @ [gap]) after)"

text \<open>
  The gap in which the frame ends. \<open>EndGap same linked g rest\<close>: it is the first gap itself
  (\<open>same\<close>), it is still in the list (\<open>linked\<close>), its value, and the gaps after it; gaps that
  are passed are removed, and so are the queued frames behind them. \<open>NoEndGap\<close> holds what is
  left of the list behind the first gap.
\<close>

datatype endSearch =
    NoEndGap "ByteInterval list"
  | EndGap bool bool ByteInterval "ByteInterval list"

fun findEndGap :: "ByteCount \<Rightarrow> bool \<Rightarrow> ByteInterval \<Rightarrow> ByteInterval list
    \<Rightarrow> (ByteCount \<Rightarrow> StreamFrame option) \<Rightarrow> endSearch \<times> (ByteCount \<Rightarrow> StreamFrame option)" where
  "findEndGap stop same endGap rest queued =
     (if stop \<ge> bi_End endGap
      then case rest of
             [] \<Rightarrow> (NoEndGap (if same then [] else [endGap]), queued)
           | nextEndGap # rest' \<Rightarrow>
               if stop \<le> bi_Start nextEndGap then (EndGap same same endGap rest, queued)
               else findEndGap stop False nextEndGap rest' (queued(bi_End endGap := None))
      else (EndGap same True endGap rest, queued))"

declare findEndGap.simps [simp del]

text \<open>
  The gaps from the first one up to the one in which the frame ends, after the frame was
  filled in.
\<close>

definition fillGaps :: "ByteCount \<Rightarrow> ByteCount \<Rightarrow> ByteInterval \<Rightarrow> bool \<Rightarrow> bool \<Rightarrow> ByteInterval \<Rightarrow> ByteInterval list" where
  "fillGaps start stop gap same linked endGap =
     (let tail = (\<lambda>g. if \<not> same \<and> linked then [g] else [])
      in if start = bi_Start gap
         then let endGap' = (if stop < bi_End endGap then endGap\<lparr> bi_Start := stop \<rparr> else endGap);
                  gap' = (if same then endGap' else gap)
              in (if stop \<ge> bi_End gap then [] else [gap']) @ tail endGap'
         else if stop = bi_End endGap
         then gap\<lparr> bi_End := start \<rparr> # tail endGap
         else if same
         then [gap\<lparr> bi_End := start \<rparr>, \<lparr> bi_Start = stop, bi_End = bi_End gap \<rparr>]
         else gap\<lparr> bi_End := start \<rparr> # tail (endGap\<lparr> bi_Start := stop \<rparr>))"

text \<open>Cutting data from the front and from the back of a frame.\<close>

definition cutFront :: "ByteCount \<Rightarrow> StreamFrame \<Rightarrow> StreamFrame" where
  "cutFront n frame =
     frame\<lparr> sf_Data := drop (unat n) (sf_Data frame), sf_Offset := sf_Offset frame + n \<rparr>"

definition cutBack :: "ByteCount \<Rightarrow> StreamFrame \<Rightarrow> StreamFrame" where
  "cutBack cutLen frame =
     frame\<lparr> sf_Data := take (unat (StreamFrame_DataLen frame - cutLen)) (sf_Data frame) \<rparr>"

text \<open>The part of \<open>Push\<close> that fills the gaps, for a frame with data.\<close>

definition insertFrame :: "StreamFrame \<Rightarrow> streamFrameSorter \<Rightarrow> streamFrameSorter \<times> go_error option" where
  "insertFrame frame s =
     (let start = sf_Offset frame;
          stop = sf_Offset frame + StreamFrame_DataLen frame
      in case findGap start stop [] (sfs_gaps s) of
           Inl e \<Rightarrow> (s, Some e)
         | Inr (before, gap, after) \<Rightarrow>
      let frame = (if start < bi_Start gap then cutFront (bi_Start gap - start) frame else frame);
          start = sf_Offset frame
      in case findEndGap stop True gap after (sfs_queuedFrames s) of
           (NoEndGap rest, queued) \<Rightarrow>
             (s\<lparr> sfs_gaps := before @ [gap] @ rest, sfs_queuedFrames := queued \<rparr>,
              Some (GoErr ''StreamFrameSorter BUG: no end gap found''))
         | (EndGap same linked endGap rest, queued) \<Rightarrow>
      let cutLen = (if stop > bi_End endGap then stop - bi_End endGap else 0);
          stop = stop - cutLen;
          frame = (if cutLen \<noteq> 0 then cutBack cutLen frame else frame);
          gaps = before @ fillGaps start stop gap same linked endGap @ rest;
          s = s\<lparr> sfs_gaps := gaps, sfs_queuedFrames := queued \<rparr>
      in if length gaps > MaxStreamFrameSorterGaps
         then (s, Some errTooManyGapsInReceivedStreamData)
         else (s\<lparr> sfs_queuedFrames := queued(sf_Offset frame \<mapsto> frame) \<rparr>, None))"

definition Push :: "StreamFrame \<Rightarrow> streamFrameSorter \<Rightarrow> streamFrameSorter \<times> go_error option" where
  "Push frame s =
     (if StreamFrame_DataLen frame = 0
      then if sf_FinBit frame
           then (s\<lparr> sfs_queuedFrames := (sfs_queuedFrames s)(sf_Offset frame \<mapsto> frame) \<rparr>, None)
           else (s, Some errEmptyStreamData)
      else case sfs_queuedFrames s (sf_Offset frame) of
             None \<Rightarrow> insertFrame frame s
           | Some oldFrame \<Rightarrow>
               if StreamFrame_DataLen frame \<le> StreamFrame_DataLen oldFrame
               then (s, Some errDuplicateStreamData)
               else insertFrame (cutFront (StreamFrame_DataLen oldFrame) frame) s)"

section \<open>Pop\<close>

definition Head :: "streamFrameSorter \<Rightarrow> StreamFrame option" where
  "Head s = sfs_queuedFrames s (sfs_readPosition s)"

definition Pop :: "streamFrameSorter \<Rightarrow> StreamFrame option \<times> streamFrameSorter" where
  "Pop s =
     (case Head s of
        None \<Rightarrow> (None, s)
      | Some frame \<Rightarrow>
          (Some frame, s\<lparr> sfs_readPosition := sfs_readPosition s + StreamFrame_DataLen frame,
                         sfs_queuedFrames := (sfs_queuedFrames s)(sf_Offset frame := None) \<rparr>))"

section \<open>What the gaps say\<close>

abbreviation gs :: "ByteInterval \<Rightarrow> nat" where
  "gs g \<equiv> unat (bi_Start g)"

abbreviation ge :: "ByteInterval \<Rightarrow> nat" where
  "ge g \<equiv> unat (bi_End g)"

definition maxOffset :: nat where
  "maxOffset = 2 ^ 64 - 1"

definition missing :: "ByteInterval list \<Rightarrow> nat set" where
  "missing gaps = (\<Union>g \<in> set gaps. {gs g ..< ge g})"

definition gapsInv :: "ByteInterval list \<Rightarrow> bool" where
  "gapsInv gaps \<longleftrightarrow>
     gaps \<noteq> [] \<and> ge (last gaps) = maxOffset \<and> (\<forall>g \<in> set gaps. gs g < ge g)
     \<and> sorted_wrt (\<lambda>g h. ge g < gs h) gaps"

lemma missing_append [simp]: "missing (xs @ ys) = missing xs \<union> missing ys"
  by (simp add: missing_def)

lemma missing_simps [simp]: "missing [] = {}" "missing (g # xs) = {gs g ..< ge g} \<union> missing xs"
  by (simp_all add: missing_def)

lemma missing_bounds:
  assumes "n \<in> missing xs"
  obtains g where "g \<in> set xs" "gs g \<le> n" "n < ge g"
  using assms by (auto simp: missing_def)

text \<open>The search for the first gap.\<close>

lemma findGap_Inr:
  assumes "findGap start stop before gaps = Inr (b, gap, after)"
  shows "\<exists>pre. b = before @ pre \<and> gaps = pre @ gap # after
    \<and> (\<forall>g \<in> set pre. bi_End g < start) \<and> bi_Start gap < stop \<and> start \<le> bi_End gap"
  using assms
proof (induction start stop before gaps rule: findGap.induct)
  case (2 start stop before gap' after')
  show ?case
  proof (cases "bi_Start gap' < stop \<and> start \<le> bi_End gap'")
    case False
    then have "findGap start stop (before @ [gap']) after' = Inr (b, gap, after)" "bi_End gap' < start"
      using 2 by (auto split: if_splits)
    then show ?thesis using 2 False by (fastforce split: if_splits)
  qed (use 2 in \<open>auto split: if_splits\<close>)
qed simp

lemma findGap_Inl:
  assumes "findGap start stop before gaps = Inl e" "sorted_wrt (\<lambda>g h. ge g < gs h) gaps"
    and "\<forall>g \<in> set gaps. gs g < ge g" "gaps \<noteq> []" "start \<le> bi_End (last gaps)"
  shows "e = errDuplicateStreamData \<and> {unat start ..< unat stop} \<inter> missing gaps = {}"
  using assms
proof (induction start stop before gaps rule: findGap.induct)
  case (2 start stop before gap after)
  show ?case
  proof (cases "stop \<le> bi_Start gap")
    case True
    then have "unat stop \<le> gs h" if "h \<in> set (gap # after)" for h
      using that 2(3,4) by (fastforce simp: word_le_nat_alt)
    then have "{unat start ..< unat stop} \<inter> missing (gap # after) = {}"
      by (fastforce simp: missing_def)
    then show ?thesis using 2(2) True by simp
  next
    case False
    then have n: "\<not> (bi_Start gap < stop \<and> start \<le> bi_End gap)" using 2(2) by auto
    then have "bi_End gap < start" using False by (simp add: linorder_not_le)
    moreover have "after \<noteq> []" using 2(6) calculation by (auto simp: linorder_not_less [symmetric])
    ultimately show ?thesis using 2 False n by (auto simp: word_less_nat_alt disjoint_iff)
  qed
qed simp

text \<open>The search for the last gap.\<close>

lemma findEndGap_EndGap:
  assumes "findEndGap stop same g rest q = (EndGap same' linked g' rest', q')"
  shows "\<exists>mid. g # rest = mid @ g' # rest' \<and> (same' \<longleftrightarrow> same \<and> mid = [])
    \<and> (linked \<longleftrightarrow> stop < bi_End g' \<or> same')
    \<and> (\<forall>m \<in> set mid. bi_End m \<le> stop) \<and> (mid \<noteq> [] \<longrightarrow> bi_Start g' < stop)
    \<and> (stop < bi_End g' \<or> (rest' \<noteq> [] \<and> stop \<le> bi_Start (hd rest')))
    \<and> q' = (\<lambda>k. if k \<in> bi_End ` set mid then None else q k)"
  using assms
proof (induction stop same g rest q rule: findEndGap.induct)
  case (1 stop same g rest q)
  consider (inside) "stop < bi_End g"
    | (before) n ns where "bi_End g \<le> stop" "rest = n # ns" "stop \<le> bi_Start n"
    | (past) n ns where "bi_End g \<le> stop" "rest = n # ns" "bi_Start n < stop"
    | (none) "bi_End g \<le> stop" "rest = []"
    by (metis linorder_not_less list.exhaust)
  then show ?case
  proof cases
    case inside
    then have "\<not> bi_End g \<le> stop" by (simp add: linorder_not_le)
    then have "findEndGap stop same g rest q = (EndGap same True g rest, q)"
      by (subst findEndGap.simps) simp
    then show ?thesis using 1(2) inside by simp
  next
    case before
    then have "findEndGap stop same g rest q = (EndGap same same g rest, q)"
      by (subst findEndGap.simps) simp
    then show ?thesis using 1(2) before by (auto simp: linorder_not_less)
  next
    case past
    then have "\<not> stop \<le> bi_Start n" by (simp add: linorder_not_le)
    with past(1,2) have "findEndGap stop same g rest q = findEndGap stop False n ns (q(bi_End g := None))"
      by (subst findEndGap.simps) simp
    then have "findEndGap stop False n ns (q(bi_End g := None)) = (EndGap same' linked g' rest', q')"
      using 1(2) by simp
    from 1(1) [OF past(1,2) \<open>\<not> stop \<le> bi_Start n\<close> this] past(3) obtain mid where
      m: "n # ns = mid @ g' # rest'" "\<not> same'" "linked \<longleftrightarrow> stop < bi_End g'"
        "\<forall>m \<in> set mid. bi_End m \<le> stop" "mid \<noteq> [] \<longrightarrow> bi_Start g' < stop"
        "stop < bi_End g' \<or> (rest' \<noteq> [] \<and> stop \<le> bi_Start (hd rest'))"
        "q' = (\<lambda>k. if k \<in> bi_End ` set mid then None else (q(bi_End g := None)) k)"
      by auto
    have "bi_Start g' < stop" using m(1,5) past(3) by (cases mid) auto
    then show ?thesis using m past(1,2) by (intro exI [of _ "g # mid"]) auto
  next
    case none
    then have "findEndGap stop same g rest q = (NoEndGap (if same then [] else [g]), q)"
      by (subst findEndGap.simps) simp
    then show ?thesis using 1(2) by simp
  qed
qed

lemma findEndGap_NoEndGap:
  assumes "findEndGap stop same g rest q = (NoEndGap xs, q')"
  shows "bi_End (last (g # rest)) \<le> stop"
  using assms
proof (induction stop same g rest q rule: findEndGap.induct)
  case (1 stop same g rest q)
  show ?case
  proof (cases rest)
    case Nil
    then show ?thesis using 1(2) by (subst (asm) findEndGap.simps) (auto split: if_splits)
  next
    case (Cons n ns)
    then have "bi_End g \<le> stop" "\<not> stop \<le> bi_Start n"
      "findEndGap stop False n ns (q(bi_End g := None)) = (NoEndGap xs, q')"
      using 1(2) by (subst (asm) (1) findEndGap.simps; auto split: if_splits)+
    from 1(1) [OF this(1) Cons this(2,3)] show ?thesis using Cons by simp
  qed
qed

text \<open>What is left of the gaps: a part before the frame and a part behind it.\<close>

lemma fillGaps_eq:
  assumes "bi_Start gap \<le> start" "stop \<le> bi_End endGap" "same \<Longrightarrow> endGap = gap"
    and "\<not> same \<Longrightarrow> bi_End gap \<le> stop" "linked \<longleftrightarrow> stop < bi_End endGap \<or> same"
  shows "fillGaps start stop gap same linked endGap =
    (if bi_Start gap < start then [gap\<lparr> bi_End := start \<rparr>] else [])
    @ (if stop < bi_End endGap then [endGap\<lparr> bi_Start := stop \<rparr>] else [])"
proof -
  have lt: "stop < bi_End endGap \<or> stop = bi_End endGap" "bi_Start gap < start \<or> start = bi_Start gap"
    using assms(1,2) by auto
  show ?thesis
  proof (cases same)
    case True
    then have e: "endGap = gap" using assms(3) by simp
    have "bi_End gap \<le> stop \<longleftrightarrow> stop = bi_End gap" using assms(2) unfolding e by auto
    then show ?thesis using True lt unfolding e fillGaps_def Let_def by (auto split: if_splits)
  next
    case False
    then show ?thesis using assms(4) lt unfolding fillGaps_def Let_def assms(5) by auto
  qed
qed

lemma gapsInv_fill:
  fixes before mid rest endGap gap start stop
  defines "left \<equiv> if bi_Start gap < start then [gap\<lparr> bi_End := start \<rparr>] else []"
    and "right \<equiv> if stop < bi_End endGap then [endGap\<lparr> bi_Start := stop \<rparr>] else []"
  assumes inv: "gapsInv (before @ mid @ endGap # rest)" and gap: "gap = hd (mid @ [endGap])"
    and b: "bi_Start gap \<le> start" "start < bi_End gap" "start < stop"
    and e: "bi_Start endGap < stop" "stop \<le> bi_End endGap" "stop < bi_End endGap \<or> rest \<noteq> []"
  shows "gapsInv (before @ left @ right @ rest)"
    and "missing (before @ left @ right @ rest)
      = missing (before @ mid @ endGap # rest) - {unat start ..< unat stop}"
proof -
  let ?R = "\<lambda>g h. ge g < gs h"
  have sw: "sorted_wrt ?R before" "sorted_wrt ?R mid" "sorted_wrt ?R rest"
    "\<forall>x \<in> set before. \<forall>y \<in> set mid \<union> {endGap} \<union> set rest. ge x < gs y"
    "\<forall>x \<in> set mid. \<forall>y \<in> {endGap} \<union> set rest. ge x < gs y" "\<forall>y \<in> set rest. ge endGap < gs y"
    and ne: "\<forall>g \<in> set before \<union> set mid \<union> {endGap} \<union> set rest. gs g < ge g"
    using inv by (auto simp: gapsInv_def sorted_wrt_append)
  have gm: "gap \<in> set mid \<union> {endGap}" using gap by (cases mid) auto
  have n: "gs gap \<le> unat start" "unat start < ge gap" "unat start < unat stop" "gs endGap < unat stop"
    "unat stop \<le> ge endGap" "bi_Start gap < start \<longleftrightarrow> gs gap < unat start" "stop < bi_End endGap \<longleftrightarrow> unat stop < ge endGap"
    using b e by (simp_all add: word_le_nat_alt word_less_nat_alt)
  have ls: "x \<in> set left \<Longrightarrow> bi_Start x = bi_Start gap \<and> bi_End x = start \<and> gs gap < unat start"
    and rs: "x \<in> set right \<Longrightarrow> bi_Start x = stop \<and> bi_End x = bi_End endGap \<and> unat stop < ge endGap" for x
    using n(6,7) by (auto simp: left_def right_def split: if_splits)
  have gy: "\<forall>x \<in> set before. ge x < gs gap" "\<forall>y \<in> set rest. ge gap < gs y" using sw(4-6) gm by auto
  have lr: "sorted_wrt ?R left" "sorted_wrt ?R right" by (simp_all add: left_def right_def)
  have c: "\<forall>x \<in> set before. \<forall>y \<in> set left. ge x < gs y" "\<forall>x \<in> set before. \<forall>y \<in> set right. ge x < gs y"
    "\<forall>x \<in> set left. \<forall>y \<in> set right. ge x < gs y" "\<forall>x \<in> set left. \<forall>y \<in> set rest. ge x < gs y"
    "\<forall>x \<in> set right. \<forall>y \<in> set rest. ge x < gs y"
    using ls rs gy n sw(6) by fastforce+
  have "sorted_wrt ?R (before @ left @ right @ rest)"
    using sw(1,3,4) lr c unfolding sorted_wrt_append by auto
  moreover have "ge (last (before @ left @ right @ rest)) = maxOffset" "before @ left @ right @ rest \<noteq> []"
    using inv e(3) by (auto simp: gapsInv_def right_def split: if_splits)
  moreover have "\<forall>g \<in> set (before @ left @ right @ rest). gs g < ge g"
    using ne ls rs by auto
  ultimately show "gapsInv (before @ left @ right @ rest)" by (simp add: gapsInv_def)
  have "missing before \<inter> {unat start ..< unat stop} = {}" "missing rest \<inter> {unat start ..< unat stop} = {}"
    using gy(1) sw(6) n by (fastforce simp: missing_def)+
  moreover have "missing (left @ right) = missing (mid @ [endGap]) - {unat start ..< unat stop}"
  proof (cases mid)
    case Nil
    then have "endGap = gap" using gap by simp
    then show ?thesis using Nil n by (auto simp: left_def right_def)
  next
    case (Cons m ms)
    then have m: "m = gap" using gap by simp
    have "missing ms \<subseteq> {unat start ..< unat stop}"
      using sw(2,5) n(2,4) unfolding Cons m missing_def by fastforce
    moreover have "ge gap < gs endGap" using sw(5) Cons m by simp
    ultimately show ?thesis unfolding Cons m using n by (auto simp: left_def right_def)
  qed
  ultimately show "missing (before @ left @ right @ rest)
      = missing (before @ mid @ endGap # rest) - {unat start ..< unat stop}"
    by auto
qed

section \<open>Chains of queued frames\<close>

text \<open>Queued frames that lead from one position to another without a gap.\<close>

inductive chain :: "(ByteCount \<Rightarrow> StreamFrame option) \<Rightarrow> nat \<Rightarrow> nat \<Rightarrow> bool" for q where
  here: "chain q p p"
| step: "q (of_nat p) = Some f \<Longrightarrow> sf_Data f \<noteq> [] \<Longrightarrow> chain q (p + length (sf_Data f)) t \<Longrightarrow> chain q p t"

inductive_cases chain_stepE: "chain q p t"

lemma chain_le: "chain q p t \<Longrightarrow> p \<le> t"
  by (induction rule: chain.induct) auto

lemma chain_trans: "chain q p t \<Longrightarrow> chain q t u \<Longrightarrow> chain q p u"
proof (induction rule: chain.induct)
  case (step p f t)
  then show ?case by (blast intro: chain.step)
qed

lemma chain_cong:
  "chain q p t \<Longrightarrow> (\<And>k. p \<le> k \<Longrightarrow> k < t \<Longrightarrow> q' (of_nat k) = q (of_nat k)) \<Longrightarrow> chain q' p t"
proof (induction rule: chain.induct)
  case (step p f t)
  have "p < t" using chain_le [OF step.hyps(3)] step.hyps(2) by (cases "sf_Data f") auto
  then have "q' (of_nat p) = Some f" using step by simp
  moreover have "chain q' (p + length (sf_Data f)) t" using step by simp
  ultimately show ?case using step.hyps(2) by (blast intro: chain.step)
qed (rule chain.here)

text \<open>A key that no step uses.\<close>

lemma chain_unused:
  "chain q p t \<Longrightarrow> (\<And>f. q k = Some f \<Longrightarrow> sf_Data f = []) \<Longrightarrow> chain (q(k := x)) p t"
proof (induction rule: chain.induct)
  case (step p f t)
  then have "of_nat p \<noteq> k" by auto
  then have "(q(k := x)) (of_nat p) = Some f" using step.hyps(1) by simp
  then show ?case using step by (blast intro: chain.step)
qed (rule chain.here)

text \<open>All data between the gaps, from the read position on, can be reached.\<close>

fun chained :: "(ByteCount \<Rightarrow> StreamFrame option) \<Rightarrow> nat \<Rightarrow> ByteInterval list \<Rightarrow> bool" where
  "chained q lo [] = True"
| "chained q lo (g # gaps) = (chain q lo (gs g) \<and> chained q (ge g) gaps)"

definition lastEnd :: "nat \<Rightarrow> ByteInterval list \<Rightarrow> nat" where
  "lastEnd lo xs = (if xs = [] then lo else ge (last xs))"

lemma chained_append: "chained q lo (xs @ ys) \<longleftrightarrow> chained q lo xs \<and> chained q (lastEnd lo xs) ys"
  by (induction xs arbitrary: lo) (auto simp: lastEnd_def)

lemma chained_cong:
  assumes "chained q lo xs" "\<And>k. a \<le> k \<Longrightarrow> k < b \<Longrightarrow> q' (of_nat k) = q (of_nat k)"
    and "\<forall>g \<in> set xs. gs g \<le> b \<and> a \<le> ge g" "a \<le> lo"
  shows "chained q' lo xs"
  using assms(1,3,4) by (induction xs arbitrary: lo) (auto intro!: chain_cong [of q _ _ q'] assms(2))

lemma chained_unused:
  "chained q lo xs \<Longrightarrow> (\<And>f. q k = Some f \<Longrightarrow> sf_Data f = []) \<Longrightarrow> chained (q(k := x)) lo xs"
  by (induction xs arbitrary: lo) (auto intro: chain_unused)

lemma chained_extend: "chain q p lo \<Longrightarrow> chained q lo xs \<Longrightarrow> chained q p xs"
  by (cases xs) (auto intro: chain_trans)

lemma chained_fill:
  fixes before mid rest endGap gap start stop
  defines "left \<equiv> if bi_Start gap < start then [gap\<lparr> bi_End := start \<rparr>] else []"
    and "right \<equiv> if stop < bi_End endGap then [endGap\<lparr> bi_Start := stop \<rparr>] else []"
  assumes inv: "gapsInv (before @ mid @ endGap # rest)" and gap: "gap = hd (mid @ [endGap])"
    and b: "bi_Start gap \<le> start" "start < bi_End gap" "start < stop"
    and e: "bi_Start endGap < stop" "stop \<le> bi_End endGap" "stop < bi_End endGap \<or> rest \<noteq> []"
    and ch: "chained q lo (before @ mid @ endGap # rest)"
    and q': "q' start = Some frame" "length (sf_Data frame) = unat stop - unat start"
      "\<And>k. k \<noteq> start \<Longrightarrow> k \<notin> bi_End ` set mid \<Longrightarrow> q' k = q k"
  shows "chained q' lo (before @ left @ right @ rest)"
proof -
  let ?a = "lastEnd lo before"
  have sw: "\<forall>x \<in> set before. \<forall>y \<in> set mid \<union> {endGap} \<union> set rest. ge x < gs y"
    "\<forall>x \<in> set mid. \<forall>y \<in> {endGap} \<union> set rest. ge x < gs y" "\<forall>y \<in> set rest. ge endGap < gs y"
    "sorted_wrt (\<lambda>g h. ge g < gs h) mid"
    and ne: "\<forall>g \<in> set before \<union> set mid \<union> {endGap} \<union> set rest. gs g < ge g"
    using inv by (auto simp: gapsInv_def sorted_wrt_append)
  have n: "gs gap \<le> unat start" "unat start < ge gap" "unat start < unat stop" "gs endGap < unat stop"
    "unat stop \<le> ge endGap" using b e by (simp_all add: word_le_nat_alt word_less_nat_alt)
  have gm: "gap \<in> set mid \<union> {endGap}" using gap by (cases mid) auto
  have mid: "ge gap \<le> ge m \<and> ge m < ge endGap" if "m \<in> set mid" for m
  proof -
    have "ge m < gs endGap" "gs endGap < ge endGap" "gs m < ge m" using that sw(2) ne by simp_all
    moreover have "m = gap \<or> ge gap < gs m" using that gap sw(4) by (cases mid) auto
    ultimately show ?thesis by auto
  qed
  have st: "unat start < ge endGap" using n by linarith
  have key: "q' (of_nat k) = q (of_nat k)" if "k < gs gap \<or> ge endGap \<le> k" "k < 2 ^ 64" for k
  proof (rule q'(3))
    have u: "unat (of_nat k :: ByteCount) = k" using that(2) by (simp add: unat_of_nat)
    show "of_nat k \<noteq> start" using that(1) n(1) st u by auto
    show "of_nat k \<notin> bi_End ` set mid"
    proof
      assume "of_nat k \<in> bi_End ` set mid"
      then obtain m where "m \<in> set mid" "of_nat k = bi_End m" by auto
      then have "m \<in> set mid" "k = ge m" using u by auto
      then show False using that(1) mid [of m] n(1,2) by auto
    qed
  qed
  have parts: "chained q lo before" "chain q ?a (gs gap)" "chained q (ge endGap) rest"
    using ch gap by (cases mid; auto simp: chained_append lastEnd_def)+
  have ub: "gs g < 2 ^ 64" for g using unsigned_less [where ?'a = nat, of "bi_Start g"] by simp
  have "chained q' lo before"
  proof (rule chained_cong [OF parts(1), of 0 "gs gap"])
    show "q' (of_nat k) = q (of_nat k)" if "k < gs gap" for k using key that ub [of gap] by simp
    have "gs g < gs gap" if "g \<in> set before" for g
      using that sw(1) gm ne by (meson UnI1 UnI2 less_trans)
    then show "\<forall>g \<in> set before. gs g \<le> gs gap \<and> 0 \<le> ge g" by (simp add: less_imp_le)
  qed simp
  moreover have a: "chain q' ?a (gs gap)"
    by (rule chain_cong [OF parts(2)]) (use key ub [of gap] in simp)
  moreover have r: "chained q' (ge endGap) rest"
  proof (rule chained_cong [OF parts(3), of "ge endGap" "2 ^ 64"])
    show "q' (of_nat k) = q (of_nat k)" if "ge endGap \<le> k" "k < 2 ^ 64" for k using key that by simp
    have "ge endGap < gs g \<and> gs g < ge g" if "g \<in> set rest" for g using that sw(3) ne by simp
    then show "\<forall>g \<in> set rest. gs g \<le> 2 ^ 64 \<and> ge endGap \<le> ge g"
      using ub by (auto intro: less_imp_le less_trans)
  qed simp
  moreover have f: "chain q' (unat start) (unat stop)"
  proof -
    have "chain q' (unat start + length (sf_Data frame)) (unat stop)"
      using q'(2) n(3) by (simp add: chain.here)
    moreover have "sf_Data frame \<noteq> []" "q' (of_nat (unat start)) = Some frame" using q'(1,2) n(3) by auto
    ultimately show ?thesis using chain.step by blast
  qed
  moreover have S: "chained q' (unat start) (right @ rest)"
  proof (cases "stop < bi_End endGap")
    case True
    then show ?thesis using r f by (simp add: right_def)
  next
    case False
    then have "bi_End endGap = stop" using e(2) by auto
    then show ?thesis using False chained_extend [OF f] r by (simp add: right_def)
  qed
  ultimately have L: "chained q' lo before" by blast
  show ?thesis
  proof (cases "bi_Start gap < start")
    case True
    then show ?thesis using L a S by (simp add: left_def chained_append [of _ lo before])
  next
    case False
    then have "bi_Start gap = start" using b(1) by auto
    then have "chained q' ?a (right @ rest)" using chained_extend [OF a] S by simp
    then show ?thesis using False L by (simp add: left_def chained_append [of _ lo before])
  qed
qed

section \<open>The invariant of the sorter\<close>

text \<open>
  Frames of a stream with content \<open>D\<close> and length \<open>F\<close>: their data agrees with the content, and a
  frame without data marks the end of the stream.
\<close>

definition frameRange :: "StreamFrame \<Rightarrow> nat set" where
  "frameRange f = {unat (sf_Offset f) ..< unat (sf_Offset f) + length (sf_Data f)}"

definition frameOfStream :: "(nat \<Rightarrow> byte) \<Rightarrow> nat \<Rightarrow> StreamFrame \<Rightarrow> bool" where
  "frameOfStream D F f \<longleftrightarrow>
     unat (sf_Offset f) + length (sf_Data f) \<le> F
     \<and> (\<forall>i < length (sf_Data f). sf_Data f ! i = D (unat (sf_Offset f) + i))
     \<and> (sf_Data f = [] \<longrightarrow> sf_FinBit f \<and> unat (sf_Offset f) = F)"

text \<open>\<open>R\<close> is the set of all bytes received so far.\<close>

definition sorterInv :: "(nat \<Rightarrow> byte) \<Rightarrow> nat \<Rightarrow> nat set \<Rightarrow> streamFrameSorter \<Rightarrow> bool" where
  "sorterInv D F R s \<longleftrightarrow>
     F < 2 ^ 63 \<and> R \<subseteq> {..<F} \<and> gapsInv (sfs_gaps s) \<and> missing (sfs_gaps s) = {..<maxOffset} - R
     \<and> chained (sfs_queuedFrames s) (unat (sfs_readPosition s)) (sfs_gaps s)
     \<and> (\<forall>k f. sfs_queuedFrames s k = Some f \<longrightarrow> sf_Offset f = k \<and> frameOfStream D F f \<and> frameRange f \<subseteq> R)"

lemma frame_bounds:
  assumes "frameOfStream D F f" "F < 2 ^ 63"
  shows "unat (StreamFrame_DataLen f) = length (sf_Data f)"
    "unat (sf_Offset f + StreamFrame_DataLen f) = unat (sf_Offset f) + length (sf_Data f)"
    "StreamFrame_DataLen f = 0 \<longleftrightarrow> sf_Data f = []"
proof -
  show l: "unat (StreamFrame_DataLen f) = length (sf_Data f)"
    using assms by (simp add: StreamFrame_DataLen_def frameOfStream_def unat_of_nat)
  show "unat (sf_Offset f + StreamFrame_DataLen f) = unat (sf_Offset f) + length (sf_Data f)"
    using assms l by (simp add: unat_word_ariths frameOfStream_def)
  show "StreamFrame_DataLen f = 0 \<longleftrightarrow> sf_Data f = []" using l by (metis length_0_conv unat_eq_zero)
qed

lemma cutFront_frame:
  assumes "frameOfStream D F f" "F < 2 ^ 63" "unat n < length (sf_Data f)"
  shows "frameOfStream D F (cutFront n f)" "sf_Data (cutFront n f) \<noteq> []"
    "unat (sf_Offset (cutFront n f)) = unat (sf_Offset f) + unat n"
    "length (sf_Data (cutFront n f)) = length (sf_Data f) - unat n"
proof -
  have o: "unat (sf_Offset f + n) = unat (sf_Offset f) + unat n"
    using assms by (simp add: unat_word_ariths frameOfStream_def)
  then show "unat (sf_Offset (cutFront n f)) = unat (sf_Offset f) + unat n"
    "length (sf_Data (cutFront n f)) = length (sf_Data f) - unat n" "sf_Data (cutFront n f) \<noteq> []"
    using assms(3) by (simp_all add: cutFront_def)
  show "frameOfStream D F (cutFront n f)"
    using assms o by (simp add: frameOfStream_def cutFront_def add.assoc)
qed

lemma cutBack_frame:
  assumes "frameOfStream D F f" "F < 2 ^ 63" "unat n < length (sf_Data f)"
  shows "frameOfStream D F (cutBack n f)" "sf_Data (cutBack n f) \<noteq> []"
    "sf_Offset (cutBack n f) = sf_Offset f"
    "length (sf_Data (cutBack n f)) = length (sf_Data f) - unat n"
proof -
  have l: "unat (StreamFrame_DataLen f - n) = length (sf_Data f) - unat n"
    using frame_bounds(1) [OF assms(1,2)] assms(3) by (simp add: unat_sub word_le_nat_alt)
  then show "length (sf_Data (cutBack n f)) = length (sf_Data f) - unat n" "sf_Data (cutBack n f) \<noteq> []"
    "sf_Offset (cutBack n f) = sf_Offset f"
    using assms(3) by (auto simp: cutBack_def)
  show "frameOfStream D F (cutBack n f)"
    using assms l by (auto simp: frameOfStream_def cutBack_def)
qed

lemma cutToGap:
  fixes gap :: ByteInterval and frame :: StreamFrame
  defines "fr \<equiv> if sf_Offset frame < bi_Start gap then cutFront (bi_Start gap - sf_Offset frame) frame else frame"
  assumes "frameOfStream D F frame" "F < 2 ^ 63" "sf_Data frame \<noteq> []"
    and "bi_Start gap < sf_Offset frame + StreamFrame_DataLen frame"
  shows "frameOfStream D F fr" "sf_Data fr \<noteq> []" "sf_Offset fr = max (sf_Offset frame) (bi_Start gap)"
    "unat (sf_Offset fr) + length (sf_Data fr) = unat (sf_Offset frame + StreamFrame_DataLen frame)"
proof -
  note fb = frame_bounds [OF assms(2,3)]
  have "frameOfStream D F fr \<and> sf_Data fr \<noteq> [] \<and> sf_Offset fr = max (sf_Offset frame) (bi_Start gap)
    \<and> unat (sf_Offset fr) + length (sf_Data fr) = unat (sf_Offset frame + StreamFrame_DataLen frame)"
  proof (cases "sf_Offset frame < bi_Start gap")
    case True
    let ?n = "bi_Start gap - sf_Offset frame"
    have n: "unat ?n = gs gap - unat (sf_Offset frame)"
      using True by (simp add: unat_sub word_less_nat_alt word_le_nat_alt)
    then have l: "unat ?n < length (sf_Data frame)" using assms(5) True fb by (simp add: word_less_nat_alt)
    note c = cutFront_frame [OF assms(2,3) this]
    have "fr = cutFront ?n frame" "sf_Offset fr = bi_Start gap" "max (sf_Offset frame) (bi_Start gap) = bi_Start gap"
      using True by (simp_all add: fr_def cutFront_def max_absorb2)
    then show ?thesis using c n l fb by simp
  next
    case False
    then show ?thesis using assms(2,4) fb by (auto simp: fr_def max_def)
  qed
  then show "frameOfStream D F fr" "sf_Data fr \<noteq> []" "sf_Offset fr = max (sf_Offset frame) (bi_Start gap)"
    "unat (sf_Offset fr) + length (sf_Data fr) = unat (sf_Offset frame + StreamFrame_DataLen frame)" by blast+
qed

lemma cutToEnd:
  fixes endGap :: ByteInterval and fr :: StreamFrame and stop :: ByteCount
  defines "fr2 \<equiv> if bi_End endGap < stop then cutBack (stop - bi_End endGap) fr else fr"
  assumes "frameOfStream D F fr" "F < 2 ^ 63" "sf_Data fr \<noteq> []"
    and "unat (sf_Offset fr) + length (sf_Data fr) = unat stop" "sf_Offset fr < bi_End endGap"
  shows "frameOfStream D F fr2" "sf_Offset fr2 = sf_Offset fr"
    "length (sf_Data fr2) = unat (min stop (bi_End endGap)) - unat (sf_Offset fr)"
proof -
  have "frameOfStream D F fr2 \<and> sf_Offset fr2 = sf_Offset fr
    \<and> length (sf_Data fr2) = unat (min stop (bi_End endGap)) - unat (sf_Offset fr)"
  proof (cases "bi_End endGap < stop")
    case True
    let ?n = "stop - bi_End endGap"
    have n: "unat ?n = unat stop - ge endGap"
      using True by (simp add: unat_sub word_less_nat_alt word_le_nat_alt)
    then have "unat ?n < length (sf_Data fr)" using assms(5,6) True by (simp add: word_less_nat_alt)
    note c = cutBack_frame [OF assms(2,3) this]
    show ?thesis using c True n assms(5,6) by (auto simp: fr2_def min_def word_less_nat_alt word_le_nat_alt)
  next
    case False
    then show ?thesis using assms(2,5) by (auto simp: fr2_def min_def linorder_not_less)
  qed
  then show "frameOfStream D F fr2" "sf_Offset fr2 = sf_Offset fr"
    "length (sf_Data fr2) = unat (min stop (bi_End endGap)) - unat (sf_Offset fr)" by blast+
qed

lemma insertFrame_inside:
  assumes "gapsInv gaps" "gaps = before @ mid @ endGap # rest"
  shows "mid \<noteq> [] \<Longrightarrow> ge (hd mid) < gs endGap" "gs endGap < ge endGap"
    "g \<in> set mid \<union> {endGap} \<Longrightarrow> gs (hd (mid @ [endGap])) \<le> gs g \<and> ge g \<le> ge endGap"
    "g \<in> set rest \<Longrightarrow> ge endGap < gs g \<and> gs (hd rest) \<le> gs g"
proof -
  have sw: "\<forall>x \<in> set mid. \<forall>y \<in> {endGap} \<union> set rest. ge x < gs y" "\<forall>y \<in> set rest. ge endGap < gs y"
    "sorted_wrt (\<lambda>g h. ge g < gs h) mid" "sorted_wrt (\<lambda>g h. ge g < gs h) rest"
    and ne: "\<forall>g \<in> set mid \<union> {endGap} \<union> set rest. gs g < ge g"
    using assms by (auto simp: gapsInv_def sorted_wrt_append)
  show "mid \<noteq> [] \<Longrightarrow> ge (hd mid) < gs endGap" "gs endGap < ge endGap" using sw(1) ne by auto
  show "gs (hd (mid @ [endGap])) \<le> gs g \<and> ge g \<le> ge endGap" if "g \<in> set mid \<union> {endGap}"
  proof (cases mid)
    case (Cons m ms)
    then have "gs m < ge m" "ge m < gs endGap" "gs endGap < ge endGap" "g = m \<or> g = endGap \<or> (g \<in> set ms \<and> ge m < gs g \<and> ge g < gs endGap)"
      using that sw(1,3) ne by auto
    then show ?thesis using Cons by auto
  qed (use that in simp)
  show "ge endGap < gs g \<and> gs (hd rest) \<le> gs g" if "g \<in> set rest"
  proof -
    have "g = hd rest \<or> ge (hd rest) < gs g" "gs (hd rest) < ge (hd rest)"
      using that sw(4) ne by (cases rest; auto)+
    then show ?thesis using that sw(2) by auto
  qed
qed

text \<open>What \<open>insertFrame\<close> does once it has found a gap.\<close>

lemma insertFrame_found:
  assumes inv: "sorterInv D F R s" and f: "frameOfStream D F frame" "sf_Data frame \<noteq> []"
    and start: "\<forall>g \<in> set (sfs_gaps s). sf_Offset frame \<noteq> bi_End g"
    and r: "insertFrame frame s = (s', e)"
    and found: "findGap (sf_Offset frame) (sf_Offset frame + StreamFrame_DataLen frame) [] (sfs_gaps s)
      = Inr (before, gap, after)"
  obtains mid endGap rest fr stop where
    "sfs_gaps s = before @ mid @ endGap # rest" "gap = hd (mid @ [endGap])"
    "bi_Start gap \<le> sf_Offset fr" "sf_Offset fr < bi_End gap" "sf_Offset fr < stop"
    "bi_Start endGap < stop" "stop \<le> bi_End endGap" "stop < bi_End endGap \<or> rest \<noteq> []"
    "frameOfStream D F fr" "length (sf_Data fr) = unat stop - unat (sf_Offset fr)"
    "{unat (sf_Offset fr) ..< unat stop} \<subseteq> frameRange frame"
    "frameRange frame \<inter> missing (sfs_gaps s) \<subseteq> {unat (sf_Offset fr) ..< unat stop}"
    "e = Some errTooManyGapsInReceivedStreamData \<or> (e = None \<and> s' = s\<lparr> sfs_gaps := before
       @ (if bi_Start gap < sf_Offset fr then [gap\<lparr> bi_End := sf_Offset fr \<rparr>] else [])
       @ (if stop < bi_End endGap then [endGap\<lparr> bi_Start := stop \<rparr>] else []) @ rest,
       sfs_queuedFrames := (\<lambda>k. if k \<in> bi_End ` set mid then None else sfs_queuedFrames s k)(sf_Offset fr \<mapsto> fr) \<rparr>)"
proof -
  let ?start = "sf_Offset frame" and ?stop = "sf_Offset frame + StreamFrame_DataLen frame"
  have F: "F < 2 ^ 63" and g: "gapsInv (sfs_gaps s)" using inv by (simp_all add: sorterInv_def)
  note fb = frame_bounds [OF f(1) F]
  have gaps: "sfs_gaps s = before @ gap # after"
    and bef: "\<forall>g \<in> set before. bi_End g < ?start" "bi_Start gap < ?stop" "?start < bi_End gap"
    using findGap_Inr [OF found] start by (auto simp: order.strict_iff_order)
  have ne: "gs gap < ge gap" using g gaps by (simp add: gapsInv_def)
  define fr1 where "fr1 = (if ?start < bi_Start gap then cutFront (bi_Start gap - ?start) frame else frame)"
  note fr1 = cutToGap [OF f(1) F f(2) bef(2), folded fr1_def]
  obtain res q1 where stopG: "findEndGap ?stop True gap after (sfs_queuedFrames s) = (res, q1)"
    by (cases "findEndGap ?stop True gap after (sfs_queuedFrames s)")
  have "unat ?stop < ge (last (gap # after))"
    using f(1) F g fb(2) gaps by (simp add: gapsInv_def maxOffset_def frameOfStream_def split: if_splits)
  then obtain same linked endGap rest where res: "res = EndGap same linked endGap rest"
    using findEndGap_NoEndGap [of ?stop True gap after "sfs_queuedFrames s"] stopG
    by (cases res) (fastforce simp: word_le_nat_alt)+
  obtain mid where mid: "gap # after = mid @ endGap # rest" "same \<longleftrightarrow> mid = []"
    "linked \<longleftrightarrow> ?stop < bi_End endGap \<or> same" "\<forall>m \<in> set mid. bi_End m \<le> ?stop"
    "mid \<noteq> [] \<longrightarrow> bi_Start endGap < ?stop"
    "?stop < bi_End endGap \<or> (rest \<noteq> [] \<and> ?stop \<le> bi_Start (hd rest))"
    "q1 = (\<lambda>k. if k \<in> bi_End ` set mid then None else sfs_queuedFrames s k)"
    using findEndGap_EndGap [OF stopG [unfolded res]] by auto
  define stop2 where "stop2 = min ?stop (bi_End endGap)"
  define fr2 where "fr2 = (if bi_End endGap < ?stop then cutBack (?stop - bi_End endGap) fr1 else fr1)"
  have G: "sfs_gaps s = before @ mid @ endGap # rest" using gaps mid(1) by simp
  note inside = insertFrame_inside [OF g G]
  have hd: "gap = hd (mid @ [endGap])" using mid(1) by (cases mid) auto
  have ends: "bi_End gap \<le> bi_End endGap" "bi_Start endGap < bi_End endGap" "mid \<noteq> [] \<longrightarrow> bi_End gap < bi_Start endGap"
    using inside(1,2) hd by (cases mid; auto simp: word_le_nat_alt word_less_nat_alt)+
  have S: "bi_Start gap \<le> sf_Offset fr1" "sf_Offset fr1 < bi_End gap" "?start \<le> sf_Offset fr1"
    using fr1(3) bef(3) ne by (auto simp: word_less_nat_alt)
  have "0 < length (sf_Data fr1)" using fr1(2) by simp
  then have S2: "sf_Offset fr1 < bi_End endGap" "sf_Offset fr1 < ?stop"
    using less_le_trans [OF S(2) ends(1)] fr1(4) unfolding word_less_nat_alt by linarith+
  note fr2 = cutToEnd [OF fr1(1) F fr1(2,4) S2(1), folded fr2_def stop2_def]
  show thesis
  proof (rule that [OF G hd, of fr2 stop2])
    show "bi_Start gap \<le> sf_Offset fr2" "sf_Offset fr2 < bi_End gap" "sf_Offset fr2 < stop2"
      using S S2 fr2(2) by (simp_all add: stop2_def)
    show "bi_Start endGap < stop2" "stop2 \<le> bi_End endGap" "stop2 < bi_End endGap \<or> rest \<noteq> []"
      using mid(5,6) bef(2) ends hd by (cases mid; auto simp: stop2_def)+
    show "frameOfStream D F fr2" "length (sf_Data fr2) = unat stop2 - unat (sf_Offset fr2)"
      using fr2 by simp_all
    show "{unat (sf_Offset fr2) ..< unat stop2} \<subseteq> frameRange frame"
      using S(3) fb(2) fr2(2) by (auto simp: frameRange_def stop2_def word_le_nat_alt min_def split: if_splits)
    show "frameRange frame \<inter> missing (sfs_gaps s) \<subseteq> {unat (sf_Offset fr2) ..< unat stop2}"
    proof
      fix n assume "n \<in> frameRange frame \<inter> missing (sfs_gaps s)"
      then obtain h where h: "h \<in> set (sfs_gaps s)" "gs h \<le> n" "n < ge h"
        and n: "unat ?start \<le> n" "n < unat ?stop" using fb(2) by (auto simp: frameRange_def elim: missing_bounds)
      have "h \<notin> set before" using bef(1) h n by (auto simp: word_less_nat_alt)
      moreover have "h \<notin> set rest" using inside(4) [of h] mid(6) h n by (auto simp: word_less_nat_alt word_le_nat_alt)
      ultimately have "h \<in> set mid \<union> {endGap}" using h(1) G by auto
      then show "n \<in> {unat (sf_Offset fr2) ..< unat stop2}"
        using inside(3) [of h] h n hd fr1(3) fr2(2) by (auto simp: stop2_def min_def max_def)
    qed
    show "e = Some errTooManyGapsInReceivedStreamData \<or> (e = None \<and> s' = s\<lparr> sfs_gaps := before
       @ (if bi_Start gap < sf_Offset fr2 then [gap\<lparr> bi_End := sf_Offset fr2 \<rparr>] else [])
       @ (if stop2 < bi_End endGap then [endGap\<lparr> bi_Start := stop2 \<rparr>] else []) @ rest,
       sfs_queuedFrames := (\<lambda>k. if k \<in> bi_End ` set mid then None else sfs_queuedFrames s k)(sf_Offset fr2 \<mapsto> fr2) \<rparr>)"
    proof -
      define cutLen where "cutLen = (if ?stop > bi_End endGap then ?stop - bi_End endGap else 0)"
      have c: "?stop - cutLen = stop2" "(if cutLen \<noteq> 0 then cutBack cutLen fr1 else fr1) = fr2"
        by (auto simp: cutLen_def stop2_def fr2_def min_def)
      have fill: "fillGaps (sf_Offset fr1) stop2 gap same linked endGap =
        (if bi_Start gap < sf_Offset fr2 then [gap\<lparr> bi_End := sf_Offset fr2 \<rparr>] else [])
        @ (if stop2 < bi_End endGap then [endGap\<lparr> bi_Start := stop2 \<rparr>] else [])"
        unfolding fr2(2) by (rule fillGaps_eq) (use S mid(2,3,4) hd ends in \<open>auto simp: stop2_def\<close>)
      let ?gaps = "before @ fillGaps (sf_Offset fr1) (?stop - cutLen) gap same linked endGap @ rest"
      have "insertFrame frame s =
        (if length ?gaps > MaxStreamFrameSorterGaps
         then (s\<lparr> sfs_gaps := ?gaps, sfs_queuedFrames := q1 \<rparr>, Some errTooManyGapsInReceivedStreamData)
         else (s\<lparr> sfs_gaps := ?gaps, sfs_queuedFrames := q1 \<rparr>\<lparr> sfs_queuedFrames :=
           q1(sf_Offset (if cutLen \<noteq> 0 then cutBack cutLen fr1 else fr1) \<mapsto>
             (if cutLen \<noteq> 0 then cutBack cutLen fr1 else fr1)) \<rparr>, None))"
        by (simp only: insertFrame_def Let_def found sum.case prod.case fr1_def [symmetric] stopG res
            endSearch.case cutLen_def [symmetric])
      then show ?thesis using r unfolding c fill mid(7) by (auto split: if_splits)
    qed
  qed
qed

lemma outside_missing: "A \<inter> ({..<m} - R) = {} \<Longrightarrow> A \<subseteq> {..<n} \<Longrightarrow> n \<le> m \<Longrightarrow> A \<subseteq> (R :: nat set)"
  by (meson DiffI disjoint_iff lessThan_iff less_le_trans subset_iff)

lemma insertFrame_inv:
  assumes inv: "sorterInv D F R s" and f: "frameOfStream D F frame" "sf_Data frame \<noteq> []"
    and start: "\<forall>g \<in> set (sfs_gaps s). sf_Offset frame \<noteq> bi_End g"
    and r: "insertFrame frame s = (s', e)"
  shows "((e = None \<and> sorterInv D F (R \<union> frameRange frame) s' \<and> sfs_readPosition s' = sfs_readPosition s)
    \<or> (e = Some errDuplicateStreamData \<and> s' = s \<and> frameRange frame \<subseteq> R)
    \<or> e = Some errTooManyGapsInReceivedStreamData) \<and> (frameRange frame \<subseteq> R \<longrightarrow> e = Some errDuplicateStreamData)"
proof -
  let ?start = "sf_Offset frame" and ?stop = "sf_Offset frame + StreamFrame_DataLen frame"
  have F: "F < 2 ^ 63" and g: "gapsInv (sfs_gaps s)" "missing (sfs_gaps s) = {..<maxOffset} - R" "R \<subseteq> {..<F}"
    and ch: "chained (sfs_queuedFrames s) (unat (sfs_readPosition s)) (sfs_gaps s)"
    and qf: "\<forall>k f. sfs_queuedFrames s k = Some f \<longrightarrow> sf_Offset f = k \<and> frameOfStream D F f \<and> frameRange f \<subseteq> R"
    using inv by (auto simp: sorterInv_def)
  note fb = frame_bounds [OF f(1) F]
  have rng: "frameRange frame = {unat ?start ..< unat ?stop}" "frameRange frame \<subseteq> {..<F}"
    using fb f(1) by (auto simp: frameRange_def frameOfStream_def)
  show ?thesis
  proof (cases "findGap ?start ?stop [] (sfs_gaps s)")
    case (Inl err)
    have "unat ?start < ge (last (sfs_gaps s))"
      using F g(1) f(1) by (simp add: gapsInv_def maxOffset_def frameOfStream_def)
    then have "err = errDuplicateStreamData \<and> {unat ?start ..< unat ?stop} \<inter> missing (sfs_gaps s) = {}"
      by (intro findGap_Inl [OF Inl]) (use g(1) in \<open>auto simp: gapsInv_def word_le_nat_alt\<close>)
    moreover have "F \<le> maxOffset" using F unfolding maxOffset_def by simp
    ultimately have "err = errDuplicateStreamData" "frameRange frame \<subseteq> R"
      using outside_missing [of "frameRange frame" maxOffset R F] rng by (simp_all add: g(2))
    moreover have "s' = s" "e = Some err" using r Inl by (simp_all add: insertFrame_def)
    ultimately show ?thesis by simp
  next
    case (Inr x)
    obtain before gap after where x: "x = (before, gap, after)" by (cases x)
    obtain mid endGap rest fr stop where G: "sfs_gaps s = before @ mid @ endGap # rest"
      and c: "gap = hd (mid @ [endGap])" "bi_Start gap \<le> sf_Offset fr" "sf_Offset fr < bi_End gap" "sf_Offset fr < stop"
        "bi_Start endGap < stop" "stop \<le> bi_End endGap" "stop < bi_End endGap \<or> rest \<noteq> []"
      and fr: "frameOfStream D F fr" "length (sf_Data fr) = unat stop - unat (sf_Offset fr)"
        "{unat (sf_Offset fr) ..< unat stop} \<subseteq> frameRange frame"
        "frameRange frame \<inter> missing (sfs_gaps s) \<subseteq> {unat (sf_Offset fr) ..< unat stop}"
      and res: "e = Some errTooManyGapsInReceivedStreamData \<or> (e = None \<and> s' = s\<lparr> sfs_gaps := before
       @ (if bi_Start gap < sf_Offset fr then [gap\<lparr> bi_End := sf_Offset fr \<rparr>] else [])
       @ (if stop < bi_End endGap then [endGap\<lparr> bi_Start := stop \<rparr>] else []) @ rest,
       sfs_queuedFrames := (\<lambda>k. if k \<in> bi_End ` set mid then None else sfs_queuedFrames s k)(sf_Offset fr \<mapsto> fr) \<rparr>)"
      by (rule insertFrame_found [OF inv f start r Inr [unfolded x]])
    define q' where "q' = (\<lambda>k. if k \<in> bi_End ` set mid then None else sfs_queuedFrames s k)(sf_Offset fr \<mapsto> fr)"
    note fill = gapsInv_fill [OF g(1) [unfolded G] c]
    note chn = chained_fill [OF g(1) [unfolded G] c ch [unfolded G], of q' fr]
    have q1: "q' (sf_Offset fr) = Some fr" "k \<noteq> sf_Offset fr \<Longrightarrow> k \<notin> bi_End ` set mid \<Longrightarrow> q' k = sfs_queuedFrames s k" for k
      by (simp_all add: q'_def)
    have sub: "frameRange fr \<subseteq> frameRange frame" using fr(2,3) c(4)
      by (simp add: frameRange_def word_less_nat_alt)
    have "frameRange fr' \<subseteq> R \<union> frameRange frame \<and> sf_Offset fr' = k \<and> frameOfStream D F fr'" if "q' k = Some fr'" for k fr'
      using that qf sub fr(1) by (auto simp: q'_def split: if_splits)
    moreover have "{..<maxOffset} - R - {unat (sf_Offset fr) ..< unat stop} = {..<maxOffset} - (R \<union> frameRange frame)"
      using fr(3,4) g(2) by blast
    ultimately have "sorterInv D F (R \<union> frameRange frame) s' \<and> sfs_readPosition s' = sfs_readPosition s" if "e = None"
      using that res fill chn [OF q1(1) fr(2) q1(2)] F g(2,3) rng(2) unfolding q'_def [symmetric]
      by (simp add: sorterInv_def G)
    moreover have "unat (sf_Offset fr) \<in> {gs gap ..< ge gap}" using c(2,3)
      by (simp add: word_le_nat_alt word_less_nat_alt)
    then have "unat (sf_Offset fr) \<in> missing (sfs_gaps s)" unfolding G missing_append missing_simps
      by (cases mid) (auto simp: c(1))
    moreover have "unat (sf_Offset fr) \<in> frameRange frame" using fr(3) c(4) by (auto simp: word_less_nat_alt)
    ultimately show ?thesis using res g(2) by blast
  qed
qed

text \<open>A frame is queued at the end of every gap but the last.\<close>

lemma chained_end:
  assumes "gapsInv gaps" "chained q lo gaps" "g \<in> set gaps" "ge g \<noteq> maxOffset"
  shows "\<exists>f. q (bi_End g) = Some f \<and> sf_Data f \<noteq> []"
proof -
  obtain xs ys where g: "gaps = xs @ g # ys" using assms(3) by (auto dest: split_list)
  then obtain h zs where y: "ys = h # zs" using assms(1,4) by (cases ys) (auto simp: gapsInv_def)
  have "chain q (ge g) (gs h)" using assms(2) by (simp add: g y chained_append)
  moreover have "ge g < gs h" using assms(1) by (auto simp: g y gapsInv_def sorted_wrt_append)
  ultimately show ?thesis by (auto elim: chain_stepE)
qed

lemma Push_inv:
  assumes inv: "sorterInv D F R s" and f: "frameOfStream D F frame" and r: "Push frame s = (s', e)"
  shows "((e = None \<and> sorterInv D F (R \<union> frameRange frame) s' \<and> sfs_readPosition s' = sfs_readPosition s)
    \<or> (e = Some errDuplicateStreamData \<and> s' = s \<and> frameRange frame \<subseteq> R)
    \<or> e = Some errTooManyGapsInReceivedStreamData) \<and> (sf_Data frame \<noteq> [] \<and> frameRange frame \<subseteq> R \<longrightarrow> e = Some errDuplicateStreamData)"
proof -
  have F: "F < 2 ^ 63" and g: "gapsInv (sfs_gaps s)" "missing (sfs_gaps s) = {..<maxOffset} - R" "R \<subseteq> {..<F}"
    and ch: "chained (sfs_queuedFrames s) (unat (sfs_readPosition s)) (sfs_gaps s)"
    and qf: "\<And>k f. sfs_queuedFrames s k = Some f \<Longrightarrow> sf_Offset f = k \<and> frameOfStream D F f \<and> frameRange f \<subseteq> R"
    using inv by (auto simp: sorterInv_def)
  note fb = frame_bounds [OF f F]
  show ?thesis
  proof (cases "sf_Data frame = []")
    case True
    then have fin: "sf_FinBit frame" "unat (sf_Offset frame) = F" using f by (auto simp: frameOfStream_def)
    have "sf_Data f' = []" if "sfs_queuedFrames s (sf_Offset frame) = Some f'" for f'
      using qf [OF that] fin(2) by (auto simp: frameOfStream_def)
    then have "chained ((sfs_queuedFrames s)(sf_Offset frame \<mapsto> frame)) (unat (sfs_readPosition s)) (sfs_gaps s)"
      using ch chained_unused by blast
    moreover have "s' = s\<lparr> sfs_queuedFrames := (sfs_queuedFrames s)(sf_Offset frame \<mapsto> frame) \<rparr>" "e = None"
      using r True fin(1) fb(3) by (auto simp: Push_def)
    moreover have "frameRange frame = {}" using True by (simp add: frameRange_def)
    ultimately show ?thesis using F g qf f True by (auto simp: sorterInv_def)
  next
    case data: False
    show ?thesis
    proof (cases "sfs_queuedFrames s (sf_Offset frame)")
      case None
      have "unat (sf_Offset frame) \<noteq> maxOffset" using f F by (simp add: frameOfStream_def maxOffset_def)
      then have "\<forall>g \<in> set (sfs_gaps s). sf_Offset frame \<noteq> bi_End g"
        using chained_end [OF g(1) ch] None by fastforce
      then show ?thesis using insertFrame_inv [OF inv f data] r None data fb(3) by (simp add: Push_def)
    next
      case (Some old)
      note o = qf [OF Some]
      note ob = frame_bounds [OF conjunct1 [OF conjunct2 [OF o]] F]
      show ?thesis
      proof (cases "StreamFrame_DataLen frame \<le> StreamFrame_DataLen old")
        case True
        then have "frameRange frame \<subseteq> frameRange old" using o fb(1) ob(1)
          by (auto simp: frameRange_def word_le_nat_alt)
        then show ?thesis using r True Some data fb(3) o by (auto simp: Push_def)
      next
        case False
        let ?fr = "cutFront (StreamFrame_DataLen old) frame"
        have l: "unat (StreamFrame_DataLen old) < length (sf_Data frame)"
          using False fb(1) by (simp add: word_le_nat_alt)
        note c = cutFront_frame [OF f F l]
        have "sf_Data old \<noteq> []" using o f data by (auto simp: frameOfStream_def)
        then obtain m where n0: "length (sf_Data old) = Suc m" by (cases "sf_Data old") auto
        have "sf_Offset ?fr \<noteq> bi_End g'" if "g' \<in> set (sfs_gaps s)" for g'
        proof
          assume e: "sf_Offset ?fr = bi_End g'"
          have m: "gs g' < ge g'" using that g(1) by (simp add: gapsInv_def)
          have "ge g' - 1 \<in> frameRange old" using c(3) n0 o ob(1) unfolding e by (auto simp: frameRange_def)
          moreover have "ge g' - 1 \<in> missing (sfs_gaps s)" using that m by (force simp: missing_def)
          ultimately show False using o g(2) by blast
        qed
        moreover have "insertFrame ?fr s = (s', e)" using r False Some data fb(3) by (simp add: Push_def)
        moreover have "frameRange frame = frameRange old \<union> frameRange ?fr"
          using o c(3,4) l ob(1) by (simp add: frameRange_def ivl_disj_un_two(3))
        then have "R \<union> frameRange ?fr = R \<union> frameRange frame" "frameRange ?fr \<subseteq> R \<longleftrightarrow> frameRange frame \<subseteq> R"
          using o by auto
        ultimately show ?thesis using insertFrame_inv [OF inv c(1,2)] by metis
      qed
    qed
  qed
qed

lemma Pop_inv:
  assumes "sorterInv D F R s" "Pop s = (Some f, s')"
  shows "sorterInv D F R s' \<and> unat (sfs_readPosition s') = unat (sfs_readPosition s) + length (sf_Data f)
    \<and> sf_Data f = map D [unat (sfs_readPosition s) ..< unat (sfs_readPosition s')]"
proof -
  let ?q = "sfs_queuedFrames s" and ?p = "sfs_readPosition s"
  have F: "F < 2 ^ 63" and g: "gapsInv (sfs_gaps s)"
    and ch: "chained ?q (unat ?p) (sfs_gaps s)"
    and qf: "\<And>k f. ?q k = Some f \<Longrightarrow> sf_Offset f = k \<and> frameOfStream D F f \<and> frameRange f \<subseteq> R"
    using assms(1) by (auto simp: sorterInv_def)
  have h: "?q ?p = Some f" and s': "s' = s\<lparr> sfs_readPosition := ?p + StreamFrame_DataLen f, sfs_queuedFrames := ?q(sf_Offset f := None) \<rparr>"
    using assms(2) by (auto simp: Pop_def Head_def split: option.splits)
  note o = qf [OF h]
  note fb = frame_bounds [OF conjunct1 [OF conjunct2 [OF o]] F]
  have pos: "unat (sfs_readPosition s') = unat ?p + length (sf_Data f)" using fb(2) o by (simp add: s')
  have data: "sf_Data f = map D [unat ?p ..< unat (sfs_readPosition s')]"
    using o unfolding pos by (intro nth_equalityI) (auto simp: frameOfStream_def)
  have "chained (?q(?p := None)) (unat (sfs_readPosition s')) (sfs_gaps s)"
  proof (cases "sf_Data f = []")
    case True
    then show ?thesis using ch h pos chained_unused [of ?q _ _ ?p None] by simp
  next
    case False
    obtain g0 gaps where gs: "sfs_gaps s = g0 # gaps" using g by (cases "sfs_gaps s") (auto simp: gapsInv_def)
    have "chain ?q (unat ?p) (gs g0)" using ch gs by simp
    moreover have "unat ?p \<noteq> gs g0"
    proof
      assume e: "unat ?p = gs g0"
      have "unat ?p \<in> frameRange f" using False o by (simp add: frameRange_def)
      moreover have "unat ?p \<in> missing (sfs_gaps s)" using e g gs by (simp add: gapsInv_def)
      ultimately show False using o assms(1) by (auto simp: sorterInv_def)
    qed
    ultimately have c: "chain ?q (unat ?p + length (sf_Data f)) (gs g0)" using h by (auto elim: chain_stepE)
    have k: "(?q(?p := None)) (of_nat k) = ?q (of_nat k)" if "unat ?p < k" "k < 2 ^ 64" for k
    proof -
      have "unat (of_nat k :: ByteCount) = k" using that by (simp add: unat_of_nat)
      then show ?thesis using that(1) by auto
    qed
    have lt: "gs x < 2 ^ 64" for x using unsigned_less [where ?'a = nat, of "bi_Start x"] by simp
    have "chain (?q(?p := None)) (unat ?p + length (sf_Data f)) (gs g0)"
      by (rule chain_cong [OF c]) (use k False lt [of g0] in \<open>auto simp: length_greater_0_conv [symmetric] simp del: length_greater_0_conv\<close>)
    moreover have "chained (?q(?p := None)) (ge g0) gaps"
    proof (rule chained_cong [of ?q "ge g0" gaps "ge g0" "2 ^ 64"])
      have b: "unat ?p < ge g0" using chain_le [OF c] g gs by (auto simp: gapsInv_def)
      show "(?q(?p := None)) (of_nat k) = ?q (of_nat k)" if "ge g0 \<le> k" "k < 2 ^ 64" for k
        using k that b by simp
      have "gs x < ge x \<and> ge g0 < gs x" if "x \<in> set gaps" for x using that g gs by (simp add: gapsInv_def)
      then show "\<forall>x \<in> set gaps. gs x \<le> 2 ^ 64 \<and> ge g0 \<le> ge x"
        using lt by (meson less_imp_le less_trans)
    qed (use ch gs in simp_all)
    ultimately show ?thesis using gs pos by simp
  qed
  then have "sorterInv D F R s'" using assms(1) o by (auto simp: sorterInv_def s')
  then show ?thesis using pos data by simp
qed

lemma newStreamFrameSorter_inv: "F < 2 ^ 63 \<Longrightarrow> sorterInv D F {} newStreamFrameSorter"
proof -
  have "unat MaxByteCount_const = maxOffset" by (simp add: MaxByteCount_const_def maxOffset_def unsigned_minus_1_eq_mask mask_eq_exp_minus_1)
  then show "F < 2 ^ 63 \<Longrightarrow> sorterInv D F {} newStreamFrameSorter"
    by (auto simp: sorterInv_def newStreamFrameSorter_def gapsInv_def maxOffset_def chain.here lessThan_atLeast0)
qed

section \<open>Runs\<close>

text \<open>
  A stream of content \<open>D\<close> and length \<open>F\<close> is received: frames are pushed in any order and cut in
  any way, duplicates are refused, and frames are popped at any time. \<open>R\<close> is the set of bytes
  received and \<open>out\<close> the data handed out.
\<close>

inductive receives :: "(nat \<Rightarrow> byte) \<Rightarrow> nat \<Rightarrow> nat set \<Rightarrow> byte list \<Rightarrow> streamFrameSorter \<Rightarrow> bool" for D F where
  start: "receives D F {} [] newStreamFrameSorter"
| push: "receives D F R out s \<Longrightarrow> frameOfStream D F frame \<Longrightarrow> Push frame s = (s', e) \<Longrightarrow>
    e \<noteq> Some errTooManyGapsInReceivedStreamData \<Longrightarrow> receives D F (R \<union> frameRange frame) out s'"
| pop: "receives D F R out s \<Longrightarrow> Pop s = (Some frame, s') \<Longrightarrow> receives D F R (out @ sf_Data frame) s'"

lemma receives_inv:
  assumes "receives D F R out s" "F < 2 ^ 63"
  shows "sorterInv D F R s \<and> unat (sfs_readPosition s) = length out \<and> out = map D [0 ..< length out]"
  using assms
proof (induction rule: receives.induct)
  case start
  then show ?case using newStreamFrameSorter_inv by (simp add: newStreamFrameSorter_def)
next
  case (push R out s frame s' e)
  have i: "sorterInv D F R s" using push by simp
  have "sorterInv D F (R \<union> frameRange frame) s' \<and> sfs_readPosition s' = sfs_readPosition s"
    using Push_inv [OF i push.hyps(2,3)] push.hyps(4) i by (auto simp: Un_absorb2)
  then show ?case using push by simp
next
  case (pop R out s frame s')
  then have i: "sorterInv D F R s" "unat (sfs_readPosition s) = length out" "out = map D [0 ..< length out]" by simp_all
  note p = Pop_inv [OF i(1) pop.hyps(2)]
  have d: "sf_Data frame = map D [length out ..< length out + length (sf_Data frame)]"
    using p unfolding i(2) [symmetric] by (elim conjE) (simp only:)
  have "out @ sf_Data frame
    = map D [0 ..< length out] @ map D [length out ..< length out + length (sf_Data frame)]"
    by (rule arg_cong2 [where f = append, OF i(3) d])
  also have "\<dots> = map D ([0 ..< length out] @ [length out ..< length out + length (sf_Data frame)])"
    by simp
  also have "[0 ..< length out] @ [length out ..< length out + length (sf_Data frame)]
    = [0 ..< length out + length (sf_Data frame)]" by (simp add: upt_add_eq_append [symmetric])
  finally have "out @ sf_Data frame = map D [0 ..< length (out @ sf_Data frame)]" by simp
  moreover have "unat (sfs_readPosition s') = length (out @ sf_Data frame)"
    using conjunct1 [OF conjunct2 [OF p]] i(2) by simp
  ultimately show ?case using conjunct1 [OF p] by (intro conjI)
qed

lemma Head_next_missing:
  assumes "sorterInv D F R s" "Head s = None"
  shows "unat (sfs_readPosition s) \<notin> R"
proof -
  obtain g gaps where g: "sfs_gaps s = g # gaps"
    using assms(1) by (cases "sfs_gaps s") (auto simp: sorterInv_def gapsInv_def)
  then have "chain (sfs_queuedFrames s) (unat (sfs_readPosition s)) (gs g)" "gs g < ge g"
    using assms(1) by (auto simp: sorterInv_def gapsInv_def)
  then have "unat (sfs_readPosition s) \<in> missing (sfs_gaps s)"
    using assms(2) g by (auto simp: Head_def elim: chain_stepE)
  then show ?thesis using assms(1) by (auto simp: sorterInv_def)
qed

lemma Head_starts_here:
  assumes "sorterInv D F R s" "Head s = Some f"
  shows "sf_Offset f = sfs_readPosition s \<and> frameOfStream D F f \<and> frameRange f \<subseteq> R"
  using assms by (auto simp: sorterInv_def Head_def)

lemma receives_delivered:
  assumes "receives D F R out s" "F < 2 ^ 63"
  shows "{..<length out} \<subseteq> R"
  using assms(1)
proof (induction rule: receives.induct)
  case (pop R out s frame s')
  note i = receives_inv [OF pop.hyps(1) assms(2)]
  have "Head s = Some frame" using pop.hyps(2) by (auto simp: Pop_def split: option.splits)
  then have "frameRange frame \<subseteq> R" "unat (sf_Offset frame) = length out"
    using Head_starts_here i by (fastforce, fastforce)
  then show ?case using pop.IH by (auto simp: frameRange_def subset_iff) (metis linorder_not_less)
qed auto

section \<open>Properties\<close>

text \<open>
  C27. A stream of content \<open>D\<close> and length \<open>F\<close> is cut into frames in any way, and the frames arrive
  in any order, repeated and overlapping: the data handed out by \<open>Pop\<close> is always a prefix of the
  stream and was all received, and when \<open>Head\<close> has nothing to hand out the next byte of the
  stream has not been received.
\<close>

theorem stream_reassembly:
  assumes "receives D F R out s" "F < 2 ^ 63"
  shows "out = map D [0 ..< length out] \<and> {..<length out} \<subseteq> R \<and> (Head s = None \<longrightarrow> length out \<notin> R)"
  using receives_inv [OF assms] receives_delivered [OF assms] Head_next_missing by metis

text \<open>Two frames of a stream of two bytes, the second one first.\<close>

definition exampleFrame :: "ByteCount \<Rightarrow> byte \<Rightarrow> bool \<Rightarrow> StreamFrame" where
  "exampleFrame off b fin =
     \<lparr> sf_StreamID = 5, sf_FinBit = fin, sf_DataLenPresent = True, sf_Offset = off, sf_Data = [b] \<rparr>"

definition exampleState :: streamFrameSorter where
  "exampleState =
     \<lparr> sfs_queuedFrames = [1 \<mapsto> exampleFrame 1 20 True], sfs_readPosition = 0,
       sfs_gaps = [\<lparr> bi_Start = 0, bi_End = 1 \<rparr>, \<lparr> bi_Start = 2, bi_End = MaxByteCount_const \<rparr>] \<rparr>"

lemmas push_defs = Push_def insertFrame_def StreamFrame_DataLen_def fillGaps_def findEndGap.simps
  MaxStreamFrameSorterGaps_def MaxByteCount_const_def exampleFrame_def exampleState_def

lemma example_push1: "Push (exampleFrame 1 20 True) newStreamFrameSorter = (exampleState, None)"
proof -
  have "\<not> (- 1 :: ByteCount) \<le> 2" by (simp add: word_le_nat_alt unsigned_minus_1_eq_mask mask_eq_exp_minus_1)
  then show ?thesis by (simp add: push_defs newStreamFrameSorter_def)
qed

lemma example_push2: "Push (exampleFrame 0 10 False) exampleState =
   (exampleState\<lparr> sfs_queuedFrames := [1 \<mapsto> exampleFrame 1 20 True, 0 \<mapsto> exampleFrame 0 10 False],
      sfs_gaps := [\<lparr> bi_Start = 2, bi_End = MaxByteCount_const \<rparr>] \<rparr>, None)"
  by (simp add: push_defs)

lemma example_receives1: "receives (\<lambda>i. if i = 0 then 10 else 20) 2 {1} [] exampleState"
  using receives.push [OF receives.start _ example_push1, of "\<lambda>i. if i = 0 then 10 else 20" 2]
  by (simp add: frameOfStream_def frameRange_def exampleFrame_def)

theorem stream_reassembly_witness:
  "\<exists>R s. receives (\<lambda>i. if i = 0 then 10 else 20) 2 R [10] s \<and> {..<1} \<subseteq> R"
proof -
  let ?D = "\<lambda>i. if i = 0 then 10 else 20 :: byte"
  define s where "s = fst (Push (exampleFrame 0 10 False) exampleState)"
  have p: "Push (exampleFrame 0 10 False) exampleState = (s, None)" by (simp add: s_def example_push2)
  have "receives ?D 2 ({1} \<union> frameRange (exampleFrame 0 10 False)) [] s"
    by (rule receives.push [OF example_receives1 _ p]) (simp_all add: frameOfStream_def exampleFrame_def)
  moreover have "Head s = Some (exampleFrame 0 10 False)"
    unfolding s_def example_push2 by (simp add: Head_def exampleState_def)
  then have "Pop s = (Some (exampleFrame 0 10 False), snd (Pop s))" by (simp add: Pop_def)
  ultimately have "receives ?D 2 ({1} \<union> frameRange (exampleFrame 0 10 False)) ([] @ sf_Data (exampleFrame 0 10 False)) (snd (Pop s))"
    by (rule receives.pop)
  then have "receives ?D 2 ({1} \<union> frameRange (exampleFrame 0 10 False)) [10] (snd (Pop s))"
    by (simp add: exampleFrame_def)
  from this stream_reassembly [OF this] show ?thesis by auto
qed

text \<open>
  C28. Errors of \<open>Push\<close>: data of a stream that is not refused for too many gaps is taken or is a
  duplicate, and it is refused as a duplicate exactly when every byte of it was there already;
  the errors marked as bugs in the code do not occur.
\<close>

theorem Push_errors:
  assumes "receives D F R out s" "F < 2 ^ 63" "frameOfStream D F frame"
  shows "snd (Push frame s) \<in> {None, Some errDuplicateStreamData, Some errTooManyGapsInReceivedStreamData}
    \<and> (snd (Push frame s) = Some errDuplicateStreamData \<longrightarrow> frameRange frame \<subseteq> R \<and> fst (Push frame s) = s)
    \<and> (sf_Data frame \<noteq> [] \<and> frameRange frame \<subseteq> R \<longrightarrow> snd (Push frame s) = Some errDuplicateStreamData)"
  using Push_inv [OF conjunct1 [OF receives_inv [OF assms(1,2)]] assms(3), of "fst (Push frame s)" "snd (Push frame s)"]
  by (auto simp: errTooManyGapsInReceivedStreamData_def errDuplicateStreamData_def)

theorem Push_errors_witness:
  "receives (\<lambda>i. if i = 0 then 10 else 20) 2 {1} [] exampleState
    \<and> snd (Push (exampleFrame 1 20 True) exampleState) = Some errDuplicateStreamData"
  using example_receives1 Push_errors [OF example_receives1, of "exampleFrame 1 20 True"]
  by (simp add: frameOfStream_def frameRange_def exampleFrame_def)

text \<open>
  C29. A frame that loses its end because the data is there already keeps its FIN bit: when the
  end of a stream is received first, cut off from \<open>k\<close> on, and then the whole of it in one frame, the
  frame handed out first has \<open>k\<close> bytes, and says that they are the last.
\<close>

theorem fin_kept_when_cut:
  assumes "0 < k" "k < length d" "length d < 2 ^ 63"
    and "whole = \<lparr> sf_StreamID = sid, sf_FinBit = True, sf_DataLenPresent = True, sf_Offset = 0, sf_Data = d \<rparr>"
    and "tail = \<lparr> sf_StreamID = sid, sf_FinBit = True, sf_DataLenPresent = True, sf_Offset = of_nat k, sf_Data = drop k d \<rparr>"
    and "s1 = fst (Push tail newStreamFrameSorter)" "s2 = fst (Push whole s1)"
  shows "Head s2 = Some (whole\<lparr> sf_Data := take k d \<rparr>)"
proof -
  have k: "unat (of_nat k :: ByteCount) = k" "unat (of_nat (length d) :: ByteCount) = length d"
    using assms(2,3) by (simp_all add: unat_of_nat)
  have m: "unat MaxByteCount_const = maxOffset"
    by (simp add: MaxByteCount_const_def maxOffset_def unsigned_minus_1_eq_mask mask_eq_exp_minus_1)
  have w: "(0 :: ByteCount) < of_nat k" "(of_nat k :: ByteCount) < of_nat (length d)"
    "(of_nat (length d) :: ByteCount) < MaxByteCount_const" "(of_nat (length d) :: ByteCount) \<noteq> 0"
    using assms(1-3) k m by (auto simp: word_less_nat_alt maxOffset_def simp flip: unat_eq_0)
  have o: "(of_nat k :: ByteCount) + of_nat (length d - k) = of_nat (length d)"
    using assms(2) by (simp add: of_nat_diff)
  have l: "(of_nat (length d - k) :: ByteCount) \<noteq> 0" using o w(2) by auto
  define a where "a = (of_nat k :: ByteCount)"
  define b where "b = (of_nat (length d) :: ByteCount)"
  have v: "0 < b" "a \<le> MaxByteCount_const" "\<not> MaxByteCount_const \<le> b" "\<not> MaxByteCount_const < b" "MaxByteCount_const \<noteq> b"
    using w unfolding a_def [symmetric] b_def [symmetric] by auto
  have s1: "s1 = \<lparr> sfs_queuedFrames = [a \<mapsto> tail], sfs_readPosition = 0,
      sfs_gaps = [\<lparr> bi_Start = 0, bi_End = a \<rparr>, \<lparr> bi_Start = b, bi_End = MaxByteCount_const \<rparr>] \<rparr>"
    using w o l v unfolding assms(5,6) a_def [symmetric] b_def [symmetric]
    by (simp add: Push_def StreamFrame_DataLen_def newStreamFrameSorter_def insertFrame_def findEndGap.simps)
      (simp add: fillGaps_def MaxStreamFrameSorterGaps_def linorder_not_le linorder_not_less)
  let ?g = "\<lparr> bi_Start = 0, bi_End = a \<rparr>" and ?h = "\<lparr> bi_Start = b, bi_End = MaxByteCount_const \<rparr>"
  have fg: "findGap 0 b [] [?g, ?h] = Inr ([], ?g, [?h])"
    using v(1) by (simp add: linorder_not_le)
  have fe: "findEndGap b True ?g [?h] q = (EndGap True True ?g [?h], q)" for q
    using w(2) unfolding a_def [symmetric] b_def [symmetric] by (subst findEndGap.simps) simp
  have ab: "a \<noteq> 0" "a < b" "b \<noteq> 0" "unat a = k" "b - a \<noteq> 0"
    using w k(1) unfolding a_def [symmetric] b_def [symmetric] by auto
  have "s2 = fst (insertFrame whole s1)"
    using ab(1,3) unfolding assms(7) s1 Push_def by (simp add: assms(4) StreamFrame_DataLen_def b_def)
  then have "sfs_queuedFrames s2 = [a \<mapsto> tail, 0 \<mapsto> cutBack (b - a) whole]" "sfs_readPosition s2 = 0"
    using ab v(1) unfolding s1 insertFrame_def
    by (simp_all add: assms(4) StreamFrame_DataLen_def b_def [symmetric] Let_def fg fe fillGaps_def
        MaxStreamFrameSorterGaps_def cutBack_def)
  then show ?thesis using ab by (simp add: Head_def cutBack_def assms(4) StreamFrame_DataLen_def b_def [symmetric])
qed

theorem fin_kept_when_cut_witness:
  "\<exists>s whole tail :: StreamFrame.
     s = fst (Push whole (fst (Push tail newStreamFrameSorter)))
     \<and> sf_Data whole = [1, 2, 3] \<and> sf_Data tail = [2, 3] \<and> sf_Offset tail = 1
     \<and> map_option (\<lambda>f. (sf_FinBit f, sf_Data f)) (Head s) = Some (True, [1])"
proof -
  let ?whole = "\<lparr> sf_StreamID = 5, sf_FinBit = True, sf_DataLenPresent = True, sf_Offset = 0, sf_Data = [1, 2, 3] \<rparr>"
  let ?tail = "\<lparr> sf_StreamID = 5, sf_FinBit = True, sf_DataLenPresent = True, sf_Offset = 1, sf_Data = [2, 3] \<rparr>"
  have "Head (fst (Push ?whole (fst (Push ?tail newStreamFrameSorter)))) = Some (?whole\<lparr> sf_Data := take 1 [1, 2, 3] \<rparr>)"
    by (rule fin_kept_when_cut [of 1 "[1, 2, 3]" _ 5 ?tail]) simp_all
  then show ?thesis by (intro exI [of _ "fst (Push ?whole (fst (Push ?tail newStreamFrameSorter)))"] exI [of _ ?whole] exI [of _ ?tail]) simp
qed

end
