(* ===== verification/SentHandler.thy ===== *)
theory SentHandler
  imports Unpacker RTTStats "HOL-Library.Multiset"
begin

text \<open>
  The sender's side of acknowledgements (\<open>ackhandler/sent_packet_handler.go\<close>,
  \<open>stop_waiting_manager.go\<close>, \<open>packet.go\<close>, \<open>retransmittable.go\<close>): packets in flight, their
  acknowledgement, loss detection, the alarm and the queue of packets to be sent again.

  The congestion controller is behind the interface \<open>congestion.SendAlgorithm\<close>: a record of its
  operations over a state of any type. Operations that read the RTT statistics, which handler
  and controller share by a pointer, get them as an argument. The linked list of the packets is
  a list; an element of it is the packet itself, since packet numbers are unique. Readings of
  the clock and the answer of the RTO callback are arguments.
\<close>

section \<open>Packets\<close>

record Packet =
  pk_PacketNumber :: PacketNumber
  pk_Frames :: "Frame list"
  pk_Length :: ByteCount
  pk_EncryptionLevel :: EncryptionLevel
  pk_SendTime :: Time

fun IsFrameRetransmittable :: "Frame \<Rightarrow> bool" where
  "IsFrameRetransmittable (FStopWaiting _) = False"
| "IsFrameRetransmittable (FAck _) = False"
| "IsFrameRetransmittable _ = True"

definition stripNonRetransmittableFrames :: "Frame list \<Rightarrow> Frame list" where
  "stripNonRetransmittableFrames fs = filter IsFrameRetransmittable fs"

fun HasRetransmittableFrames :: "Frame list \<Rightarrow> bool" where
  "HasRetransmittableFrames [] = False"
| "HasRetransmittableFrames (f # fs) =
     (if IsFrameRetransmittable f then True else HasRetransmittableFrames fs)"

fun GetFramesForRetransmission :: "Frame list \<Rightarrow> Frame list" where
  "GetFramesForRetransmission [] = []"
| "GetFramesForRetransmission (FAck _ # fs) = GetFramesForRetransmission fs"
| "GetFramesForRetransmission (FStopWaiting _ # fs) = GetFramesForRetransmission fs"
| "GetFramesForRetransmission (f # fs) = f # GetFramesForRetransmission fs"

fun retransmittableType :: "Frame \<Rightarrow> bool" where
  "retransmittableType (FStream _) = True"
| "retransmittableType (FRstStream _) = True"
| "retransmittableType (FWindowUpdate _) = True"
| "retransmittableType (FBlocked _) = True"
| "retransmittableType (FPing _) = True"
| "retransmittableType (FGoaway _) = True"
| "retransmittableType (FAddAddress _) = True"
| "retransmittableType (FPaths _) = True"
| "retransmittableType _ = False"

definition IsRetransmittable :: "Packet \<Rightarrow> bool" where
  "IsRetransmittable p = list_ex retransmittableType (pk_Frames p)"

section \<open>STOP_WAITING\<close>

record stopWaitingManager =
  swm_largestLeastUnackedSent :: PacketNumber
  swm_nextLeastUnacked :: PacketNumber
  swm_lastStopWaitingFrame :: "StopWaitingFrame option"

definition leastUnackedFrame :: "PacketNumber \<Rightarrow> StopWaitingFrame" where
  "leastUnackedFrame p = \<lparr> swf_LeastUnacked = p, swf_PacketNumberLen = 0, swf_PacketNumber = 0 \<rparr>"

definition swm_GetStopWaitingFrame ::
  "bool \<Rightarrow> stopWaitingManager \<Rightarrow> StopWaitingFrame option \<times> stopWaitingManager" where
  "swm_GetStopWaitingFrame force s =
     (if swm_nextLeastUnacked s \<le> swm_largestLeastUnackedSent s
      then if force
           then let s = (if swm_lastStopWaitingFrame s = None \<and> swm_largestLeastUnackedSent s > 0
                         then s\<lparr> swm_lastStopWaitingFrame := Some (leastUnackedFrame (swm_nextLeastUnacked s)) \<rparr>
                         else s)
                in (swm_lastStopWaitingFrame s, s)
           else (None, s)
      else let swf = leastUnackedFrame (swm_nextLeastUnacked s)
           in (Some swf, s\<lparr> swm_largestLeastUnackedSent := swm_nextLeastUnacked s,
                            swm_lastStopWaitingFrame := Some swf \<rparr>))"

definition swm_ReceivedAck :: "AckFrame \<Rightarrow> stopWaitingManager \<Rightarrow> stopWaitingManager" where
  "swm_ReceivedAck ack s =
     (if ack_LargestAcked ack \<ge> swm_nextLeastUnacked s
      then s\<lparr> swm_nextLeastUnacked := ack_LargestAcked ack + 1 \<rparr> else s)"

definition QueuedRetransmissionForPacketNumber ::
  "PacketNumber \<Rightarrow> stopWaitingManager \<Rightarrow> stopWaitingManager" where
  "QueuedRetransmissionForPacketNumber p s =
     (if p \<ge> swm_nextLeastUnacked s then s\<lparr> swm_nextLeastUnacked := p + 1 \<rparr> else s)"

section \<open>The congestion controller\<close>

record 'c SendAlgorithm =
  OnPacketSent :: "Time \<Rightarrow> ByteCount \<Rightarrow> PacketNumber \<Rightarrow> ByteCount \<Rightarrow> bool \<Rightarrow> 'c \<Rightarrow> 'c"
  GetCongestionWindow :: "'c \<Rightarrow> ByteCount"
  MaybeExitSlowStart :: "RTTStats \<Rightarrow> 'c \<Rightarrow> 'c"
  OnPacketAcked :: "RTTStats \<Rightarrow> Time \<Rightarrow> PacketNumber \<Rightarrow> ByteCount \<Rightarrow> ByteCount \<Rightarrow> 'c \<Rightarrow> 'c"
  OnPacketLost :: "RTTStats \<Rightarrow> PacketNumber \<Rightarrow> ByteCount \<Rightarrow> ByteCount \<Rightarrow> 'c \<Rightarrow> 'c"
  OnRetransmissionTimeout :: "RTTStats \<Rightarrow> bool \<Rightarrow> 'c \<Rightarrow> 'c"
  RetransmissionDelay :: "RTTStats \<Rightarrow> 'c \<Rightarrow> Duration"
  SmoothedRTT :: "RTTStats \<Rightarrow> 'c \<Rightarrow> Duration"

section \<open>State\<close>

record 'c sentPacketHandler =
  sph_lastSentPacketNumber :: PacketNumber
  sph_skippedPackets :: "PacketNumber list"
  sph_numNonRetransmittablePackets :: int
  sph_LargestAcked :: PacketNumber
  sph_largestReceivedPacketWithAck :: PacketNumber
  sph_packetHistory :: "Packet list"
  sph_stopWaitingManager :: stopWaitingManager
  sph_retransmissionQueue :: "Packet list"
  sph_bytesInFlight :: ByteCount
  sph_congestion :: 'c
  sph_rttStats :: RTTStats
  sph_rtoCount :: uint32
  sph_tlpCount :: uint32
  sph_lossTime :: Time
  sph_lastSentTime :: Time
  sph_alarm :: Time
  sph_packets :: uint64
  sph_retransmissions :: uint64
  sph_losses :: uint64

definition Millisecond :: Duration where "Millisecond = 1000000"

definition timeReorderingFraction :: rat where "timeReorderingFraction = 1 / 8"
definition defaultRTOTimeout :: Duration where "defaultRTOTimeout = 500 * Millisecond"
definition minRTOTimeout :: Duration where "minRTOTimeout = 200 * Millisecond"
definition maxRTOTimeout :: Duration where "maxRTOTimeout = 60000 * Millisecond"
definition maxTailLossProbes :: uint32 where "maxTailLossProbes = 2"
definition minRetransmissionTime :: Duration where "minRetransmissionTime = 200 * Millisecond"
definition minTailLossProbeTimeout :: Duration where "minTailLossProbeTimeout = 10 * Millisecond"

definition ErrDuplicateOrOutOfOrderAck :: go_error where
  "ErrDuplicateOrOutOfOrderAck = GoErr ''SentPacketHandler: Duplicate or out-of-order ACK''"

definition ErrTooManyTrackedSentPackets :: go_error where
  "ErrTooManyTrackedSentPackets = GoErr ''Too many outstanding non-acked and non-retransmitted packets''"

definition ErrAckForSkippedPacket :: go_error where
  "ErrAckForSkippedPacket = QuicError InvalidAckData ''Received an ACK for a skipped packet number''"

definition errAckForUnsentPacket :: go_error where
  "errAckForUnsentPacket = QuicError InvalidAckData ''Received ACK for an unsent package''"

definition errPacketNumberNotIncreasing :: go_error where
  "errPacketNumberNotIncreasing = GoErr ''Already sent a packet with a higher packet number''"

text \<open>The controller is given by the caller; without one it is the cubic sender.\<close>

definition NewSentPacketHandler :: "RTTStats \<Rightarrow> 'c \<Rightarrow> 'c sentPacketHandler" where
  "NewSentPacketHandler rttStats cong =
     \<lparr> sph_lastSentPacketNumber = 0, sph_skippedPackets = [], sph_numNonRetransmittablePackets = 0,
       sph_LargestAcked = 0, sph_largestReceivedPacketWithAck = 0, sph_packetHistory = [],
       sph_stopWaitingManager = \<lparr> swm_largestLeastUnackedSent = 0, swm_nextLeastUnacked = 0,
         swm_lastStopWaitingFrame = None \<rparr>,
       sph_retransmissionQueue = [], sph_bytesInFlight = 0, sph_congestion = cong,
       sph_rttStats = rttStats, sph_rtoCount = 0, sph_tlpCount = 0, sph_lossTime = 0,
       sph_lastSentTime = 0, sph_alarm = 0, sph_packets = 0, sph_retransmissions = 0, sph_losses = 0 \<rparr>"

definition GetStatistics :: "'c sentPacketHandler \<Rightarrow> uint64 \<times> uint64 \<times> uint64" where
  "GetStatistics h = (sph_packets h, sph_retransmissions h, sph_losses h)"

definition largestInOrderAcked :: "'c sentPacketHandler \<Rightarrow> PacketNumber" where
  "largestInOrderAcked h =
     (case sph_packetHistory h of [] \<Rightarrow> sph_LargestAcked h | f # _ \<Rightarrow> pk_PacketNumber f - 1)"

definition ShouldSendRetransmittablePacket :: "'c sentPacketHandler \<Rightarrow> bool" where
  "ShouldSendRetransmittablePacket h \<longleftrightarrow>
     sph_numNonRetransmittablePackets h \<ge> MaxNonRetransmittablePackets"

section \<open>The alarm\<close>

definition computeRTOTimeout :: "'c SendAlgorithm \<Rightarrow> 'c sentPacketHandler \<Rightarrow> Duration" where
  "computeRTOTimeout alg h =
     (let rto = RetransmissionDelay alg (sph_rttStats h) (sph_congestion h);
          rto = (if rto = 0 then defaultRTOTimeout else rto);
          rto = MaxDuration rto minRTOTimeout;
          rto = int64 (rto * 2 ^ unat (sph_rtoCount h))
      in MinDuration rto maxRTOTimeout)"

definition hasMultipleOutstandingRetransmittablePackets :: "'c sentPacketHandler \<Rightarrow> bool" where
  "hasMultipleOutstandingRetransmittablePackets h \<longleftrightarrow>
     (case sph_packetHistory h of _ # _ # _ \<Rightarrow> True | _ \<Rightarrow> False)"

definition computeTLPTimeout :: "'c SendAlgorithm \<Rightarrow> 'c sentPacketHandler \<Rightarrow> Duration" where
  "computeTLPTimeout alg h =
     (let rtt = SmoothedRTT alg (sph_rttStats h) (sph_congestion h)
      in if hasMultipleOutstandingRetransmittablePackets h
         then MaxDuration (int64 (2 * rtt)) (int64 (quot (int64 (rtt * 3)) 2 + quot minRetransmissionTime 2))
         else MaxDuration (int64 (2 * rtt)) minTailLossProbeTimeout)"

definition updateLossDetectionAlarm :: "'c SendAlgorithm \<Rightarrow> 'c sentPacketHandler \<Rightarrow> 'c sentPacketHandler" where
  "updateLossDetectionAlarm alg h =
     (if length (sph_packetHistory h) = 0 then h\<lparr> sph_alarm := 0 \<rparr>
      else if sph_lossTime h \<noteq> 0 then h\<lparr> sph_alarm := sph_lossTime h \<rparr>
      else if smoothedRTT (sph_rttStats h) \<noteq> 0 \<and> sph_tlpCount h < maxTailLossProbes
      then h\<lparr> sph_alarm := sph_lastSentTime h + computeTLPTimeout alg h \<rparr>
      else h\<lparr> sph_alarm := sph_lastSentTime h + MaxDuration (computeRTOTimeout alg h) minRetransmissionTime \<rparr>)"

section \<open>Sending\<close>

lemma unat_next: "p < q \<Longrightarrow> unat (p + 1) = Suc (unat p)" for p q :: PacketNumber
  using unsigned_less [where ?'a = nat, of q] by (simp add: word_less_nat_alt unat_word_ariths)

function skipLoop :: "PacketNumber \<Rightarrow> PacketNumber \<Rightarrow> PacketNumber list \<Rightarrow> PacketNumber list" where
  "skipLoop p packetNumber skipped =
     (if p < packetNumber
      then let skipped = skipped @ [p];
               skipped = (if length skipped > MaxTrackedSkippedPackets then tl skipped else skipped)
           in skipLoop (p + 1) packetNumber skipped
      else skipped)"
  by pat_completeness auto
termination
  by (relation "measure (\<lambda>(p, packetNumber, _). unat packetNumber - unat p)")
    (auto simp: unat_next word_less_nat_alt)

declare skipLoop.simps [simp del]

definition SentPacket :: "'c SendAlgorithm \<Rightarrow> Time \<Rightarrow> Packet \<Rightarrow> 'c sentPacketHandler
    \<Rightarrow> 'c sentPacketHandler \<times> go_error option" where
  "SentPacket alg now packet h =
     (if pk_PacketNumber packet \<le> sph_lastSentPacketNumber h then (h, Some errPacketNumberNotIncreasing)
      else if (of_nat (length (sph_retransmissionQueue h) + length (sph_packetHistory h) + 1) :: PacketNumber)
              > of_nat MaxTrackedSentPackets
      then (h, Some ErrTooManyTrackedSentPackets)
      else let h = h\<lparr> sph_skippedPackets := skipLoop (sph_lastSentPacketNumber h + 1)
                        (pk_PacketNumber packet) (sph_skippedPackets h),
                      sph_lastSentPacketNumber := pk_PacketNumber packet,
                      sph_packets := sph_packets h + 1,
                      sph_lastSentTime := now \<rparr>;
               packet = packet\<lparr> pk_Frames := stripNonRetransmittableFrames (pk_Frames packet) \<rparr>;
               isRetransmittable = (length (pk_Frames packet) \<noteq> 0);
               h = (if isRetransmittable
                    then h\<lparr> sph_bytesInFlight := sph_bytesInFlight h + pk_Length packet,
                            sph_packetHistory := sph_packetHistory h @ [packet\<lparr> pk_SendTime := now \<rparr>],
                            sph_numNonRetransmittablePackets := 0 \<rparr>
                    else h\<lparr> sph_numNonRetransmittablePackets :=
                              int64 (sph_numNonRetransmittablePackets h + 1) \<rparr>);
               h = h\<lparr> sph_congestion := OnPacketSent alg now (sph_bytesInFlight h)
                        (pk_PacketNumber packet) (pk_Length packet) isRetransmittable (sph_congestion h) \<rparr>
           in (updateLossDetectionAlarm alg h, None))"

section \<open>Packets that are queued again\<close>

definition queuePacketForRetransmission :: "Packet \<Rightarrow> 'c sentPacketHandler \<Rightarrow> 'c sentPacketHandler" where
  "queuePacketForRetransmission packet h =
     h\<lparr> sph_bytesInFlight := sph_bytesInFlight h - pk_Length packet,
        sph_retransmissionQueue := sph_retransmissionQueue h @ [packet],
        sph_packetHistory := remove1 packet (sph_packetHistory h),
        sph_stopWaitingManager :=
          QueuedRetransmissionForPacketNumber (pk_PacketNumber packet) (sph_stopWaitingManager h) \<rparr>"

text \<open>The loop over the lost packets at the end of \<open>detectLostPackets\<close> and \<open>SetInflightAsLost\<close>.\<close>

fun queueLost :: "'c SendAlgorithm \<Rightarrow> Packet list \<Rightarrow> 'c sentPacketHandler \<Rightarrow> 'c sentPacketHandler" where
  "queueLost alg [] h = h"
| "queueLost alg (p # ps) h =
     (let h = queuePacketForRetransmission p h
      in queueLost alg ps (h\<lparr> sph_congestion := OnPacketLost alg (sph_rttStats h)
           (pk_PacketNumber p) (pk_Length p) (sph_bytesInFlight h) (sph_congestion h) \<rparr>))"

definition delayUntilLost :: "RTTStats \<Rightarrow> Duration" where
  "delayUntilLost rtt =
     (let maxRTT = f64 (of_int (MaxDuration (latestRTT rtt) (smoothedRTT rtt)))
      in toInt64 (f64 ((1 + timeReorderingFraction) * maxRTT)))"

text \<open>The loop over the history: the new loss time and the lost packets.\<close>

fun lostLoop :: "Time \<Rightarrow> Duration \<Rightarrow> PacketNumber \<Rightarrow> Time \<Rightarrow> Packet list \<Rightarrow> Time \<times> Packet list" where
  "lostLoop now delay largestAcked lossTime [] = (lossTime, [])"
| "lostLoop now delay largestAcked lossTime (packet # ps) =
     (if pk_PacketNumber packet > largestAcked then (lossTime, [])
      else let timeSinceSent = timeSub now (pk_SendTime packet)
           in if timeSinceSent > delay
              then (case lostLoop now delay largestAcked lossTime ps of (t, lost) \<Rightarrow> (t, packet # lost))
              else lostLoop now delay largestAcked
                     (if lossTime = 0 then now + int64 (delay - timeSinceSent) else lossTime) ps)"

definition detectLostPackets :: "'c SendAlgorithm \<Rightarrow> Time \<Rightarrow> 'c sentPacketHandler \<Rightarrow> 'c sentPacketHandler" where
  "detectLostPackets alg now h =
     (case lostLoop now (delayUntilLost (sph_rttStats h)) (sph_LargestAcked h) 0 (sph_packetHistory h) of
        (lossTime, lostPackets) \<Rightarrow>
          queueLost alg lostPackets (h\<lparr> sph_lossTime := lossTime,
            sph_losses := sph_losses h + of_nat (length lostPackets) \<rparr>))"

definition SetInflightAsLost :: "'c SendAlgorithm \<Rightarrow> 'c sentPacketHandler \<Rightarrow> 'c sentPacketHandler" where
  "SetInflightAsLost alg h =
     (let lostPackets = takeWhile (\<lambda>p. \<not> pk_PacketNumber p > sph_LargestAcked h) (sph_packetHistory h)
      in queueLost alg lostPackets (h\<lparr> sph_losses := sph_losses h + of_nat (length lostPackets) \<rparr>))"

definition queueRTO :: "'c SendAlgorithm \<Rightarrow> Packet \<Rightarrow> 'c sentPacketHandler \<Rightarrow> 'c sentPacketHandler" where
  "queueRTO alg packet h =
     (let h = queuePacketForRetransmission packet h;
          h = h\<lparr> sph_losses := sph_losses h + 1 \<rparr>
      in h\<lparr> sph_congestion := OnPacketLost alg (sph_rttStats h) (pk_PacketNumber packet)
              (pk_Length packet) (sph_bytesInFlight h) (sph_congestion h) \<rparr>)"

lemma queueRTO_history [simp]:
  "sph_packetHistory (queueRTO alg p h) = remove1 p (sph_packetHistory h)"
  by (simp add: queueRTO_def queuePacketForRetransmission_def Let_def)

definition retransmitTLP :: "'c sentPacketHandler \<Rightarrow> 'c sentPacketHandler" where
  "retransmitTLP h =
     (if sph_packetHistory h \<noteq> [] then queuePacketForRetransmission (last (sph_packetHistory h)) h else h)"

function retransmitAllLoop :: "'c SendAlgorithm \<Rightarrow> 'c sentPacketHandler \<Rightarrow> 'c sentPacketHandler" where
  "retransmitAllLoop alg h =
     (case sph_packetHistory h of
        [] \<Rightarrow> h
      | p # _ \<Rightarrow> retransmitAllLoop alg (queueRTO alg p h))"
  by pat_completeness auto
termination
  by (relation "measure (\<lambda>(_, h). length (sph_packetHistory h))") auto

declare retransmitAllLoop.simps [simp del]

definition timeoutRetransmission :: "'c SendAlgorithm \<Rightarrow> 'c sentPacketHandler \<Rightarrow> 'c sentPacketHandler" where
  "timeoutRetransmission alg h =
     h\<lparr> sph_congestion := OnRetransmissionTimeout alg (sph_rttStats h) True (sph_congestion h) \<rparr>"

definition retransmitAllPackets :: "'c SendAlgorithm \<Rightarrow> 'c sentPacketHandler \<Rightarrow> 'c sentPacketHandler" where
  "retransmitAllPackets alg h = timeoutRetransmission alg (retransmitAllLoop alg h)"

definition retransmitOldestPacket :: "'c SendAlgorithm \<Rightarrow> 'c sentPacketHandler \<Rightarrow> 'c sentPacketHandler" where
  "retransmitOldestPacket alg h =
     (case sph_packetHistory h of [] \<Rightarrow> h | p # _ \<Rightarrow> queueRTO alg p h)"

definition retransmitOldestTwoPackets :: "'c SendAlgorithm \<Rightarrow> 'c sentPacketHandler \<Rightarrow> 'c sentPacketHandler" where
  "retransmitOldestTwoPackets alg h =
     timeoutRetransmission alg (retransmitOldestPacket alg (retransmitOldestPacket alg h))"

definition hasOutstandingRetransmittablePacket :: "'c sentPacketHandler \<Rightarrow> bool" where
  "hasOutstandingRetransmittablePacket h = list_ex IsRetransmittable (sph_packetHistory h)"

definition OnAlarm :: "'c SendAlgorithm \<Rightarrow> (Time \<Rightarrow> bool) option \<Rightarrow> Time \<Rightarrow> 'c sentPacketHandler
    \<Rightarrow> 'c sentPacketHandler" where
  "OnAlarm alg onRTOCallback now h =
     (if \<not> hasOutstandingRetransmittablePacket h then h\<lparr> sph_alarm := 0 \<rparr>
      else updateLossDetectionAlarm alg
        (if sph_lossTime h \<noteq> 0 then detectLostPackets alg now h
         else if sph_tlpCount h < maxTailLossProbes
         then let h = retransmitTLP h in h\<lparr> sph_tlpCount := sph_tlpCount h + 1 \<rparr>
         else let potentiallyFailed =
                    (case onRTOCallback of None \<Rightarrow> False | Some f \<Rightarrow> f (sph_lastSentTime h));
                  h = (if potentiallyFailed then retransmitAllPackets alg h
                       else retransmitOldestTwoPackets alg h)
              in h\<lparr> sph_rtoCount := sph_rtoCount h + 1 \<rparr>))"

definition GetAlarmTimeout :: "'c sentPacketHandler \<Rightarrow> Time" where
  "GetAlarmTimeout h = sph_alarm h"

definition DequeuePacketForRetransmission ::
  "'c sentPacketHandler \<Rightarrow> Packet option \<times> 'c sentPacketHandler" where
  "DequeuePacketForRetransmission h =
     (case sph_retransmissionQueue h of
        [] \<Rightarrow> (None, h)
      | packet # ps \<Rightarrow> (Some packet, h\<lparr> sph_retransmissionQueue := ps,
                           sph_retransmissions := sph_retransmissions h + 1 \<rparr>))"

definition DuplicatePacket :: "Packet \<Rightarrow> 'c sentPacketHandler \<Rightarrow> 'c sentPacketHandler" where
  "DuplicatePacket packet h =
     h\<lparr> sph_retransmissionQueue := sph_retransmissionQueue h @ [packet] \<rparr>"

section \<open>Receiving acknowledgements\<close>

definition onPacketAcked :: "Packet \<Rightarrow> 'c sentPacketHandler \<Rightarrow> 'c sentPacketHandler" where
  "onPacketAcked packet h =
     h\<lparr> sph_bytesInFlight := sph_bytesInFlight h - pk_Length packet, sph_rtoCount := 0,
        sph_tlpCount := 0, sph_packetHistory := remove1 packet (sph_packetHistory h) \<rparr>"

text \<open>The loop over the acknowledged packets; \<open>clock\<close> is the controller's clock at each of them.\<close>

fun ackPackets :: "'c SendAlgorithm \<Rightarrow> (PacketNumber \<Rightarrow> Time) \<Rightarrow> Packet list \<Rightarrow> 'c sentPacketHandler
    \<Rightarrow> 'c sentPacketHandler" where
  "ackPackets alg clock [] h = h"
| "ackPackets alg clock (p # ps) h =
     (let h = onPacketAcked p h
      in ackPackets alg clock ps (h\<lparr> sph_congestion := OnPacketAcked alg (sph_rttStats h)
           (clock (pk_PacketNumber p)) (pk_PacketNumber p) (pk_Length p) (sph_bytesInFlight h)
           (sph_congestion h) \<rparr>))"

text \<open>
  The ranges of a frame are walked from the last, the lowest, to the first: the list holds the
  current one and those still to come. They are used only when the frame has missing ranges.
\<close>

fun advanceRange :: "PacketNumber \<Rightarrow> AckRange list \<Rightarrow> AckRange list" where
  "advanceRange packetNumber [] = []"
| "advanceRange packetNumber (ackRange # rs) =
     (if packetNumber > ar_Last ackRange \<and> rs \<noteq> [] then advanceRange packetNumber rs
      else ackRange # rs)"

definition wrongPacket :: "string \<Rightarrow> PacketNumber \<Rightarrow> AckRange \<Rightarrow> go_error" where
  "wrongPacket suffix packetNumber ackRange =
     GoErr (''BUG: ackhandler would have acked wrong packet 0x'' @ formatBase 16 (unat packetNumber)
       @ '', while evaluating range 0x'' @ formatBase 16 (unat (ar_First ackRange))
       @ '' -> 0x'' @ formatBase 16 (unat (ar_Last ackRange)) @ suffix)"

fun newlyAcked :: "string \<Rightarrow> PacketNumber \<Rightarrow> PacketNumber \<Rightarrow> AckRange list \<Rightarrow> Packet list
    \<Rightarrow> go_error + Packet list" where
  "newlyAcked suffix lowestAcked largestAcked ranges [] = Inr []"
| "newlyAcked suffix lowestAcked largestAcked ranges (el # els) =
     (let packetNumber = pk_PacketNumber el
      in if packetNumber < lowestAcked then newlyAcked suffix lowestAcked largestAcked ranges els
         else if packetNumber > largestAcked then Inr []
         else case advanceRange packetNumber ranges of
                [] \<Rightarrow> okThen (newlyAcked suffix lowestAcked largestAcked [] els) (\<lambda>acked. Inr (el # acked))
              | ackRange # rs \<Rightarrow>
                  if packetNumber \<ge> ar_First ackRange
                  then if packetNumber > ar_Last ackRange then Inl (wrongPacket suffix packetNumber ackRange)
                       else okThen (newlyAcked suffix lowestAcked largestAcked (ackRange # rs) els)
                              (\<lambda>acked. Inr (el # acked))
                  else newlyAcked suffix lowestAcked largestAcked (ackRange # rs) els)"

definition determineNewlyAckedPackets :: "AckFrame \<Rightarrow> 'c sentPacketHandler \<Rightarrow> go_error + Packet list" where
  "determineNewlyAckedPackets f h =
     newlyAcked [] (ack_LowestAcked f) (ack_LargestAcked f)
       (if HasMissingRanges (ack_AckRanges f) then rev (ack_AckRanges f) else []) (sph_packetHistory h)"

definition determineNewlyAckedPacketsClosePath ::
  "ClosePathFrame \<Rightarrow> 'c sentPacketHandler \<Rightarrow> go_error + Packet list" where
  "determineNewlyAckedPacketsClosePath f h =
     newlyAcked '' with ClosePath frame'' (cpf_LowestAcked f) (cpf_LargestAcked f)
       (if HasMissingRanges (cpf_AckRanges f) then rev (cpf_AckRanges f) else []) (sph_packetHistory h)"

fun findAcked :: "PacketNumber \<Rightarrow> Packet list \<Rightarrow> Packet option" where
  "findAcked largestAcked [] = None"
| "findAcked largestAcked (packet # ps) =
     (if pk_PacketNumber packet = largestAcked then Some packet
      else if pk_PacketNumber packet > largestAcked then None
      else findAcked largestAcked ps)"

definition maybeUpdateRTT :: "PacketNumber \<Rightarrow> Duration \<Rightarrow> Time \<Rightarrow> Time \<Rightarrow> 'c sentPacketHandler
    \<Rightarrow> bool \<times> 'c sentPacketHandler" where
  "maybeUpdateRTT largestAcked ackDelay rcvTime now h =
     (case findAcked largestAcked (sph_packetHistory h) of
        None \<Rightarrow> (False, h)
      | Some packet \<Rightarrow>
          (True, h\<lparr> sph_rttStats :=
             UpdateRTT (timeSub rcvTime (pk_SendTime packet)) ackDelay now (sph_rttStats h) \<rparr>))"

definition skippedPacketsAcked :: "AckFrame \<Rightarrow> 'c sentPacketHandler \<Rightarrow> bool" where
  "skippedPacketsAcked f h = list_ex (AckFrame_AcksPacket f) (sph_skippedPackets h)"

definition skippedPacketsAckedClosePath :: "ClosePathFrame \<Rightarrow> 'c sentPacketHandler \<Rightarrow> bool" where
  "skippedPacketsAckedClosePath f h = list_ex (ClosePathFrame_AcksPacket f) (sph_skippedPackets h)"

definition garbageCollectSkippedPackets :: "'c sentPacketHandler \<Rightarrow> 'c sentPacketHandler" where
  "garbageCollectSkippedPackets h =
     (let lioa = largestInOrderAcked h;
          deleteIndex = fold (\<lambda>(i, p) d. if p \<le> lioa then i + 1 else d)
                          (enumerate 0 (sph_skippedPackets h)) 0
      in h\<lparr> sph_skippedPackets := drop deleteIndex (sph_skippedPackets h) \<rparr>)"

text \<open>
  The clock is read for the RTT statistics, by the controller for every acknowledged packet, and
  for the detection of lost packets.
\<close>

record ackClock =
  clk_rtt :: Time
  clk_acked :: "PacketNumber \<Rightarrow> Time"
  clk_loss :: Time

definition ReceivedAck :: "'c SendAlgorithm \<Rightarrow> ackClock \<Rightarrow> AckFrame \<Rightarrow> PacketNumber \<Rightarrow> Time
    \<Rightarrow> 'c sentPacketHandler \<Rightarrow> 'c sentPacketHandler \<times> go_error option" where
  "ReceivedAck alg clk f withPacketNumber rcvTime h =
     (if ack_LargestAcked f > sph_lastSentPacketNumber h then (h, Some errAckForUnsentPacket)
      else if withPacketNumber \<le> sph_largestReceivedPacketWithAck h
      then (h, Some ErrDuplicateOrOutOfOrderAck)
      else let h = h\<lparr> sph_largestReceivedPacketWithAck := withPacketNumber \<rparr>
           in if ack_LargestAcked f \<le> largestInOrderAcked h then (h, None)
              else let h = h\<lparr> sph_LargestAcked := ack_LargestAcked f \<rparr>
                   in if skippedPacketsAcked f h then (h, Some ErrAckForSkippedPacket)
                      else let (rttUpdated, h) = maybeUpdateRTT (ack_LargestAcked f) (ack_DelayTime f) rcvTime (clk_rtt clk) h;
                               h = (if rttUpdated
                                    then h\<lparr> sph_congestion := MaybeExitSlowStart alg (sph_rttStats h) (sph_congestion h) \<rparr>
                                    else h)
                           in case determineNewlyAckedPackets f h of
                                Inl e \<Rightarrow> (h, Some e)
                              | Inr ackedPackets \<Rightarrow>
                                  let h = ackPackets alg (clk_acked clk) ackedPackets h;
                                      h = detectLostPackets alg (clk_loss clk) h;
                                      h = updateLossDetectionAlarm alg h;
                                      h = garbageCollectSkippedPackets h
                                  in (h\<lparr> sph_stopWaitingManager := swm_ReceivedAck f (sph_stopWaitingManager h) \<rparr>, None))"

definition ReceivedClosePath :: "'c SendAlgorithm \<Rightarrow> (PacketNumber \<Rightarrow> Time) \<Rightarrow> ClosePathFrame \<Rightarrow> PacketNumber
    \<Rightarrow> 'c sentPacketHandler \<Rightarrow> 'c sentPacketHandler \<times> go_error option" where
  "ReceivedClosePath alg clock f withPacketNumber h =
     (if cpf_LargestAcked f > sph_lastSentPacketNumber h then (h, Some errAckForUnsentPacket)
      else if withPacketNumber \<le> sph_largestReceivedPacketWithAck h
      then (h, Some ErrDuplicateOrOutOfOrderAck)
      else let h = h\<lparr> sph_largestReceivedPacketWithAck := withPacketNumber \<rparr>
           in if skippedPacketsAckedClosePath f h then (h, Some ErrAckForSkippedPacket)
              else case determineNewlyAckedPacketsClosePath f h of
                     Inl e \<Rightarrow> (h, Some e)
                   | Inr ackedPackets \<Rightarrow>
                       let h = ackPackets alg clock ackedPackets h;
                           h = SetInflightAsLost alg h
                       in (garbageCollectSkippedPackets h, None))"

definition GetLeastUnacked :: "'c sentPacketHandler \<Rightarrow> PacketNumber" where
  "GetLeastUnacked h = largestInOrderAcked h + 1"

definition GetStopWaitingFrame ::
  "bool \<Rightarrow> 'c sentPacketHandler \<Rightarrow> StopWaitingFrame option \<times> 'c sentPacketHandler" where
  "GetStopWaitingFrame force h =
     (case swm_GetStopWaitingFrame force (sph_stopWaitingManager h) of
        (f, s) \<Rightarrow> (f, h\<lparr> sph_stopWaitingManager := s \<rparr>))"

definition SendingAllowed :: "'c SendAlgorithm \<Rightarrow> 'c sentPacketHandler \<Rightarrow> bool" where
  "SendingAllowed alg h =
     (let congestionLimited = (sph_bytesInFlight h > GetCongestionWindow alg (sph_congestion h));
          maxTrackedLimited = ((of_nat (length (sph_retransmissionQueue h) + length (sph_packetHistory h)) :: PacketNumber)
                                \<ge> of_nat MaxTrackedSentPackets);
          haveRetransmissions = (length (sph_retransmissionQueue h) > 0)
      in \<not> maxTrackedLimited \<and> (\<not> congestionLimited \<or> haveRetransmissions))"

end
