(* ===== verification/SentTracking.thy ===== *)
theory SentTracking
  imports SentHandler
begin

text \<open>
  What the sent packet handler guarantees for every congestion controller: an ACK removes
  exactly the packets it acknowledges, every packet sent is accounted for, the bytes in flight
  are those of the packets in the history, and the alarm leads to retransmissions.
\<close>

section \<open>Acknowledged packets\<close>

definition ascending :: "AckRange list \<Rightarrow> bool" where
  "ascending rs \<longleftrightarrow> (\<forall>r \<in> set rs. ar_First r \<le> ar_Last r) \<and> sorted_wrt (\<lambda>a b. ar_Last a < ar_First b) rs"

lemma desc_sorted: "desc rs \<Longrightarrow> sorted_wrt (\<lambda>a b. ar_Last b < ar_First a) rs"
proof (induction rs)
  case (Cons a rs)
  have "desc rs" using Cons.prems by (cases rs) auto
  moreover have "\<forall>b \<in> set rs. ar_Last b < ar_First a"
    using desc_below [OF Cons.prems] by (auto simp: word_less_nat_alt dest: Suc_lessD)
  ultimately show ?case using Cons.IH by simp
qed simp

lemma desc_ascending: "desc rs \<Longrightarrow> ascending (rev rs)"
  using desc_sorted desc_mem by (auto simp: ascending_def sorted_wrt_rev)

lemma advanceRange_split:
  assumes "ascending rs" "rs \<noteq> []" "n \<le> ar_Last (last rs)"
  obtains pre r rs' where "rs = pre @ r # rs'" "advanceRange n rs = r # rs'"
    "\<forall>b \<in> set pre. ar_Last b < n" "n \<le> ar_Last r"
proof -
  have "\<exists>pre r rs'. rs = pre @ r # rs' \<and> advanceRange n rs = r # rs'
    \<and> (\<forall>b \<in> set pre. ar_Last b < n) \<and> n \<le> ar_Last r"
    using assms
  proof (induction rs)
    case (Cons a rs)
    show ?case
    proof (cases "ar_Last a < n \<and> rs \<noteq> []")
      case True
      then obtain pre r rs' where "rs = pre @ r # rs'" "advanceRange n rs = r # rs'"
        "\<forall>b \<in> set pre. ar_Last b < n" "n \<le> ar_Last r"
        using Cons by (auto simp: ascending_def)
      then show ?thesis using True by (intro exI [of _ "a # pre"] exI [of _ r] exI [of _ rs']) auto
    next
      case False
      then have "n \<le> ar_Last a" using Cons.prems(3) by (cases rs) (auto simp: linorder_not_less)
      then show ?thesis using False by (intro exI [of _ "[]"]) auto
    qed
  qed simp
  then show thesis using that by blast
qed

lemma newlyAcked_ranges:
  assumes "sorted_wrt (<) (map pk_PacketNumber els)" "ascending rs" "rs \<noteq> []" "ar_Last (last rs) = largest"
  shows "newlyAcked suffix lowest largest rs els =
    Inr (filter (\<lambda>p. lowest \<le> pk_PacketNumber p \<and> pk_PacketNumber p \<le> largest
      \<and> (\<exists>b \<in> set rs. ar_First b \<le> pk_PacketNumber p \<and> pk_PacketNumber p \<le> ar_Last b)) els)"
  using assms
proof (induction els arbitrary: rs)
  case (Cons el els)
  let ?n = "pk_PacketNumber el"
  have later: "?n < pk_PacketNumber p" if "p \<in> set els" for p using Cons.prems(1) that by auto
  consider (low) "?n < lowest" | (high) "lowest \<le> ?n" "largest < ?n" | (mid) "lowest \<le> ?n" "?n \<le> largest"
    by force
  then show ?case
  proof cases
    case low
    then show ?thesis using Cons by (auto simp: Let_def linorder_not_le [symmetric])
  next
    case high
    then have "largest < pk_PacketNumber p" if "p \<in> set els" for p using later [OF that] by simp
    moreover have "\<not> ?n < lowest" using high by (simp add: linorder_not_less)
    ultimately show ?thesis using high by (auto simp: Let_def filter_empty_conv linorder_not_le)
  next
    case mid
    obtain pre r rs' where s: "rs = pre @ r # rs'" "advanceRange ?n rs = r # rs'"
      "\<forall>b \<in> set pre. ar_Last b < ?n" "?n \<le> ar_Last r"
      using advanceRange_split [OF Cons.prems(2,3)] mid(2) Cons.prems(4) by metis
    let ?P = "\<lambda>rs p. lowest \<le> pk_PacketNumber p \<and> pk_PacketNumber p \<le> largest
      \<and> (\<exists>b \<in> set rs. ar_First b \<le> pk_PacketNumber p \<and> pk_PacketNumber p \<le> ar_Last b)"
    have asc: "ascending (r # rs')" "ar_Last (last (r # rs')) = largest"
      using Cons.prems(2,4) s(1) by (auto simp: ascending_def sorted_wrt_append)
    have out: "\<not> pk_PacketNumber p \<le> ar_Last b" if "b \<in> set pre" "p \<in> set (el # els)" for b p
      using s(3) that later by (fastforce simp: linorder_not_le)
    have eq: "?P rs p \<longleftrightarrow> ?P (r # rs') p" if "p \<in> set (el # els)" for p
      using out [OF _ that] by (auto simp: s(1))
    have "newlyAcked suffix lowest largest (r # rs') els = Inr (filter (?P (r # rs')) els)"
      using Cons.IH [OF _ asc(1) _ asc(2)] Cons.prems(1) by simp
    moreover have "filter (?P rs) els = filter (?P (r # rs')) els"
      by (rule filter_cong [OF refl]) (rule eq, simp)
    moreover have "?P rs el \<longleftrightarrow> ar_First r \<le> ?n"
    proof -
      have "\<not> ar_First b \<le> ?n" if "b \<in> set rs'" for b
        using asc(1) that s(4) by (auto simp: ascending_def linorder_not_le)
      then show ?thesis using eq [of el] mid s(4) by auto
    qed
    moreover have "\<not> ?n < lowest" "\<not> largest < ?n" "\<not> ar_Last r < ?n"
      using mid s(4) by (simp_all add: linorder_not_less)
    ultimately show ?thesis using s(2) by (simp add: Let_def)
  qed
qed simp

lemma newlyAcked_all:
  assumes "sorted_wrt (<) (map pk_PacketNumber els)"
  shows "newlyAcked suffix lowest largest [] els =
    Inr (filter (\<lambda>p. lowest \<le> pk_PacketNumber p \<and> pk_PacketNumber p \<le> largest) els)"
  using assms
proof (induction els)
  case (Cons el els)
  have "pk_PacketNumber el < pk_PacketNumber p" if "p \<in> set els" for p using Cons.prems that by auto
  then have "largest < pk_PacketNumber el \<Longrightarrow> \<forall>p \<in> set els. largest < pk_PacketNumber p" by force
  then show ?case using Cons by (auto simp: Let_def filter_empty_conv linorder_not_less linorder_not_le)
qed simp

lemma newlyAcked_exact:
  assumes "sorted_wrt (<) (map pk_PacketNumber els)" "ackRanges_wf largest lowest ranges"
  shows "newlyAcked suffix lowest largest (if HasMissingRanges ranges then rev ranges else []) els =
    Inr (filter (\<lambda>p. acksPacket largest lowest ranges (pk_PacketNumber p)) els)"
proof (cases "ranges = []")
  case True
  then show ?thesis using newlyAcked_all [OF assms(1)]
    by (simp add: HasMissingRanges_def acksPacket_def linorder_not_less)
next
  case False
  then have d: "desc ranges" "ar_Last (last (rev ranges)) = largest"
    using assms(2) by (auto simp: ackRanges_wf_def last_rev)
  have "acksPacket largest lowest ranges n \<longleftrightarrow> lowest \<le> n \<and> n \<le> largest
      \<and> (\<exists>b \<in> set ranges. ar_First b \<le> n \<and> n \<le> ar_Last b)" for n
    using False by (auto simp: acksPacket_def HasMissingRanges_def inRanges_iff linorder_not_less)
  then show ?thesis using newlyAcked_ranges [OF assms(1) desc_ascending [OF d(1)] _ d(2)] False
    by (simp add: HasMissingRanges_def)
qed

section \<open>Packets that change their place\<close>

definition inFlight :: "Packet list \<Rightarrow> ByteCount" where
  "inFlight ps = (\<Sum>p \<leftarrow> ps. pk_Length p)"

definition removePackets :: "Packet list \<Rightarrow> Packet list \<Rightarrow> Packet list" where
  "removePackets ps xs = fold remove1 ps xs"

lemma removePackets_simps [simp]:
  "removePackets [] xs = xs" "removePackets (p # ps) xs = removePackets ps (remove1 p xs)"
  "removePackets (ps @ qs) xs = removePackets qs (removePackets ps xs)"
  by (simp_all add: removePackets_def)

lemma mset_removePackets [simp]: "mset (removePackets ps xs) = mset xs - mset ps"
  by (induction ps arbitrary: xs) (simp_all add: diff_diff_add)

lemma set_removePackets: "set (removePackets ps xs) \<subseteq> set xs"
  by (metis mset_removePackets diff_subset_eq_self set_mset_mono set_mset_mset)

lemma length_removePackets: "length (removePackets ps xs) \<le> length xs"
  by (metis mset_removePackets diff_subset_eq_self size_mset size_mset_mono)

lemma sorted_wrt_remove1: "sorted_wrt R xs \<Longrightarrow> sorted_wrt R (remove1 x xs)"
  by (induction xs) (auto dest: notin_set_remove1)

lemma sorted_wrt_removePackets: "sorted_wrt R xs \<Longrightarrow> sorted_wrt R (removePackets ps xs)"
  by (induction ps arbitrary: xs) (auto intro: sorted_wrt_remove1)

lemma inFlight_simps [simp]:
  "inFlight [] = 0" "inFlight (p # ps) = pk_Length p + inFlight ps"
  "inFlight (ps @ qs) = inFlight ps + inFlight qs"
  by (simp_all add: inFlight_def)

lemma inFlight_mset: "mset xs = mset ys + mset zs \<Longrightarrow> inFlight xs = inFlight ys + inFlight zs"
  unfolding inFlight_def by (metis mset_append mset_map sum_list_append sum_mset_sum_list map_append)

lemma inFlight_removePackets:
  "mset ps \<subseteq># mset xs \<Longrightarrow> inFlight (removePackets ps xs) = inFlight xs - inFlight ps"
  using inFlight_mset [of xs "removePackets ps xs" ps] by simp

text \<open>The packets \<open>ps\<close> leave the history, and are queued again.\<close>

definition requeued :: "Packet list \<Rightarrow> 'c sentPacketHandler \<Rightarrow> 'c sentPacketHandler \<Rightarrow> bool" where
  "requeued ps h h' \<longleftrightarrow>
     mset ps \<subseteq># mset (sph_packetHistory h)
     \<and> sph_packetHistory h' = removePackets ps (sph_packetHistory h)
     \<and> sph_retransmissionQueue h' = sph_retransmissionQueue h @ ps
     \<and> sph_bytesInFlight h' = sph_bytesInFlight h - inFlight ps
     \<and> sph_lastSentPacketNumber h' = sph_lastSentPacketNumber h"

lemma requeued_refl: "sph_packetHistory h' = sph_packetHistory h \<Longrightarrow>
    sph_retransmissionQueue h' = sph_retransmissionQueue h \<Longrightarrow> sph_bytesInFlight h' = sph_bytesInFlight h \<Longrightarrow>
    sph_lastSentPacketNumber h' = sph_lastSentPacketNumber h \<Longrightarrow> requeued [] h h'"
  by (simp add: requeued_def)

lemma requeued_trans: "requeued ps h h' \<Longrightarrow> requeued qs h' h'' \<Longrightarrow> requeued (ps @ qs) h h''"
  by (auto simp: requeued_def subset_mset.le_diff_conv2 add.commute diff_diff_add)

text \<open>Fields that do not matter here.\<close>

lemma requeued_fields [simp]:
  "requeued ps h (h'\<lparr> sph_congestion := c \<rparr>) = requeued ps h h'"
  "requeued ps h (h'\<lparr> sph_alarm := t \<rparr>) = requeued ps h h'"
  "requeued ps h (h'\<lparr> sph_losses := n \<rparr>) = requeued ps h h'"
  "requeued ps h (h'\<lparr> sph_lossTime := t \<rparr>) = requeued ps h h'"
  "requeued ps h (h'\<lparr> sph_tlpCount := k \<rparr>) = requeued ps h h'"
  "requeued ps h (h'\<lparr> sph_rtoCount := k \<rparr>) = requeued ps h h'"
  "requeued ps (h\<lparr> sph_lossTime := t \<rparr>) h' = requeued ps h h'"
  "requeued ps (h\<lparr> sph_losses := n \<rparr>) h' = requeued ps h h'"
  "requeued ps (h\<lparr> sph_congestion := c \<rparr>) h' = requeued ps h h'"
  by (simp_all add: requeued_def)

lemma requeued_one:
  "p \<in> set (sph_packetHistory h) \<Longrightarrow> requeued [p] h (queuePacketForRetransmission p h)"
  by (simp add: requeued_def queuePacketForRetransmission_def)

lemma requeued_queueLost:
  "mset ps \<subseteq># mset (sph_packetHistory h) \<Longrightarrow> requeued ps h (queueLost alg ps h)"
proof (induction ps arbitrary: h)
  case (Cons p ps)
  let ?h = "queuePacketForRetransmission p h"
  have p: "p \<in> set (sph_packetHistory h)" using Cons.prems by (auto dest: mset_subset_eqD)
  have "mset ps \<subseteq># mset (sph_packetHistory ?h)"
    using Cons.prems by (simp add: queuePacketForRetransmission_def insert_subset_eq_iff)
  then have "requeued ps ?h (queueLost alg (p # ps) h)"
    using Cons.IH [of "?h\<lparr> sph_congestion := c \<rparr>" for c] by (simp add: Let_def)
  from requeued_trans [OF requeued_one [OF p] this] show ?case by simp
qed (simp add: requeued_def)

lemma lostLoop_lost: "mset (snd (lostLoop now delay largest t ps)) \<subseteq># mset ps"
  by (induction now delay largest t ps rule: lostLoop.induct)
    (auto simp: Let_def subset_mset.add_increasing2 split: prod.split intro: subset_mset.order_trans)

lemma requeued_detect: "\<exists>ps. requeued ps h (detectLostPackets alg now h)"
proof -
  obtain t lost where l: "lostLoop now (delayUntilLost (sph_rttStats h)) (sph_LargestAcked h) 0
      (sph_packetHistory h) = (t, lost)" by fastforce
  then have "mset lost \<subseteq># mset (sph_packetHistory h)" using lostLoop_lost by (metis snd_conv)
  then show ?thesis using requeued_queueLost [of lost "h\<lparr> sph_lossTime := t,
      sph_losses := sph_losses h + of_nat (length lost) \<rparr>" alg] l
    by (intro exI [of _ lost]) (simp add: detectLostPackets_def)
qed

lemma requeued_inflight: "\<exists>ps. requeued ps h (SetInflightAsLost alg h)"
proof -
  define lost where "lost = takeWhile (\<lambda>p. \<not> pk_PacketNumber p > sph_LargestAcked h) (sph_packetHistory h)"
  have "mset lost \<subseteq># mset (sph_packetHistory h)"
    unfolding lost_def by (metis takeWhile_dropWhile_id mset_append mset_subset_eq_add_left)
  then show ?thesis
    using requeued_queueLost [of lost "h\<lparr> sph_losses := sph_losses h + of_nat (length lost) \<rparr>" alg]
    unfolding SetInflightAsLost_def Let_def lost_def [symmetric] by (intro exI [of _ lost]) simp
qed

lemma requeued_RTO: "p \<in> set (sph_packetHistory h) \<Longrightarrow> requeued [p] h (queueRTO alg p h)"
  using requeued_one [of p h] by (simp add: queueRTO_def Let_def)

lemma requeued_all: "requeued (sph_packetHistory h) h (retransmitAllLoop alg h)"
proof (induction alg h rule: retransmitAllLoop.induct)
  case (1 alg h)
  show ?case
  proof (cases "sph_packetHistory h")
    case Nil
    then show ?thesis by (simp add: retransmitAllLoop.simps requeued_def)
  next
    case (Cons p ps)
    then have "requeued ps (queueRTO alg p h) (retransmitAllLoop alg h)"
      using 1 [OF Cons] by (subst retransmitAllLoop.simps) simp
    from requeued_trans [OF requeued_RTO this] show ?thesis using Cons by simp
  qed
qed

lemma requeued_oldest: "\<exists>ps. requeued ps h (retransmitOldestPacket alg h)"
proof (cases "sph_packetHistory h")
  case (Cons p ps)
  then show ?thesis using requeued_RTO [of p h alg] by (auto simp: retransmitOldestPacket_def)
qed (auto simp: retransmitOldestPacket_def intro!: exI [of _ "[]"] requeued_refl)

lemma requeued_timeout [simp]: "requeued ps h (timeoutRetransmission alg h') = requeued ps h h'"
  by (simp add: timeoutRetransmission_def)

lemma requeued_alarm [simp]: "requeued ps h (updateLossDetectionAlarm alg h') = requeued ps h h'"
  by (simp add: updateLossDetectionAlarm_def)

lemma requeued_OnAlarm: "\<exists>ps. requeued ps h (OnAlarm alg cb now h)"
proof -
  have tlp: "\<exists>ps. requeued ps h (retransmitTLP h)"
    using requeued_one [of "last (sph_packetHistory h)" h] requeued_refl [of h h]
    by (auto simp: retransmitTLP_def)
  have two: "\<exists>ps. requeued ps h (retransmitOldestTwoPackets alg h)"
    using requeued_trans requeued_oldest unfolding retransmitOldestTwoPackets_def requeued_timeout by metis
  have all: "\<exists>ps. requeued ps h (retransmitAllPackets alg h)"
    using requeued_all by (auto simp: retransmitAllPackets_def)
  have none: "\<exists>ps. requeued ps h h" using requeued_refl by blast
  show ?thesis
    using tlp two all none requeued_detect [of h alg now]
    by (simp add: OnAlarm_def Let_def)
qed

text \<open>The packets \<open>ps\<close> leave the history because they were acknowledged.\<close>

lemma ackPackets_fields:
  "sph_packetHistory (ackPackets alg clk ps h) = removePackets ps (sph_packetHistory h)"
  "sph_retransmissionQueue (ackPackets alg clk ps h) = sph_retransmissionQueue h"
  "sph_bytesInFlight (ackPackets alg clk ps h) = sph_bytesInFlight h - inFlight ps"
  "sph_lastSentPacketNumber (ackPackets alg clk ps h) = sph_lastSentPacketNumber h"
  "sph_LargestAcked (ackPackets alg clk ps h) = sph_LargestAcked h"
  "sph_rttStats (ackPackets alg clk ps h) = sph_rttStats h"
  "sph_lossTime (ackPackets alg clk ps h) = sph_lossTime h"
  "sph_lastSentTime (ackPackets alg clk ps h) = sph_lastSentTime h"
  "sph_alarm (ackPackets alg clk ps h) = sph_alarm h"
  by (induction ps arbitrary: h) (simp_all add: Let_def onPacketAcked_def)

lemma garbageCollect_fields [simp]:
  "sph_packetHistory (garbageCollectSkippedPackets h) = sph_packetHistory h"
  "sph_retransmissionQueue (garbageCollectSkippedPackets h) = sph_retransmissionQueue h"
  "sph_bytesInFlight (garbageCollectSkippedPackets h) = sph_bytesInFlight h"
  "sph_lastSentPacketNumber (garbageCollectSkippedPackets h) = sph_lastSentPacketNumber h"
  "sph_alarm (garbageCollectSkippedPackets h) = sph_alarm h"
  "sph_lossTime (garbageCollectSkippedPackets h) = sph_lossTime h"
  "sph_rttStats (garbageCollectSkippedPackets h) = sph_rttStats h"
  "sph_LargestAcked (garbageCollectSkippedPackets h) = sph_LargestAcked h"
  by (simp_all add: garbageCollectSkippedPackets_def Let_def)

section \<open>Every packet is accounted for\<close>

text \<open>
  \<open>S\<close>: the packets sent that have something to retransmit; \<open>D\<close>: duplicates queued from outside;
  \<open>A\<close>: the packets acknowledged; \<open>Q\<close>: the packets handed out to be sent again.
\<close>

definition tracked :: "Packet multiset \<Rightarrow> Packet multiset \<Rightarrow> Packet multiset \<Rightarrow> Packet list
    \<Rightarrow> 'c sentPacketHandler \<Rightarrow> bool" where
  "tracked S D A Q h \<longleftrightarrow>
     S + D = mset (sph_packetHistory h) + A + mset Q + mset (sph_retransmissionQueue h)
     \<and> sph_bytesInFlight h = inFlight (sph_packetHistory h)
     \<and> sorted_wrt (<) (map pk_PacketNumber (sph_packetHistory h))
     \<and> (\<forall>p \<in> set (sph_packetHistory h). pk_PacketNumber p \<le> sph_lastSentPacketNumber h
          \<and> pk_Frames p \<noteq> [] \<and> list_all IsFrameRetransmittable (pk_Frames p))
     \<and> length (sph_packetHistory h) \<le> MaxTrackedSentPackets"

lemma tracked_remove:
  assumes "tracked S D A Q h" "mset ps \<subseteq># mset (sph_packetHistory h)"
    "sph_packetHistory h' = removePackets ps (sph_packetHistory h)"
    "sph_bytesInFlight h' = sph_bytesInFlight h - inFlight ps"
    "sph_lastSentPacketNumber h' = sph_lastSentPacketNumber h"
    "mset (sph_packetHistory h') + A' + mset Q' + mset (sph_retransmissionQueue h')
      = mset (sph_packetHistory h) + A + mset Q + mset (sph_retransmissionQueue h)"
  shows "tracked S D A' Q' h'"
proof -
  have "set (sph_packetHistory h') \<subseteq> set (sph_packetHistory h)"
    "length (sph_packetHistory h') \<le> length (sph_packetHistory h)"
    using set_removePackets length_removePackets by (auto simp: assms(3))
  moreover have "sorted_wrt (<) (map pk_PacketNumber (sph_packetHistory h'))"
    using assms(1) by (auto simp: tracked_def sorted_wrt_map assms(3) intro: sorted_wrt_removePackets)
  moreover have "sph_bytesInFlight h' = inFlight (sph_packetHistory h')"
    using assms(1) inFlight_removePackets [OF assms(2)] by (simp add: tracked_def assms(3,4))
  ultimately show ?thesis using assms(1,5,6) by (auto simp: tracked_def)
qed

lemma tracked_requeued:
  assumes "tracked S D A Q h" "requeued ps h h'"
  shows "tracked S D A Q h'"
proof (rule tracked_remove [OF assms(1)])
  have "mset (sph_packetHistory h) = mset (sph_packetHistory h') + mset ps"
    using assms(2) by (simp add: requeued_def)
  then show "mset (sph_packetHistory h') + A + mset Q + mset (sph_retransmissionQueue h')
      = mset (sph_packetHistory h) + A + mset Q + mset (sph_retransmissionQueue h)"
    using assms(2) by (simp add: requeued_def)
qed (use assms(2) in \<open>simp_all add: requeued_def\<close>)

lemma tracked_acked:
  assumes "tracked S D A Q h"
  shows "tracked S D (A + filter_mset (\<lambda>p. P (pk_PacketNumber p)) (mset (sph_packetHistory h))) Q
    (ackPackets alg clk (filter (\<lambda>p. P (pk_PacketNumber p)) (sph_packetHistory h)) h)"
proof -
  let ?ps = "filter (\<lambda>p. P (pk_PacketNumber p)) (sph_packetHistory h)"
  have sub: "mset ?ps \<subseteq># mset (sph_packetHistory h)" by simp
  show ?thesis
  proof (rule tracked_remove [OF assms sub])
    have "mset (sph_packetHistory h) = mset (removePackets ?ps (sph_packetHistory h)) + mset ?ps"
      by (simp add: subset_mset.diff_add)
    then show "mset (sph_packetHistory (ackPackets alg clk ?ps h)) + (A + filter_mset (\<lambda>p. P (pk_PacketNumber p))
        (mset (sph_packetHistory h))) + mset Q + mset (sph_retransmissionQueue (ackPackets alg clk ?ps h))
      = mset (sph_packetHistory h) + A + mset Q + mset (sph_retransmissionQueue h)"
      by (simp add: ackPackets_fields mset_filter)
  qed (simp_all add: ackPackets_fields)
qed

lemma tracked_same:
  assumes "tracked S D A Q h" "sph_packetHistory h' = sph_packetHistory h"
    "sph_retransmissionQueue h' = sph_retransmissionQueue h" "sph_bytesInFlight h' = sph_bytesInFlight h"
    "sph_lastSentPacketNumber h' = sph_lastSentPacketNumber h"
  shows "tracked S D A Q h'"
  using assms by (simp add: tracked_def)

text \<open>What a sent packet is tracked as.\<close>

definition trackedPacket :: "Time \<Rightarrow> Packet \<Rightarrow> Packet" where
  "trackedPacket now packet =
     packet\<lparr> pk_Frames := stripNonRetransmittableFrames (pk_Frames packet), pk_SendTime := now \<rparr>"

lemma HasRetransmittableFrames_iff: "HasRetransmittableFrames fs \<longleftrightarrow> stripNonRetransmittableFrames fs \<noteq> []"
  by (induction fs) (auto simp: stripNonRetransmittableFrames_def)

lemma alarm_fields [simp]:
  "sph_packetHistory (updateLossDetectionAlarm alg h) = sph_packetHistory h"
  "sph_retransmissionQueue (updateLossDetectionAlarm alg h) = sph_retransmissionQueue h"
  "sph_bytesInFlight (updateLossDetectionAlarm alg h) = sph_bytesInFlight h"
  "sph_lastSentPacketNumber (updateLossDetectionAlarm alg h) = sph_lastSentPacketNumber h"
  "sph_lossTime (updateLossDetectionAlarm alg h) = sph_lossTime h"
  "sph_rttStats (updateLossDetectionAlarm alg h) = sph_rttStats h"
  "sph_LargestAcked (updateLossDetectionAlarm alg h) = sph_LargestAcked h"
  "sph_lastSentTime (updateLossDetectionAlarm alg h) = sph_lastSentTime h"
  by (simp_all add: updateLossDetectionAlarm_def)

lemma SentPacket_fields:
  assumes "SentPacket alg now packet h = (h', None)"
  shows "sph_packetHistory h' = sph_packetHistory h
        @ (if HasRetransmittableFrames (pk_Frames packet) then [trackedPacket now packet] else [])"
    "sph_retransmissionQueue h' = sph_retransmissionQueue h"
    "sph_bytesInFlight h' = sph_bytesInFlight h
        + (if HasRetransmittableFrames (pk_Frames packet) then pk_Length packet else 0)"
    "sph_lastSentPacketNumber h' = pk_PacketNumber packet"
    "sph_lastSentPacketNumber h < pk_PacketNumber packet"
    "\<not> (of_nat (length (sph_retransmissionQueue h) + length (sph_packetHistory h) + 1) :: PacketNumber)
        > of_nat MaxTrackedSentPackets"
    "sph_rttStats h' = sph_rttStats h" "sph_lossTime h' = sph_lossTime h" "sph_LargestAcked h' = sph_LargestAcked h"
    "sph_lastSentTime h' = now"
  using assms
  by (auto simp: SentPacket_def Let_def HasRetransmittableFrames_iff trackedPacket_def
      linorder_not_le split: if_splits)

lemma tracked_sent:
  assumes "tracked S D A Q h" "SentPacket alg now packet h = (h', None)"
    "length (sph_retransmissionQueue h) < 2 ^ 63"
  shows "tracked (if HasRetransmittableFrames (pk_Frames packet) then add_mset (trackedPacket now packet) S else S) D A Q h'"
proof -
  note s = SentPacket_fields [OF assms(2)]
  let ?n = "length (sph_retransmissionQueue h) + length (sph_packetHistory h) + 1"
  have "length (sph_packetHistory h) \<le> MaxTrackedSentPackets" using assms(1) by (simp add: tracked_def)
  then have "?n < 2 ^ 64" using assms(3) by (simp add: MaxTrackedSentPackets_def DefaultMaxCongestionWindow_def)
  then have "unat (of_nat ?n :: PacketNumber) = ?n" by (simp only: unat_of_nat) simp
  then have len: "length (sph_packetHistory h) < MaxTrackedSentPackets"
    using s(6) unfolding word_less_nat_alt
    by (simp add: MaxTrackedSentPackets_def DefaultMaxCongestionWindow_def del: of_nat_add)
  have old: "\<forall>p \<in> set (sph_packetHistory h). pk_PacketNumber p < pk_PacketNumber packet
      \<and> pk_Frames p \<noteq> [] \<and> list_all IsFrameRetransmittable (pk_Frames p)"
    using assms(1) s(5) by (auto simp: tracked_def intro: order.strict_trans1)
  show ?thesis
  proof (cases "HasRetransmittableFrames (pk_Frames packet)")
    case True
    have new: "pk_PacketNumber (trackedPacket now packet) = pk_PacketNumber packet"
      "pk_Length (trackedPacket now packet) = pk_Length packet"
      "pk_Frames (trackedPacket now packet) \<noteq> []"
      "list_all IsFrameRetransmittable (pk_Frames (trackedPacket now packet))"
      using True by (auto simp: trackedPacket_def HasRetransmittableFrames_iff stripNonRetransmittableFrames_def list_all_iff)
    show ?thesis using assms(1) True new old len unfolding tracked_def s(1,2,3,4)
      by (auto simp: sorted_wrt_append)
  next
    case False
    then show ?thesis using assms(1) old unfolding tracked_def s(1,2,3,4) by auto
  qed
qed

text \<open>The packets that a frame removes from the history.\<close>

definition ackedBy :: "AckFrame \<Rightarrow> 'c sentPacketHandler \<Rightarrow> Packet multiset" where
  "ackedBy f h =
     (if ack_LargestAcked f \<le> largestInOrderAcked h then {#}
      else filter_mset (\<lambda>p. AckFrame_AcksPacket f (pk_PacketNumber p)) (mset (sph_packetHistory h)))"

definition ackedByClosePath :: "ClosePathFrame \<Rightarrow> 'c sentPacketHandler \<Rightarrow> Packet multiset" where
  "ackedByClosePath f h =
     filter_mset (\<lambda>p. ClosePathFrame_AcksPacket f (pk_PacketNumber p)) (mset (sph_packetHistory h))"

abbreviation ack_wf :: "AckFrame \<Rightarrow> bool" where
  "ack_wf f \<equiv> ackRanges_wf (ack_LargestAcked f) (ack_LowestAcked f) (ack_AckRanges f)"

abbreviation cpf_wf :: "ClosePathFrame \<Rightarrow> bool" where
  "cpf_wf f \<equiv> ackRanges_wf (cpf_LargestAcked f) (cpf_LowestAcked f) (cpf_AckRanges f)"

lemma tracked_sorted: "tracked S D A Q h \<Longrightarrow> sorted_wrt (<) (map pk_PacketNumber (sph_packetHistory h))"
  by (simp add: tracked_def)

lemma determine_exact:
  assumes "tracked S D A Q h" "ack_wf f"
  shows "determineNewlyAckedPackets f h =
    Inr (filter (\<lambda>p. AckFrame_AcksPacket f (pk_PacketNumber p)) (sph_packetHistory h))"
  using newlyAcked_exact [OF tracked_sorted [OF assms(1)] assms(2)]
  by (simp add: determineNewlyAckedPackets_def AckFrame_AcksPacket_def)

lemma determineClosePath_exact:
  assumes "tracked S D A Q h" "cpf_wf f"
  shows "determineNewlyAckedPacketsClosePath f h =
    Inr (filter (\<lambda>p. ClosePathFrame_AcksPacket f (pk_PacketNumber p)) (sph_packetHistory h))"
  using newlyAcked_exact [OF tracked_sorted [OF assms(1)] assms(2)]
  by (simp add: determineNewlyAckedPacketsClosePath_def ClosePathFrame_AcksPacket_def)

lemma maybeUpdateRTT_fields:
  assumes "maybeUpdateRTT n d t now h = (b, h')"
  shows "sph_packetHistory h' = sph_packetHistory h" "sph_retransmissionQueue h' = sph_retransmissionQueue h"
    "sph_bytesInFlight h' = sph_bytesInFlight h" "sph_lastSentPacketNumber h' = sph_lastSentPacketNumber h"
    "sph_LargestAcked h' = sph_LargestAcked h" "sph_alarm h' = sph_alarm h" "sph_lossTime h' = sph_lossTime h"
    "sph_skippedPackets h' = sph_skippedPackets h" "sph_lastSentTime h' = sph_lastSentTime h"
    "sph_congestion h' = sph_congestion h"
  using assms by (auto simp: maybeUpdateRTT_def split: option.splits)

text \<open>The three ways a call of \<open>ReceivedAck\<close> goes.\<close>

lemma ReceivedAck_cases:
  assumes "ReceivedAck alg clk f n rcvTime h = (h', e)" "tracked S D A Q h" "ack_wf f"
  obtains (rejected) err k m where "e = Some err"
        "h' = h \<or> h' = h\<lparr> sph_largestReceivedPacketWithAck := k, sph_LargestAcked := m \<rparr>"
    | (ignored) "e = None" "ack_LargestAcked f \<le> largestInOrderAcked h"
        "h' = h\<lparr> sph_largestReceivedPacketWithAck := n \<rparr>"
    | (acked) h1 h2 where "e = None" "\<not> ack_LargestAcked f \<le> largestInOrderAcked h"
        "tracked S D A Q h1" "sph_packetHistory h1 = sph_packetHistory h"
        "sph_lastSentTime h1 = sph_lastSentTime h"
        "sph_congestion h1 = sph_congestion h \<or>
           (\<exists>rtt. sph_congestion h1 = MaybeExitSlowStart alg rtt (sph_congestion h))"
        "h2 = detectLostPackets alg (clk_loss clk) (ackPackets alg (clk_acked clk)
           (filter (\<lambda>p. AckFrame_AcksPacket f (pk_PacketNumber p)) (sph_packetHistory h)) h1)"
        "h' = garbageCollectSkippedPackets (updateLossDetectionAlarm alg h2)
           \<lparr> sph_stopWaitingManager := swm_ReceivedAck f (sph_stopWaitingManager h2) \<rparr>"
proof -
  let ?r = "h\<lparr> sph_largestReceivedPacketWithAck := n \<rparr>"
  let ?l = "?r\<lparr> sph_LargestAcked := ack_LargestAcked f \<rparr>"
  obtain b m where m: "maybeUpdateRTT (ack_LargestAcked f) (ack_DelayTime f) rcvTime (clk_rtt clk) ?l = (b, m)"
    by fastforce
  define h1 where "h1 = (if b then m\<lparr> sph_congestion := MaybeExitSlowStart alg (sph_rttStats m) (sph_congestion m) \<rparr> else m)"
  note mf = maybeUpdateRTT_fields [OF m, simplified]
  have h1: "tracked S D A Q h1" "sph_packetHistory h1 = sph_packetHistory h"
    "sph_lastSentTime h1 = sph_lastSentTime h"
    "sph_congestion h1 = sph_congestion h \<or>
       (\<exists>rtt. sph_congestion h1 = MaybeExitSlowStart alg rtt (sph_congestion h))"
    using assms(2) mf by (auto simp: h1_def tracked_def)
  note det = determine_exact [OF h1(1) assms(3), unfolded h1(2)]
  have lio: "largestInOrderAcked ?r = largestInOrderAcked h"
    by (cases "sph_packetHistory h") (simp_all add: largestInOrderAcked_def)
  consider (a) "ack_LargestAcked f > sph_lastSentPacketNumber h \<or> n \<le> sph_largestReceivedPacketWithAck h"
    | (b) "\<not> (ack_LargestAcked f > sph_lastSentPacketNumber h \<or> n \<le> sph_largestReceivedPacketWithAck h)"
      "ack_LargestAcked f \<le> largestInOrderAcked h"
    | (c) "\<not> (ack_LargestAcked f > sph_lastSentPacketNumber h \<or> n \<le> sph_largestReceivedPacketWithAck h)"
      "\<not> ack_LargestAcked f \<le> largestInOrderAcked h" "skippedPacketsAcked f ?l"
    | (d) "\<not> (ack_LargestAcked f > sph_lastSentPacketNumber h \<or> n \<le> sph_largestReceivedPacketWithAck h)"
      "\<not> ack_LargestAcked f \<le> largestInOrderAcked h" "\<not> skippedPacketsAcked f ?l"
    by blast
  then show thesis
  proof cases
    case a
    then have "h' = h" "e \<noteq> None" using assms(1) by (auto simp: ReceivedAck_def split: if_splits)
    then show ?thesis using rejected by auto
  next
    case b
    then have "h' = ?r" "e = None" using assms(1) lio by (auto simp: ReceivedAck_def Let_def)
    then show ?thesis using ignored b(2) by simp
  next
    case c
    then have "h' = ?l" "e = Some ErrAckForSkippedPacket"
      using assms(1) lio by (auto simp: ReceivedAck_def Let_def)
    then show ?thesis using rejected by blast
  next
    case d
    with lio det have "ReceivedAck alg clk f n rcvTime h =
      (let h = ackPackets alg (clk_acked clk) (filter (\<lambda>p. AckFrame_AcksPacket f (pk_PacketNumber p)) (sph_packetHistory h)) h1;
           h = detectLostPackets alg (clk_loss clk) h;
           h = updateLossDetectionAlarm alg h;
           h = garbageCollectSkippedPackets h
       in (h\<lparr> sph_stopWaitingManager := swm_ReceivedAck f (sph_stopWaitingManager h) \<rparr>, None))"
      by (simp only: ReceivedAck_def Let_def m prod.case h1_def [symmetric] sum.case if_False de_Morgan_disj)
    then show ?thesis using acked [OF _ d(2) h1 refl] assms(1)
      by (simp add: Let_def garbageCollectSkippedPackets_def updateLossDetectionAlarm_def)
  qed
qed

lemma tracked_ReceivedAck:
  assumes "tracked S D A Q h" "ack_wf f" "ReceivedAck alg clk f n rcvTime h = (h', e)"
  shows "tracked S D (if e = None then A + ackedBy f h else A) Q h'"
  using assms(3,1,2)
proof (cases rule: ReceivedAck_cases)
  case rejected
  then show ?thesis using assms(1) tracked_same [OF assms(1), of h'] by auto
next
  case ignored
  then show ?thesis using tracked_same [OF assms(1), of h'] by (simp add: ackedBy_def)
next
  case (acked h1 h2)
  let ?P = "\<lambda>q. AckFrame_AcksPacket f q"
  have "tracked S D (A + ackedBy f h) Q
      (ackPackets alg (clk_acked clk) (filter (\<lambda>p. ?P (pk_PacketNumber p)) (sph_packetHistory h)) h1)"
    using tracked_acked [OF acked(3), of ?P alg "clk_acked clk"] acked(2,4) by (simp add: ackedBy_def)
  then have "tracked S D (A + ackedBy f h) Q h2"
    unfolding acked(7) using requeued_detect tracked_requeued by metis
  then show ?thesis using tracked_same [of S D _ Q h2 h'] acked(1,8) by simp
qed

lemma tracked_ReceivedClosePath:
  assumes "tracked S D A Q h" "cpf_wf f" "ReceivedClosePath alg clk f n h = (h', e)"
  shows "tracked S D (if e = None then A + ackedByClosePath f h else A) Q h'"
proof -
  let ?r = "h\<lparr> sph_largestReceivedPacketWithAck := n \<rparr>" and ?P = "\<lambda>q. ClosePathFrame_AcksPacket f q"
  have r: "tracked S D A Q ?r" using tracked_same [OF assms(1), of ?r] by simp
  let ?h1 = "ackPackets alg clk (filter (\<lambda>p. ?P (pk_PacketNumber p)) (sph_packetHistory h)) ?r"
  have "tracked S D (A + ackedByClosePath f h) Q ?h1"
    using tracked_acked [OF r, of ?P alg clk] by (simp add: ackedByClosePath_def)
  then have "tracked S D (A + ackedByClosePath f h) Q (SetInflightAsLost alg ?h1)"
    using requeued_inflight tracked_requeued by metis
  then have "tracked S D (A + ackedByClosePath f h) Q (garbageCollectSkippedPackets (SetInflightAsLost alg ?h1))"
    by (rule tracked_same) simp_all
  moreover have "(h', e) = (h, Some errAckForUnsentPacket) \<or> (h', e) = (h, Some ErrDuplicateOrOutOfOrderAck)
      \<or> (h', e) = (?r, Some ErrAckForSkippedPacket)
      \<or> (h', e) = (garbageCollectSkippedPackets (SetInflightAsLost alg ?h1), None)"
    using assms(3) determineClosePath_exact [OF r assms(2)]
    by (auto simp: ReceivedClosePath_def Let_def split: if_splits)
  ultimately show ?thesis using r assms(1) by auto
qed

lemma tracked_dequeue:
  "tracked S D A Q h \<Longrightarrow> DequeuePacketForRetransmission h = (Some p, h') \<Longrightarrow> tracked S D A (Q @ [p]) h'"
  by (auto simp: tracked_def DequeuePacketForRetransmission_def split: list.splits)

lemma tracked_duplicate: "tracked S D A Q h \<Longrightarrow> tracked S (add_mset p D) A Q (DuplicatePacket p h)"
  by (simp add: tracked_def DuplicatePacket_def)

lemma tracked_stopWaiting: "tracked S D A Q h \<Longrightarrow> GetStopWaitingFrame force h = (f, h') \<Longrightarrow> tracked S D A Q h'"
  by (auto simp: GetStopWaitingFrame_def split: prod.splits intro: tracked_same)

section \<open>Runs\<close>

text \<open>
  A handler in use: packets are sent, ACK and CLOSE_PATH frames arrive that their parsers
  accepted, the alarm fires, and packets are taken out of the queue to be sent again. \<open>cong\<close> is the
  controller at the begin. The clock is not at the zero time, and a slice has less than \<open>2 ^ 63\<close>
  elements.
\<close>

inductive sender :: "'c SendAlgorithm \<Rightarrow> 'c \<Rightarrow> Packet multiset \<Rightarrow> Packet multiset \<Rightarrow> Packet multiset \<Rightarrow> Packet list
    \<Rightarrow> 'c sentPacketHandler \<Rightarrow> bool" for alg cong where
  start: "sender alg cong {#} {#} {#} [] (NewSentPacketHandler rttStats cong)"
| sent: "sender alg cong S D A Q h \<Longrightarrow> SentPacket alg now packet h = (h', None) \<Longrightarrow>
    0 < now \<Longrightarrow> length (sph_retransmissionQueue h) < 2 ^ 63 \<Longrightarrow>
    sender alg cong (if HasRetransmittableFrames (pk_Frames packet) then add_mset (trackedPacket now packet) S else S) D A Q h'"
| ack: "sender alg cong S D A Q h \<Longrightarrow> ParseAckFrame r v = Inr (f, r') \<Longrightarrow>
    ReceivedAck alg clk f n rcvTime h = (h', e) \<Longrightarrow> sender alg cong S D (if e = None then A + ackedBy f h else A) Q h'"
| closePath: "sender alg cong S D A Q h \<Longrightarrow> ParseClosePathFrame r v = Inr (cf, r') \<Longrightarrow>
    ReceivedClosePath alg clock cf n h = (h', e) \<Longrightarrow> sender alg cong S D (if e = None then A + ackedByClosePath cf h else A) Q h'"
| alarm: "sender alg cong S D A Q h \<Longrightarrow> sender alg cong S D A Q (OnAlarm alg onRTOCallback now h)"
| lost: "sender alg cong S D A Q h \<Longrightarrow> sender alg cong S D A Q (SetInflightAsLost alg h)"
| dequeue: "sender alg cong S D A Q h \<Longrightarrow> DequeuePacketForRetransmission h = (Some p, h') \<Longrightarrow> sender alg cong S D A (Q @ [p]) h'"
| duplicate: "sender alg cong S D A Q h \<Longrightarrow> sender alg cong S (add_mset p D) A Q (DuplicatePacket p h)"
| stopWaiting: "sender alg cong S D A Q h \<Longrightarrow> GetStopWaitingFrame force h = (swf, h') \<Longrightarrow> sender alg cong S D A Q h'"

lemma sender_tracked: "sender alg cong S D A Q h \<Longrightarrow> tracked S D A Q h"
proof (induction rule: sender.induct)
  case (start rttStats)
  then show ?case by (simp add: tracked_def NewSentPacketHandler_def)
next
  case (ack S D A Q h r v f r' clk n rcvTime h' e)
  then show ?case using tracked_ReceivedAck [OF ack.IH _ ack.hyps(3)] ParseAckFrame_InrD [OF ack.hyps(2)] by simp
next
  case (closePath S D A Q h r v cf r' clock n h' e)
  then show ?case
    using tracked_ReceivedClosePath [OF closePath.IH _ closePath.hyps(3)] ParseClosePathFrame_InrD [OF closePath.hyps(2)] by simp
next
  case (alarm S D A Q h onRTOCallback now)
  then show ?case using requeued_OnAlarm tracked_requeued by metis
next
  case (lost S D A Q h)
  then show ?case using requeued_inflight tracked_requeued by metis
qed (blast intro: tracked_sent tracked_dequeue tracked_duplicate tracked_stopWaiting)+

section \<open>Properties\<close>

text \<open>An example: a controller with a fixed window, and a packet with a PING frame.\<close>

definition fixedWindow :: "unit SendAlgorithm" where
  "fixedWindow = \<lparr> OnPacketSent = (\<lambda>t b n l r c. c), GetCongestionWindow = (\<lambda>c. 14600),
     MaybeExitSlowStart = (\<lambda>r c. c), OnPacketAcked = (\<lambda>r t n l b c. c), OnPacketLost = (\<lambda>r n l b c. c),
     OnRetransmissionTimeout = (\<lambda>r p c. c), RetransmissionDelay = (\<lambda>r c. 0), SmoothedRTT = (\<lambda>r c. smoothedRTT r) \<rparr>"

definition pingPacket :: Packet where
  "pingPacket = \<lparr> pk_PacketNumber = 1, pk_Frames = [FPing PingFrame], pk_Length = 30,
     pk_EncryptionLevel = EncryptionForwardSecure, pk_SendTime = 0 \<rparr>"

definition exampleSent :: "unit sentPacketHandler" where
  "exampleSent = fst (SentPacket fixedWindow 5 pingPacket (NewSentPacketHandler RTTStats_zero ()))"

lemma example_sender: "sender fixedWindow () {# trackedPacket 5 pingPacket #} {#} {#} [] exampleSent"
proof -
  have "SentPacket fixedWindow 5 pingPacket (NewSentPacketHandler RTTStats_zero ()) = (exampleSent, None)"
    unfolding exampleSent_def prod_eq_iff by code_simp
  from sender.sent [OF sender.start this] show ?thesis
    by (simp add: NewSentPacketHandler_def pingPacket_def)
qed

text \<open>
  C19. No packet is lost or counted twice by the sender, whatever the congestion controller does:
  the packets sent with something to retransmit, and the duplicates queued from outside, are
  exactly those in flight, those acknowledged by the peer, those handed out for retransmission
  and those in the queue. The bytes in flight are the lengths of the packets in flight.
\<close>

theorem sent_packets_accounted:
  assumes "sender alg cong S D A Q h"
  shows "S + D = mset (sph_packetHistory h) + A + mset (Q @ sph_retransmissionQueue h)
    \<and> sph_bytesInFlight h = (\<Sum>p \<leftarrow> sph_packetHistory h. pk_Length p)"
  using sender_tracked [OF assms] by (simp add: tracked_def inFlight_def)

theorem sent_packets_accounted_witness:
  "sph_packetHistory exampleSent = [trackedPacket 5 pingPacket] \<and> sph_bytesInFlight exampleSent = 30"
proof -
  have h: "sph_packetHistory exampleSent = [trackedPacket 5 pingPacket]" by code_simp
  then show ?thesis using sent_packets_accounted [OF example_sender] by (simp add: trackedPacket_def pingPacket_def)
qed

text \<open>
  C20. Well-formedness of the history: in every reachable state packet numbers increase along the
  history and none exceeds the last one sent, every packet has frames and only frames that can be
  retransmitted, and there are at most \<open>MaxTrackedSentPackets\<close> of them.
\<close>

theorem sent_history_wellformed:
  assumes "sender alg cong S D A Q h"
  shows "sorted_wrt (<) (map pk_PacketNumber (sph_packetHistory h))
    \<and> (\<forall>p \<in> set (sph_packetHistory h). pk_PacketNumber p \<le> sph_lastSentPacketNumber h
         \<and> pk_Frames p \<noteq> [] \<and> list_all IsFrameRetransmittable (pk_Frames p))
    \<and> length (sph_packetHistory h) \<le> MaxTrackedSentPackets"
  using sender_tracked [OF assms] by (simp add: tracked_def)

theorem sent_history_wellformed_witness:
  "sph_packetHistory exampleSent = [trackedPacket 5 pingPacket]
    \<and> pk_PacketNumber (trackedPacket 5 pingPacket) \<le> sph_lastSentPacketNumber exampleSent
    \<and> list_all IsFrameRetransmittable (pk_Frames (trackedPacket 5 pingPacket))"
proof -
  have "sph_packetHistory exampleSent = [trackedPacket 5 pingPacket]" by code_simp
  then show ?thesis using sent_history_wellformed [OF example_sender] by simp
qed

text \<open>
  C21. The search of an ACK frame's packets is exact: for every ACK that the parser accepts, and in
  every reachable state, \<open>determineNewlyAckedPackets\<close> returns the packets in flight that the frame
  acknowledges, in order; the error that it calls a bug does not occur.
\<close>

theorem determineNewlyAckedPackets_exact:
  assumes "sender alg cong S D A Q h" "ParseAckFrame r v = Inr (f, r')"
  shows "determineNewlyAckedPackets f h =
    Inr (filter (\<lambda>p. AckFrame_AcksPacket f (pk_PacketNumber p)) (sph_packetHistory h))"
  using determine_exact [OF sender_tracked [OF assms(1)]] ParseAckFrame_InrD [OF assms(2)] by blast

theorem determineNewlyAckedPackets_exact_witness:
  "\<exists>f. ParseAckFrame [0x40, 1, 0, 0, 1, 0] 39 = Inr (f, [])
     \<and> determineNewlyAckedPackets f exampleSent = Inr [trackedPacket 5 pingPacket]"
proof -
  define f where "f = \<lparr> ack_PathID = 0, ack_LargestAcked = 1, ack_LowestAcked = 1, ack_AckRanges = [],
    ack_PacketReceivedTime = 0, ack_DelayTime = 0 \<rparr>"
  have p: "ParseAckFrame [0x40, 1, 0, 0, 1, 0] 39 = Inr (f, [])" unfolding f_def by code_simp
  have "filter (\<lambda>p. AckFrame_AcksPacket f (pk_PacketNumber p)) (sph_packetHistory exampleSent) = [trackedPacket 5 pingPacket]"
    unfolding f_def by code_simp
  then show ?thesis using determineNewlyAckedPackets_exact [OF example_sender p] p by auto
qed

end
