(* ===== verification/Congestion.thy ===== *)
theory Congestion
  imports RTTStats
begin

text \<open>
  What the two congestion controllers share: hybrid slow start
  (\<open>congestion/hybrid_slow_start.go\<close>), proportional rate reduction (\<open>prr_sender.go\<close>), bandwidth
  estimates (\<open>bandwidth.go\<close>), and the part of the senders that \<open>cubic_sender.go\<close> and
  \<open>olia_sender.go\<close> have in common word for word. That part is a record that the states of both
  senders extend. The RTT statistics, shared by a pointer, are an argument.
\<close>

section \<open>Hybrid slow start\<close>

definition hybridStartLowWindow :: ByteCount where "hybridStartLowWindow = 16"
definition hybridStartMinSamples :: uint32 where "hybridStartMinSamples = 8"
definition hybridStartDelayFactorExp :: nat where "hybridStartDelayFactorExp = 3"
definition hybridStartDelayMinThresholdUs :: int where "hybridStartDelayMinThresholdUs = 4000"
definition hybridStartDelayMaxThresholdUs :: int where "hybridStartDelayMaxThresholdUs = 16000"

record HybridSlowStart =
  hss_endPacketNumber :: PacketNumber
  hss_lastSentPacketNumber :: PacketNumber
  hss_started :: bool
  hss_currentMinRTT :: Duration
  hss_rttSampleCount :: uint32
  hss_hystartFound :: bool

definition HybridSlowStart_zero :: HybridSlowStart where
  "HybridSlowStart_zero = \<lparr> hss_endPacketNumber = 0, hss_lastSentPacketNumber = 0, hss_started = False,
     hss_currentMinRTT = 0, hss_rttSampleCount = 0, hss_hystartFound = False \<rparr>"

definition StartReceiveRound :: "PacketNumber \<Rightarrow> HybridSlowStart \<Rightarrow> HybridSlowStart" where
  "StartReceiveRound lastSent s =
     s\<lparr> hss_endPacketNumber := lastSent, hss_currentMinRTT := 0, hss_rttSampleCount := 0, hss_started := True \<rparr>"

definition IsEndOfRound :: "PacketNumber \<Rightarrow> HybridSlowStart \<Rightarrow> bool" where
  "IsEndOfRound ack s \<longleftrightarrow> hss_endPacketNumber s < ack"

definition ShouldExitSlowStart :: "Duration \<Rightarrow> Duration \<Rightarrow> ByteCount \<Rightarrow> HybridSlowStart
    \<Rightarrow> bool \<times> HybridSlowStart" where
  "ShouldExitSlowStart latest minimum window s =
     (let s = (if \<not> hss_started s then StartReceiveRound (hss_lastSentPacketNumber s) s else s)
      in if hss_hystartFound s then (True, s)
         else let s = s\<lparr> hss_rttSampleCount := hss_rttSampleCount s + 1 \<rparr>;
                  s = (if hss_rttSampleCount s \<le> hybridStartMinSamples
                         \<and> (hss_currentMinRTT s = 0 \<or> hss_currentMinRTT s > latest)
                       then s\<lparr> hss_currentMinRTT := latest \<rparr> else s);
                  s = (if hss_rttSampleCount s = hybridStartMinSamples
                       then let us = quot minimum 1000 div 2 ^ hybridStartDelayFactorExp;
                                us = min us hybridStartDelayMaxThresholdUs;
                                threshold = int64 (max us hybridStartDelayMinThresholdUs * 1000)
                            in if hss_currentMinRTT s > int64 (minimum + threshold)
                               then s\<lparr> hss_hystartFound := True \<rparr> else s
                       else s)
              in (window \<ge> hybridStartLowWindow \<and> hss_hystartFound s, s))"

definition hss_OnPacketSent :: "PacketNumber \<Rightarrow> HybridSlowStart \<Rightarrow> HybridSlowStart" where
  "hss_OnPacketSent packetNumber s = s\<lparr> hss_lastSentPacketNumber := packetNumber \<rparr>"

definition hss_OnPacketAcked :: "PacketNumber \<Rightarrow> HybridSlowStart \<Rightarrow> HybridSlowStart" where
  "hss_OnPacketAcked ackedPacketNumber s =
     (if IsEndOfRound ackedPacketNumber s then s\<lparr> hss_started := False \<rparr> else s)"

definition hss_Restart :: "HybridSlowStart \<Rightarrow> HybridSlowStart" where
  "hss_Restart s = s\<lparr> hss_started := False, hss_hystartFound := False \<rparr>"

section \<open>Proportional rate reduction\<close>

record PrrSender =
  prr_bytesSentSinceLoss :: ByteCount
  prr_bytesDeliveredSinceLoss :: ByteCount
  prr_ackCountSinceLoss :: ByteCount
  prr_bytesInFlightBeforeLoss :: ByteCount

definition PrrSender_zero :: PrrSender where
  "PrrSender_zero = \<lparr> prr_bytesSentSinceLoss = 0, prr_bytesDeliveredSinceLoss = 0,
     prr_ackCountSinceLoss = 0, prr_bytesInFlightBeforeLoss = 0 \<rparr>"

definition prr_OnPacketSent :: "ByteCount \<Rightarrow> PrrSender \<Rightarrow> PrrSender" where
  "prr_OnPacketSent sentBytes p = p\<lparr> prr_bytesSentSinceLoss := prr_bytesSentSinceLoss p + sentBytes \<rparr>"

definition prr_OnPacketLost :: "ByteCount \<Rightarrow> PrrSender \<Rightarrow> PrrSender" where
  "prr_OnPacketLost bytesInFlight p =
     p\<lparr> prr_bytesSentSinceLoss := 0, prr_bytesInFlightBeforeLoss := bytesInFlight,
        prr_bytesDeliveredSinceLoss := 0, prr_ackCountSinceLoss := 0 \<rparr>"

definition prr_OnPacketAcked :: "ByteCount \<Rightarrow> PrrSender \<Rightarrow> PrrSender" where
  "prr_OnPacketAcked ackedBytes p =
     p\<lparr> prr_bytesDeliveredSinceLoss := prr_bytesDeliveredSinceLoss p + ackedBytes,
        prr_ackCountSinceLoss := prr_ackCountSinceLoss p + 1 \<rparr>"

definition prr_TimeUntilSend :: "ByteCount \<Rightarrow> ByteCount \<Rightarrow> ByteCount \<Rightarrow> PrrSender \<Rightarrow> Duration" where
  "prr_TimeUntilSend window bytesInFlight threshold p =
     (if prr_bytesSentSinceLoss p = 0 \<or> bytesInFlight < DefaultTCPMSS then 0
      else if window > bytesInFlight
      then if prr_bytesDeliveredSinceLoss p + prr_ackCountSinceLoss p * DefaultTCPMSS \<le> prr_bytesSentSinceLoss p
           then InfDuration else 0
      else if prr_bytesDeliveredSinceLoss p * threshold
                > prr_bytesSentSinceLoss p * prr_bytesInFlightBeforeLoss p
      then 0 else InfDuration)"

section \<open>Bandwidth\<close>

type_synonym Bandwidth = uint64

definition BytesPerSecond :: Bandwidth where "BytesPerSecond = 8 * 1"

definition BandwidthFromDelta :: "ByteCount \<Rightarrow> Duration \<Rightarrow> Bandwidth" where
  "BandwidthFromDelta bytes d = bytes * 1000000000 div of_int d * BytesPerSecond"

section \<open>The common part of the senders\<close>

definition maxBurstBytes :: ByteCount where "maxBurstBytes = 3 * DefaultTCPMSS"
definition defaultMinimumCongestionWindow :: PacketNumber where "defaultMinimumCongestionWindow = 2"
definition renoBeta :: rat where "renoBeta = f32 (7 / 10)"
definition defaultNumConnections :: int where "defaultNumConnections = 2"

record connectionStats =
  st_slowstartPacketsLost :: PacketNumber
  st_slowstartBytesLost :: ByteCount

record tcpSender =
  cs_hybridSlowStart :: HybridSlowStart
  cs_prr :: PrrSender
  cs_stats :: connectionStats
  cs_largestSentPacketNumber :: PacketNumber
  cs_largestAckedPacketNumber :: PacketNumber
  cs_largestSentAtLastCutback :: PacketNumber
  cs_congestionWindow :: PacketNumber
  cs_slowstartThreshold :: PacketNumber
  cs_lastCutbackExitedSlowstart :: bool
  cs_slowStartLargeReduction :: bool
  cs_minCongestionWindow :: PacketNumber
  cs_maxTCPCongestionWindow :: PacketNumber
  cs_numConnections :: int
  cs_congestionWindowCount :: ByteCount
  cs_initialCongestionWindow :: PacketNumber
  cs_initialMaxCongestionWindow :: PacketNumber

definition newSender :: "PacketNumber \<Rightarrow> PacketNumber \<Rightarrow> tcpSender" where
  "newSender initialCongestionWindow initialMaxCongestionWindow =
     \<lparr> cs_hybridSlowStart = HybridSlowStart_zero, cs_prr = PrrSender_zero,
       cs_stats = \<lparr> st_slowstartPacketsLost = 0, st_slowstartBytesLost = 0 \<rparr>,
       cs_largestSentPacketNumber = 0, cs_largestAckedPacketNumber = 0, cs_largestSentAtLastCutback = 0,
       cs_congestionWindow = initialCongestionWindow, cs_slowstartThreshold = initialMaxCongestionWindow,
       cs_lastCutbackExitedSlowstart = False, cs_slowStartLargeReduction = False,
       cs_minCongestionWindow = defaultMinimumCongestionWindow,
       cs_maxTCPCongestionWindow = initialMaxCongestionWindow, cs_numConnections = defaultNumConnections,
       cs_congestionWindowCount = 0, cs_initialCongestionWindow = initialCongestionWindow,
       cs_initialMaxCongestionWindow = initialMaxCongestionWindow \<rparr>"

definition InRecovery :: "'a tcpSender_scheme \<Rightarrow> bool" where
  "InRecovery c \<longleftrightarrow>
     cs_largestAckedPacketNumber c \<le> cs_largestSentAtLastCutback c \<and> cs_largestAckedPacketNumber c \<noteq> 0"

definition cs_GetCongestionWindow :: "'a tcpSender_scheme \<Rightarrow> ByteCount" where
  "cs_GetCongestionWindow c = cs_congestionWindow c * DefaultTCPMSS"

definition cs_GetSlowStartThreshold :: "'a tcpSender_scheme \<Rightarrow> ByteCount" where
  "cs_GetSlowStartThreshold c = cs_slowstartThreshold c * DefaultTCPMSS"

definition InSlowStart :: "'a tcpSender_scheme \<Rightarrow> bool" where
  "InSlowStart c \<longleftrightarrow> cs_GetCongestionWindow c < cs_GetSlowStartThreshold c"

definition cs_TimeUntilSend :: "ByteCount \<Rightarrow> 'a tcpSender_scheme \<Rightarrow> Duration" where
  "cs_TimeUntilSend bytesInFlight c =
     (if InRecovery c
      then prr_TimeUntilSend (cs_GetCongestionWindow c) bytesInFlight (cs_GetSlowStartThreshold c) (cs_prr c)
      else if cs_GetCongestionWindow c > bytesInFlight then 0 else InfDuration)"

definition cs_OnPacketSent :: "Time \<Rightarrow> ByteCount \<Rightarrow> PacketNumber \<Rightarrow> ByteCount \<Rightarrow> bool \<Rightarrow> 'a tcpSender_scheme
    \<Rightarrow> bool \<times> 'a tcpSender_scheme" where
  "cs_OnPacketSent sentTime bytesInFlight packetNumber bytes isRetransmittable c =
     (if \<not> isRetransmittable then (False, c)
      else let c = (if InRecovery c then c\<lparr> cs_prr := prr_OnPacketSent bytes (cs_prr c) \<rparr> else c)
           in (True, c\<lparr> cs_largestSentPacketNumber := packetNumber,
                        cs_hybridSlowStart := hss_OnPacketSent packetNumber (cs_hybridSlowStart c) \<rparr>))"

definition ExitSlowstart :: "'a tcpSender_scheme \<Rightarrow> 'a tcpSender_scheme" where
  "ExitSlowstart c = c\<lparr> cs_slowstartThreshold := cs_congestionWindow c \<rparr>"

definition cs_MaybeExitSlowStart :: "RTTStats \<Rightarrow> 'a tcpSender_scheme \<Rightarrow> 'a tcpSender_scheme" where
  "cs_MaybeExitSlowStart rtt c =
     (if InSlowStart c
      then case ShouldExitSlowStart (latestRTT rtt) (minRTT rtt) (cs_GetCongestionWindow c div DefaultTCPMSS)
                  (cs_hybridSlowStart c) of
             (exit, s) \<Rightarrow> let c = c\<lparr> cs_hybridSlowStart := s \<rparr> in if exit then ExitSlowstart c else c
      else c)"

definition isCwndLimited :: "ByteCount \<Rightarrow> 'a tcpSender_scheme \<Rightarrow> bool" where
  "isCwndLimited bytesInFlight c =
     (let window = cs_GetCongestionWindow c
      in if bytesInFlight \<ge> window then True
         else let availableBytes = window - bytesInFlight;
                  slowStartLimited = (InSlowStart c \<and> bytesInFlight > window div 2)
              in slowStartLimited \<or> availableBytes \<le> maxBurstBytes)"

definition RenoBeta :: "'a tcpSender_scheme \<Rightarrow> rat" where
  "RenoBeta c =
     f32 (f32 (f32 (f32 (of_int (cs_numConnections c)) - 1) + renoBeta) / f32 (of_int (cs_numConnections c)))"

text \<open>A loss in a period that has been reduced already; \<open>fst\<close>: whether the window was changed.\<close>

definition repeatedLoss :: "ByteCount \<Rightarrow> 'a tcpSender_scheme \<Rightarrow> bool \<times> 'a tcpSender_scheme" where
  "repeatedLoss lostBytes c =
     (if cs_lastCutbackExitedSlowstart c
      then let st = \<lparr> st_slowstartPacketsLost = st_slowstartPacketsLost (cs_stats c) + 1,
                      st_slowstartBytesLost = st_slowstartBytesLost (cs_stats c) + lostBytes \<rparr>;
               c = c\<lparr> cs_stats := st \<rparr>
           in if cs_slowStartLargeReduction c
              then let reduce = (st_slowstartPacketsLost st = 1
                         \<or> st_slowstartBytesLost st div DefaultTCPMSS
                             > (st_slowstartBytesLost st - lostBytes) div DefaultTCPMSS);
                       c = (if reduce
                            then c\<lparr> cs_congestionWindow :=
                                     MaxPacketNumber (cs_congestionWindow c - 1) (cs_minCongestionWindow c) \<rparr>
                            else c)
                   in (reduce, c\<lparr> cs_slowstartThreshold := cs_congestionWindow c \<rparr>)
              else (False, c)
      else (False, c))"

text \<open>The begin and the end of the reaction to the first loss.\<close>

definition beginCutback :: "ByteCount \<Rightarrow> 'a tcpSender_scheme \<Rightarrow> 'a tcpSender_scheme" where
  "beginCutback bytesInFlight c =
     (let c = c\<lparr> cs_lastCutbackExitedSlowstart := InSlowStart c \<rparr>;
          c = (if InSlowStart c
               then c\<lparr> cs_stats := (cs_stats c)\<lparr> st_slowstartPacketsLost := st_slowstartPacketsLost (cs_stats c) + 1 \<rparr> \<rparr>
               else c)
      in c\<lparr> cs_prr := prr_OnPacketLost bytesInFlight (cs_prr c) \<rparr>)"

definition endCutback :: "'a tcpSender_scheme \<Rightarrow> 'a tcpSender_scheme" where
  "endCutback c =
     (let c = (if cs_congestionWindow c < cs_minCongestionWindow c
               then c\<lparr> cs_congestionWindow := cs_minCongestionWindow c \<rparr> else c)
      in c\<lparr> cs_slowstartThreshold := cs_congestionWindow c,
            cs_largestSentAtLastCutback := cs_largestSentPacketNumber c, cs_congestionWindowCount := 0 \<rparr>)"

definition cs_RetransmissionDelay :: "RTTStats \<Rightarrow> Duration" where
  "cs_RetransmissionDelay rtt =
     (if smoothedRTT rtt = 0 then 0 else int64 (smoothedRTT rtt + int64 (meanDeviation rtt * 4)))"

definition BandwidthEstimate :: "RTTStats \<Rightarrow> 'a tcpSender_scheme \<Rightarrow> Bandwidth" where
  "BandwidthEstimate rtt c =
     (if smoothedRTT rtt = 0 then 0 else BandwidthFromDelta (cs_GetCongestionWindow c) (smoothedRTT rtt))"

section \<open>Multiplicative decrease\<close>

lemma toUint64_le:
  assumes "0 \<le> x" "x \<le> of_nat n" "n < 2 ^ 63"
  shows "unat (toUint64 x) \<le> n"
proof -
  have "of_int \<lfloor>x\<rfloor> \<le> (of_int (int n) :: rat)" using order_trans [OF of_int_floor_le assms(2)] by simp
  then have f: "0 \<le> \<lfloor>x\<rfloor>" "\<lfloor>x\<rfloor> \<le> int n" using assms(1) by (simp_all only: of_int_le_iff) simp
  have b: "\<lfloor>x\<rfloor> < 2 ^ 63" by (rule le_less_trans [OF f(2)]) (use assms(3) in simp)
  then have "toUint64 x = of_int \<lfloor>x\<rfloor>" using assms(1) f by (simp add: toUint64_def ftrunc_def Let_def del: of_int_floor_le)
  moreover have "uint (of_int \<lfloor>x\<rfloor> :: uint64) = \<lfloor>x\<rfloor>" using f b by (simp add: uint_word_of_int)
  ultimately show ?thesis using f by (simp flip: nat_uint_eq)
qed

text \<open>A window times a factor of at most one does not grow.\<close>

lemma scaled_window_le:
  assumes "0 \<le> b" "b \<le> 1" "unat w < 2 ^ 24"
  shows "toUint64 (f32 (f32 (of_nat (unat w)) * b)) \<le> w"
proof -
  define n where "n = unat w"
  have n: "n < 2 ^ 24" using assms(3) by (simp add: n_def)
  have w: "f32 (of_nat n) = of_nat n" using fround_of_int [of "int n" 24] n by simp
  have "of_nat n * b \<le> (of_nat n :: rat)" using assms(1,2) by (simp add: mult_left_le)
  then have "f32 (of_nat n * b) \<le> f32 (of_nat n)" using assms(1) by (intro fround_mono) simp_all
  moreover have "0 \<le> f32 (of_nat n * b)" using assms(1) by (intro fround_nonneg) simp_all
  ultimately have "unat (toUint64 (f32 (f32 (of_nat n) * b))) \<le> n" unfolding w using n by (intro toUint64_le) simp_all
  then show ?thesis unfolding n_def by (simp only: word_le_nat_alt)
qed

lemma backoff_bounds:
  fixes n :: int
  assumes "1 \<le> n" "n < 2 ^ 24" "0 \<le> b" "b \<le> 1"
  shows "0 \<le> f32 (f32 (f32 (f32 (of_int n) - 1) + b) / f32 (of_int n))"
    "f32 (f32 (f32 (f32 (of_int n) - 1) + b) / f32 (of_int n)) \<le> 1"
proof -
  have e: "f32 (of_int n) = of_int n" "f32 (of_int (n - 1)) = of_int (n - 1)"
    using assms(1,2) fround_of_int [of n 24] fround_of_int [of "n - 1" 24] by (simp_all only: abs_of_nonneg)
  have m: "f32 (f32 (of_int n) - 1) = of_int (n - 1)" using e(2) unfolding e(1) by (simp only: of_int_diff of_int_1)
  have "of_int (n - 1) + b \<le> of_int n" using assms(4) by simp
  then have "f32 (of_int (n - 1) + b) \<le> f32 (of_int n)" using assms(1,3) by (intro fround_mono) simp_all
  then have h: "f32 (of_int (n - 1) + b) \<le> of_int n" using e by simp
  have l: "0 \<le> f32 (of_int (n - 1) + b)" using assms(1,3) by (intro fround_nonneg) simp_all
  have q: "0 \<le> f32 (of_int (n - 1) + b) / of_int n" "f32 (of_int (n - 1) + b) / of_int n \<le> 1"
    using h l assms(1) by simp_all
  have one: "f32 1 = 1" using fround_of_int [of 1 24] by simp
  show "0 \<le> f32 (f32 (f32 (f32 (of_int n) - 1) + b) / f32 (of_int n))"
    unfolding m unfolding e using q by (intro fround_nonneg) simp_all
  show "f32 (f32 (f32 (f32 (of_int n) - 1) + b) / f32 (of_int n)) \<le> 1"
    unfolding m unfolding e using fround_mono [OF q, of 24] one by simp
qed

lemma renoBeta_bounds: "0 \<le> renoBeta" "renoBeta \<le> 1"
  by code_simp+

section \<open>Bounds of the window\<close>

text \<open>The window is at least one packet and at most \<open>W\<close>.\<close>

definition windowOk :: "PacketNumber \<Rightarrow> 'a tcpSender_scheme \<Rightarrow> bool" where
  "windowOk W c \<longleftrightarrow>
     1 \<le> cs_congestionWindow c \<and> cs_congestionWindow c \<le> cs_maxTCPCongestionWindow c
     \<and> cs_maxTCPCongestionWindow c \<le> W
     \<and> 1 \<le> cs_minCongestionWindow c \<and> cs_minCongestionWindow c \<le> cs_maxTCPCongestionWindow c
     \<and> 1 \<le> cs_initialCongestionWindow c \<and> cs_initialCongestionWindow c \<le> cs_initialMaxCongestionWindow c
     \<and> cs_minCongestionWindow c \<le> cs_initialMaxCongestionWindow c \<and> cs_initialMaxCongestionWindow c \<le> W
     \<and> 1 \<le> cs_numConnections c \<and> cs_numConnections c < 2 ^ 24"

lemma word_pred_bounds: "1 \<le> w \<Longrightarrow> w - 1 \<le> w" for w :: uint64
  by (simp add: word_le_nat_alt unat_sub)

lemma windowOk_repeatedLoss: "windowOk W c \<Longrightarrow> windowOk W (snd (repeatedLoss n c))"
  by (auto simp: windowOk_def repeatedLoss_def Let_def le_max_iff_disj
      intro: order_trans [OF word_pred_bounds])

lemma beginCutback_fields [simp]:
  "cs_congestionWindow (beginCutback b c) = cs_congestionWindow c"
  "cs_numConnections (beginCutback b c) = cs_numConnections c"
  "windowOk W (beginCutback b c) = windowOk W c"
  by (simp_all add: beginCutback_def Let_def windowOk_def)

text \<open>A cutback to any window that is not larger.\<close>

lemma windowOk_cutback:
  assumes "windowOk W c" "w \<le> cs_congestionWindow c" "c' = c\<lparr> cs_congestionWindow := w \<rparr>"
  shows "windowOk W (endCutback c')"
  using assms(1) order_trans [OF assms(2), of "cs_maxTCPCongestionWindow c"]
  by (auto simp: assms(3) windowOk_def endCutback_def Let_def linorder_not_less intro: order_trans)

lemma RenoBeta_bounds: "windowOk W c \<Longrightarrow> 0 \<le> RenoBeta c \<and> RenoBeta c \<le> 1"
  unfolding RenoBeta_def windowOk_def using backoff_bounds [OF _ _ renoBeta_bounds] by blast

lemma windowOk_window: "windowOk W c \<Longrightarrow> unat W \<le> 2500 \<Longrightarrow> cs_GetCongestionWindow c \<le> W * DefaultTCPMSS"
proof -
  assume a: "windowOk W c" "unat W \<le> 2500"
  then have "unat (cs_congestionWindow c) \<le> unat W" by (auto simp: windowOk_def word_le_nat_alt)
  then have "unat (cs_congestionWindow c) * 1460 \<le> unat W * 1460" "unat W * 1460 < 2 ^ 64"
    using a(2) by simp_all
  then show ?thesis
    by (simp add: cs_GetCongestionWindow_def DefaultTCPMSS_def word_le_nat_alt unat_word_ariths)
qed

end
