(* ===== verification/Cubic.thy ===== *)
theory Cubic
  imports Congestion
begin

text \<open>
  The cubic congestion controller (\<open>congestion/cubic.go\<close>, \<open>cubic_sender.go\<close>). The clock is an
  argument, and so is \<open>math.Cbrt\<close>: the results hold for every implementation of it.
\<close>

section \<open>The cubic window\<close>

definition cubeScale :: nat where "cubeScale = 40"
definition cubeCongestionWindowScale :: int where "cubeCongestionWindowScale = 410"
definition cubeFactor :: PacketNumber where "cubeFactor = 2 ^ cubeScale div 410"
definition cubic_beta :: rat where "cubic_beta = f32 (7 / 10)"
definition betaLastMax :: rat where "betaLastMax = f32 (85 / 100)"
definition maxCubicTimeInterval :: Duration where "maxCubicTimeInterval = 30 * 1000000"

record Cubic =
  cu_numConnections :: int
  cu_epoch :: Time
  cu_appLimitedStartTime :: Time
  cu_lastUpdateTime :: Time
  cu_lastCongestionWindow :: PacketNumber
  cu_lastMaxCongestionWindow :: PacketNumber
  cu_ackedPacketsCount :: PacketNumber
  cu_estimatedTCPcongestionWindow :: PacketNumber
  cu_originPointCongestionWindow :: PacketNumber
  cu_timeToOriginPoint :: uint32
  cu_lastTargetCongestionWindow :: PacketNumber

definition cu_Reset :: "Cubic \<Rightarrow> Cubic" where
  "cu_Reset c =
     c\<lparr> cu_epoch := 0, cu_appLimitedStartTime := 0, cu_lastUpdateTime := 0, cu_lastCongestionWindow := 0,
        cu_lastMaxCongestionWindow := 0, cu_ackedPacketsCount := 0, cu_estimatedTCPcongestionWindow := 0,
        cu_originPointCongestionWindow := 0, cu_timeToOriginPoint := 0, cu_lastTargetCongestionWindow := 0 \<rparr>"

definition NewCubic :: Cubic where
  "NewCubic = \<lparr> cu_numConnections = defaultNumConnections, cu_epoch = 0, cu_appLimitedStartTime = 0,
     cu_lastUpdateTime = 0, cu_lastCongestionWindow = 0, cu_lastMaxCongestionWindow = 0,
     cu_ackedPacketsCount = 0, cu_estimatedTCPcongestionWindow = 0, cu_originPointCongestionWindow = 0,
     cu_timeToOriginPoint = 0, cu_lastTargetCongestionWindow = 0 \<rparr>"

definition cu_beta :: "Cubic \<Rightarrow> rat" where
  "cu_beta c = f32 (f32 (f32 (f32 (of_int (cu_numConnections c)) - 1) + cubic_beta) / f32 (of_int (cu_numConnections c)))"

definition cu_alpha :: "Cubic \<Rightarrow> rat" where
  "cu_alpha c =
     (let b = cu_beta c; n = f32 (of_int (cu_numConnections c))
      in f32 (f32 (f32 (f32 (3 * n) * n) * f32 (1 - b)) / f32 (1 + b)))"

definition OnApplicationLimited :: "Time \<Rightarrow> Cubic \<Rightarrow> Cubic" where
  "OnApplicationLimited now c =
     (if cu_appLimitedStartTime c = 0 then c\<lparr> cu_appLimitedStartTime := now \<rparr> else c)"

definition CongestionWindowAfterPacketLoss :: "PacketNumber \<Rightarrow> Cubic \<Rightarrow> PacketNumber \<times> Cubic" where
  "CongestionWindowAfterPacketLoss window c =
     (let c = c\<lparr> cu_lastMaxCongestionWindow :=
                  (if window < cu_lastMaxCongestionWindow c
                   then toUint64 (f32 (betaLastMax * f32 (of_nat (unat window)))) else window) \<rparr>;
          c = c\<lparr> cu_epoch := 0 \<rparr>
      in (toUint64 (f32 (f32 (of_nat (unat window)) * cu_beta c)), c))"

text \<open>
  The loop that follows the window of TCP Reno: acknowledged packets are used up to raise it.
  \<open>None\<close>: the loop does not end.
\<close>

definition requiredAckCount :: "Cubic \<Rightarrow> PacketNumber" where
  "requiredAckCount c = toUint64 (f32 (f32 (of_nat (unat (cu_estimatedTCPcongestionWindow c))) / cu_alpha c))"

partial_function (option) estimateLoop :: "Cubic \<Rightarrow> Cubic option" where
  "estimateLoop c =
     (let required = requiredAckCount c
      in if cu_ackedPacketsCount c < required then Some c
         else estimateLoop (c\<lparr> cu_ackedPacketsCount := cu_ackedPacketsCount c - required,
                               cu_estimatedTCPcongestionWindow := cu_estimatedTCPcongestionWindow c + 1 \<rparr>))"

declare estimateLoop.simps [code]

text \<open>The begin of an epoch, and the shift of an epoch by the time without data.\<close>

definition startEpoch :: "(rat \<Rightarrow> rat) \<Rightarrow> Time \<Rightarrow> PacketNumber \<Rightarrow> Cubic \<Rightarrow> Cubic" where
  "startEpoch cbrt now window c =
     (let c = c\<lparr> cu_epoch := now, cu_ackedPacketsCount := 1, cu_estimatedTCPcongestionWindow := window \<rparr>
      in if cu_lastMaxCongestionWindow c \<le> window
         then c\<lparr> cu_timeToOriginPoint := 0, cu_originPointCongestionWindow := window \<rparr>
         else c\<lparr> cu_timeToOriginPoint := ucast (toUint64 (cbrt (f64 (of_nat (unat
                   (cubeFactor * (cu_lastMaxCongestionWindow c - window))))))),
                 cu_originPointCongestionWindow := cu_lastMaxCongestionWindow c \<rparr>)"

definition shiftEpoch :: "Time \<Rightarrow> Cubic \<Rightarrow> Cubic" where
  "shiftEpoch now c =
     (if cu_appLimitedStartTime c \<noteq> 0
      then c\<lparr> cu_epoch := cu_epoch c + timeSub now (cu_appLimitedStartTime c), cu_appLimitedStartTime := 0 \<rparr>
      else c)"

definition cubicTarget :: "Time \<Rightarrow> Duration \<Rightarrow> Cubic \<Rightarrow> PacketNumber" where
  "cubicTarget now delayMin c =
     (let elapsedTime = quot (int64 (quot (timeSub (now + delayMin) (cu_epoch c)) 1000 * 2 ^ 10)) 1000000;
          offset = int64 (uint (cu_timeToOriginPoint c) - elapsedTime);
          offset = (if offset < 0 then int64 (- offset) else offset);
          deltaWindow = of_int (int64 (cubeCongestionWindowScale * offset * offset * offset) div 2 ^ cubeScale)
      in if elapsedTime > uint (cu_timeToOriginPoint c)
         then cu_originPointCongestionWindow c + deltaWindow
         else cu_originPointCongestionWindow c - deltaWindow)"

definition CongestionWindowAfterAck :: "(rat \<Rightarrow> rat) \<Rightarrow> Time \<Rightarrow> PacketNumber \<Rightarrow> Duration \<Rightarrow> Cubic
    \<Rightarrow> (PacketNumber \<times> Cubic) option" where
  "CongestionWindowAfterAck cbrt now window delayMin c =
     (let c = c\<lparr> cu_ackedPacketsCount := cu_ackedPacketsCount c + 1 \<rparr>
      in if cu_lastCongestionWindow c = window \<and> timeSub now (cu_lastUpdateTime c) \<le> maxCubicTimeInterval
         then Some (MaxPacketNumber (cu_lastTargetCongestionWindow c) (cu_estimatedTCPcongestionWindow c), c)
         else let c = c\<lparr> cu_lastCongestionWindow := window, cu_lastUpdateTime := now \<rparr>;
                  c = (if cu_epoch c = 0 then startEpoch cbrt now window c else shiftEpoch now c);
                  target = cubicTarget now delayMin c
              in case estimateLoop c of
                   None \<Rightarrow> None
                 | Some c \<Rightarrow>
                     let c = c\<lparr> cu_lastTargetCongestionWindow := target \<rparr>
                     in Some (if target < cu_estimatedTCPcongestionWindow c
                              then cu_estimatedTCPcongestionWindow c else target, c))"

definition SetNumConnections :: "int \<Rightarrow> Cubic \<Rightarrow> Cubic" where
  "SetNumConnections n c = c\<lparr> cu_numConnections := n \<rparr>"

section \<open>The cubic sender\<close>

record cubicSender = tcpSender +
  cs_cubic :: Cubic
  cs_reno :: bool

definition NewCubicSender :: "bool \<Rightarrow> PacketNumber \<Rightarrow> PacketNumber \<Rightarrow> cubicSender" where
  "NewCubicSender reno initialCongestionWindow initialMaxCongestionWindow =
     tcpSender.extend (newSender initialCongestionWindow initialMaxCongestionWindow)
       (cubicSender.fields NewCubic reno)"

definition cubic_maybeIncreaseCwnd :: "(rat \<Rightarrow> rat) \<Rightarrow> RTTStats \<Rightarrow> Time \<Rightarrow> ByteCount \<Rightarrow> cubicSender
    \<Rightarrow> cubicSender option" where
  "cubic_maybeIncreaseCwnd cbrt rtt now bytesInFlight c =
     (if \<not> isCwndLimited bytesInFlight c then Some (c\<lparr> cs_cubic := OnApplicationLimited now (cs_cubic c) \<rparr>)
      else if cs_congestionWindow c \<ge> cs_maxTCPCongestionWindow c then Some c
      else if InSlowStart c then Some (c\<lparr> cs_congestionWindow := cs_congestionWindow c + 1 \<rparr>)
      else if cs_reno c
      then let c = c\<lparr> cs_congestionWindowCount := cs_congestionWindowCount c + 1 \<rparr>
           in Some (if cs_congestionWindowCount c * of_int (cs_numConnections c) \<ge> cs_congestionWindow c
                    then c\<lparr> cs_congestionWindow := cs_congestionWindow c + 1, cs_congestionWindowCount := 0 \<rparr>
                    else c)
      else case CongestionWindowAfterAck cbrt now (cs_congestionWindow c) (minRTT rtt) (cs_cubic c) of
             None \<Rightarrow> None
           | Some (window, cubic) \<Rightarrow>
               Some (c\<lparr> cs_cubic := cubic,
                        cs_congestionWindow := MinPacketNumber (cs_maxTCPCongestionWindow c) window \<rparr>))"

definition cubic_OnPacketAcked :: "(rat \<Rightarrow> rat) \<Rightarrow> RTTStats \<Rightarrow> Time \<Rightarrow> PacketNumber \<Rightarrow> ByteCount \<Rightarrow> ByteCount
    \<Rightarrow> cubicSender \<Rightarrow> cubicSender option" where
  "cubic_OnPacketAcked cbrt rtt now ackedPacketNumber ackedBytes bytesInFlight c =
     (let c = c\<lparr> cs_largestAckedPacketNumber := MaxPacketNumber ackedPacketNumber (cs_largestAckedPacketNumber c) \<rparr>
      in if InRecovery c then Some (c\<lparr> cs_prr := prr_OnPacketAcked ackedBytes (cs_prr c) \<rparr>)
         else case cubic_maybeIncreaseCwnd cbrt rtt now bytesInFlight c of
                None \<Rightarrow> None
              | Some c \<Rightarrow>
                  Some (if InSlowStart c
                        then c\<lparr> cs_hybridSlowStart := hss_OnPacketAcked ackedPacketNumber (cs_hybridSlowStart c) \<rparr>
                        else c))"

definition cubic_OnPacketLost :: "PacketNumber \<Rightarrow> ByteCount \<Rightarrow> ByteCount \<Rightarrow> cubicSender \<Rightarrow> cubicSender" where
  "cubic_OnPacketLost packetNumber lostBytes bytesInFlight c =
     (if packetNumber \<le> cs_largestSentAtLastCutback c then snd (repeatedLoss lostBytes c)
      else let c = beginCutback bytesInFlight c;
               c = (if cs_slowStartLargeReduction c \<and> InSlowStart c
                    then c\<lparr> cs_congestionWindow := cs_congestionWindow c - 1 \<rparr>
                    else if cs_reno c
                    then c\<lparr> cs_congestionWindow :=
                             toUint64 (f32 (f32 (of_nat (unat (cs_congestionWindow c))) * RenoBeta c)) \<rparr>
                    else case CongestionWindowAfterPacketLoss (cs_congestionWindow c) (cs_cubic c) of
                           (window, cubic) \<Rightarrow> c\<lparr> cs_cubic := cubic, cs_congestionWindow := window \<rparr>)
           in endCutback c)"

definition cubic_SetNumEmulatedConnections :: "int \<Rightarrow> cubicSender \<Rightarrow> cubicSender" where
  "cubic_SetNumEmulatedConnections n c =
     c\<lparr> cs_numConnections := max n 1, cs_cubic := SetNumConnections (max n 1) (cs_cubic c) \<rparr>"

definition cubic_OnRetransmissionTimeout :: "bool \<Rightarrow> cubicSender \<Rightarrow> cubicSender" where
  "cubic_OnRetransmissionTimeout packetsRetransmitted c =
     (let c = c\<lparr> cs_largestSentAtLastCutback := 0 \<rparr>
      in if \<not> packetsRetransmitted then c
         else c\<lparr> cs_hybridSlowStart := hss_Restart (cs_hybridSlowStart c), cs_cubic := cu_Reset (cs_cubic c),
                 cs_slowstartThreshold := cs_congestionWindow c div 2,
                 cs_congestionWindow := cs_minCongestionWindow c \<rparr>)"

definition cubic_OnConnectionMigration :: "cubicSender \<Rightarrow> cubicSender" where
  "cubic_OnConnectionMigration c =
     c\<lparr> cs_hybridSlowStart := hss_Restart (cs_hybridSlowStart c), cs_prr := PrrSender_zero,
        cs_largestSentPacketNumber := 0, cs_largestAckedPacketNumber := 0, cs_largestSentAtLastCutback := 0,
        cs_lastCutbackExitedSlowstart := False, cs_cubic := cu_Reset (cs_cubic c),
        cs_congestionWindowCount := 0, cs_congestionWindow := cs_initialCongestionWindow c,
        cs_slowstartThreshold := cs_initialMaxCongestionWindow c,
        cs_maxTCPCongestionWindow := cs_initialMaxCongestionWindow c \<rparr>"

definition SetSlowStartLargeReduction :: "bool \<Rightarrow> 'a tcpSender_scheme \<Rightarrow> 'a tcpSender_scheme" where
  "SetSlowStartLargeReduction enabled c = c\<lparr> cs_slowStartLargeReduction := enabled \<rparr>"

section \<open>The loop ends\<close>

lemma unat_word_of_int: "0 \<le> k \<Longrightarrow> k < 2 ^ 63 \<Longrightarrow> unat (of_int k :: uint64) = nat k"
  by (simp add: uint_word_of_int flip: nat_uint_eq)

lemma toUint64_pos:
  assumes "1 \<le> x" "x < 2 ^ 63"
  shows "0 < toUint64 x"
proof -
  have "1 \<le> \<lfloor>x\<rfloor>" "\<lfloor>x\<rfloor> < 2 ^ 63" using assms by (simp_all add: le_floor_iff floor_less_iff)
  then have "unat (of_int \<lfloor>x\<rfloor> :: uint64) = nat \<lfloor>x\<rfloor>" by (intro unat_word_of_int) simp_all
  then have "unat (toUint64 x) = nat \<lfloor>x\<rfloor>"
    using assms \<open>\<lfloor>x\<rfloor> < 2 ^ 63\<close> \<open>1 \<le> \<lfloor>x\<rfloor>\<close> by (simp add: toUint64_def ftrunc_def Let_def)
  then show ?thesis using \<open>1 \<le> \<lfloor>x\<rfloor>\<close> by (simp add: word_less_nat_alt)
qed

text \<open>The window at which an acknowledgement is used up in every round.\<close>

definition safeWindow :: "Cubic \<Rightarrow> PacketNumber" where
  "safeWindow c = of_int \<lceil>cu_alpha c\<rceil>"

lemma required_at_safe:
  assumes "1 / 2 \<le> cu_alpha c" "cu_alpha c \<le> 2 ^ 20" "cu_estimatedTCPcongestionWindow c = safeWindow c"
  shows "0 < requiredAckCount c"
proof -
  define a where "a = cu_alpha c"
  define n where "n = \<lceil>a\<rceil>"
  have a: "1 / 2 \<le> a" "a \<le> 2 ^ 20" using assms by (simp_all add: a_def)
  have n: "a \<le> of_int n" "of_int n < a + 1" "0 < n" "n \<le> 2 ^ 20"
    using a by (simp_all add: n_def ceiling_le_iff) linarith+
  have "f32 (of_int n) = of_int n" using n by (intro fround_of_int) simp
  moreover have "(of_nat (unat (cu_estimatedTCPcongestionWindow c)) :: rat) = of_int n"
    using n unat_word_of_int [of n] by (simp add: assms(3) safeWindow_def a_def [symmetric] n_def [symmetric] del: of_nat_unat)
  ultimately have r: "requiredAckCount c = toUint64 (f32 (of_int n / a))"
    by (simp add: requiredAckCount_def a_def)
  have q: "1 \<le> of_int n / a" "of_int n / a \<le> 4" using n(1,2) a(1) by (simp_all add: field_simps)
  have "f32 1 \<le> f32 (of_int n / a)" "f32 (of_int n / a) \<le> f32 4"
    using q by (auto intro!: fround_mono)
  moreover have "f32 1 = 1" "f32 4 = 4" using fround_of_int [of 1 24] fround_of_int [of 4 24] by simp_all
  ultimately show ?thesis unfolding r by (intro toUint64_pos) auto
qed

lemma unat_minus_next:
  fixes a b :: uint64
  assumes "a \<noteq> b"
  shows "unat (a - (b + 1)) < unat (a - b)"
proof -
  have "a - b \<noteq> 0" using assms by simp
  then have "unat (a - b - 1) = unat (a - b) - 1" "unat (a - b) \<noteq> 0"
    by (simp_all add: unat_minus_one unat_eq_zero)
  then show ?thesis by (simp add: diff_diff_eq)
qed

lemma estimateLoop_ends:
  assumes "1 / 2 \<le> cu_alpha c" "cu_alpha c \<le> 2 ^ 20"
  shows "\<exists>c'. estimateLoop c = Some c' \<and> cu_numConnections c' = cu_numConnections c"
  using assms
proof (induction c rule: wf_induct_rule [OF wf_measures
    [of "[\<lambda>c. unat (cu_ackedPacketsCount c), \<lambda>c. unat (safeWindow c - cu_estimatedTCPcongestionWindow c)]"]])
  case (1 c)
  let ?r = "requiredAckCount c"
  show ?case
  proof (cases "cu_ackedPacketsCount c < ?r")
    case True
    then show ?thesis by (subst estimateLoop.simps) (simp add: Let_def)
  next
    case False
    let ?c = "c\<lparr> cu_ackedPacketsCount := cu_ackedPacketsCount c - ?r,
      cu_estimatedTCPcongestionWindow := cu_estimatedTCPcongestionWindow c + 1 \<rparr>"
    have same: "cu_alpha ?c = cu_alpha c" "safeWindow ?c = safeWindow c"
      by (simp_all add: cu_alpha_def cu_beta_def safeWindow_def)
    have acked: "unat (cu_ackedPacketsCount c - ?r) = unat (cu_ackedPacketsCount c) - unat ?r"
      "unat ?r \<le> unat (cu_ackedPacketsCount c)"
      using False by (simp_all add: unat_sub linorder_not_less word_le_nat_alt)
    have "(?c, c) \<in> measures [\<lambda>c. unat (cu_ackedPacketsCount c), \<lambda>c. unat (safeWindow c - cu_estimatedTCPcongestionWindow c)]"
    proof (cases "?r = 0")
      case True
      then have "safeWindow c \<noteq> cu_estimatedTCPcongestionWindow c" using required_at_safe [OF 1(2,3)] by auto
      then show ?thesis using True unat_minus_next same by simp
    next
      case False
      then have "0 < unat ?r" by (simp add: unat_gt_0)
      then have "unat (cu_ackedPacketsCount c - ?r) < unat (cu_ackedPacketsCount c)" using acked by linarith
      then show ?thesis by simp
    qed
    from 1(1) [OF this] 1(2,3) same have "\<exists>c'. estimateLoop ?c = Some c' \<and> cu_numConnections c' = cu_numConnections c" by simp
    then show ?thesis using False by (subst estimateLoop.simps) (simp add: Let_def)
  qed
qed

lemma default_alpha: "cu_numConnections c = defaultNumConnections \<Longrightarrow> 1 / 2 \<le> cu_alpha c \<and> cu_alpha c \<le> 2 ^ 20"
proof -
  assume "cu_numConnections c = defaultNumConnections"
  then have "cu_alpha c = cu_alpha NewCubic" by (simp add: cu_alpha_def cu_beta_def NewCubic_def)
  moreover have "1 / 2 \<le> cu_alpha NewCubic" "cu_alpha NewCubic \<le> 2 ^ 20" by code_simp+
  ultimately show ?thesis by simp
qed

lemma default_beta: "cu_numConnections c = defaultNumConnections \<Longrightarrow> 0 \<le> cu_beta c \<and> cu_beta c \<le> 1"
proof -
  assume "cu_numConnections c = defaultNumConnections"
  then have "cu_beta c = cu_beta NewCubic" by (simp add: cu_beta_def NewCubic_def)
  moreover have "0 \<le> cu_beta NewCubic" "cu_beta NewCubic \<le> 1" by code_simp+
  ultimately show ?thesis by simp
qed

lemma epoch_fields [simp]:
  "cu_numConnections (startEpoch cbrt now w c) = cu_numConnections c"
  "cu_numConnections (shiftEpoch now c) = cu_numConnections c"
  by (simp_all add: startEpoch_def shiftEpoch_def Let_def)

lemma AfterAck_ends:
  assumes "cu_numConnections c = defaultNumConnections"
  shows "\<exists>w c'. CongestionWindowAfterAck cbrt now window d c = Some (w, c') \<and> cu_numConnections c' = defaultNumConnections"
proof -
  define c1 where "c1 = c\<lparr> cu_ackedPacketsCount := cu_ackedPacketsCount c + 1,
    cu_lastCongestionWindow := window, cu_lastUpdateTime := now \<rparr>"
  define c2 where "c2 = (if cu_epoch c1 = 0 then startEpoch cbrt now window c1 else shiftEpoch now c1)"
  have "cu_numConnections c2 = defaultNumConnections" using assms by (simp add: c2_def c1_def)
  then obtain c3 where c3: "estimateLoop c2 = Some c3" "cu_numConnections c3 = defaultNumConnections"
    using estimateLoop_ends [of c2] default_alpha [of c2] by auto
  have "c\<lparr> cu_ackedPacketsCount := cu_ackedPacketsCount c + 1 \<rparr>\<lparr> cu_lastCongestionWindow := window, cu_lastUpdateTime := now \<rparr> = c1"
    by (simp add: c1_def)
  then show ?thesis using assms c3
    by (simp only: CongestionWindowAfterAck_def Let_def c2_def [symmetric] option.case) simp
qed

section \<open>Bounds of the window\<close>

text \<open>The part of the state that the program never changes, and the bound of the window.\<close>

definition cubicOk :: "PacketNumber \<Rightarrow> cubicSender \<Rightarrow> bool" where
  "cubicOk W c \<longleftrightarrow>
     cs_congestionWindow c \<le> cs_maxTCPCongestionWindow c \<and> cs_maxTCPCongestionWindow c \<le> W
     \<and> cs_minCongestionWindow c \<le> cs_maxTCPCongestionWindow c
     \<and> \<not> cs_slowStartLargeReduction c \<and> cs_numConnections c = defaultNumConnections
     \<and> cu_numConnections (cs_cubic c) = defaultNumConnections"

lemma cubicOk_new: "cubicOk 2500 (NewCubicSender reno 64 2500)"
  by (simp add: cubicOk_def NewCubicSender_def newSender_def tcpSender.defs cubicSender.defs
      NewCubic_def defaultMinimumCongestionWindow_def)

lemma cubicOk_lost:
  assumes "cubicOk W c" "unat W \<le> 2500"
  shows "cubicOk W (cubic_OnPacketLost n a b c)"
proof -
  have rep: "cubicOk W (snd (repeatedLoss a c))"
    using assms(1) by (simp add: repeatedLoss_def cubicOk_def Let_def)
  define d where "d = beginCutback b c"
  have d: "cubicOk W d" using assms(1) by (simp add: d_def beginCutback_def cubicOk_def Let_def)
  have small: "unat (cs_congestionWindow d) < 2 ^ 24"
    using d assms(2) by (auto simp: cubicOk_def word_le_nat_alt)
  have fin: "cubicOk W (endCutback (e\<lparr> cs_congestionWindow := w \<rparr>))"
    if "cubicOk W e" "w \<le> cs_congestionWindow e" for e w
    using that order_trans [OF that(2), of "cs_maxTCPCongestionWindow e"]
    by (simp add: cubicOk_def endCutback_def Let_def)
  have r: "0 \<le> RenoBeta d" "RenoBeta d \<le> 1"
    using backoff_bounds [OF _ _ renoBeta_bounds, of 2] d by (simp_all add: cubicOk_def RenoBeta_def defaultNumConnections_def)
  obtain w u where u: "CongestionWindowAfterPacketLoss (cs_congestionWindow d) (cs_cubic d) = (w, u)" by fastforce
  then have "w = toUint64 (f32 (f32 (of_nat (unat (cs_congestionWindow d))) * cu_beta (cs_cubic d)))"
    "cu_numConnections u = cu_numConnections (cs_cubic d)"
    by (auto simp: CongestionWindowAfterPacketLoss_def Let_def cu_beta_def)
  moreover from this(1) have "w \<le> cs_congestionWindow d"
    using default_beta [of "cs_cubic d"] d by (simp only: cubicOk_def) (intro scaled_window_le small, simp_all)
  ultimately have "cubicOk W (endCutback (d\<lparr> cs_cubic := u, cs_congestionWindow := w \<rparr>))"
    using fin [of "d\<lparr> cs_cubic := u \<rparr>" w] d by (simp add: cubicOk_def)
  moreover have "\<not> cs_slowStartLargeReduction d" using d by (simp add: cubicOk_def)
  moreover have "cubicOk W (endCutback (d\<lparr> cs_congestionWindow :=
      toUint64 (f32 (f32 (of_nat (unat (cs_congestionWindow d))) * RenoBeta d)) \<rparr>))"
    by (intro fin d scaled_window_le r small)
  ultimately show ?thesis using rep u by (simp add: cubic_OnPacketLost_def Let_def d_def [symmetric])
qed

lemma cubicOk_acked:
  assumes "cubicOk W c" "unat W \<le> 2500"
  shows "\<exists>c'. cubic_OnPacketAcked cbrt rtt now n a b c = Some c' \<and> cubicOk W c'"
proof -
  have inc: "\<exists>d'. cubic_maybeIncreaseCwnd cbrt rtt now b d = Some d' \<and> cubicOk W d'" if ok: "cubicOk W d" for d
  proof -
    have step: "cs_congestionWindow d + 1 \<le> cs_maxTCPCongestionWindow d"
      if "\<not> cs_maxTCPCongestionWindow d \<le> cs_congestionWindow d"
      using that ok assms(2)
      by (simp add: word_le_nat_alt unat_word_ariths cubicOk_def linorder_not_le Suc_le_eq)
    obtain w u where u: "CongestionWindowAfterAck cbrt now (cs_congestionWindow d) (minRTT rtt) (cs_cubic d) = Some (w, u)"
      "cu_numConnections u = defaultNumConnections"
      using AfterAck_ends [of "cs_cubic d"] ok unfolding cubicOk_def by blast
    then show ?thesis using ok step
      by (auto simp: cubic_maybeIncreaseCwnd_def cubicOk_def OnApplicationLimited_def Let_def)
  qed
  define d where "d = c\<lparr> cs_largestAckedPacketNumber := MaxPacketNumber n (cs_largestAckedPacketNumber c) \<rparr>"
  have "cubicOk W d" using assms(1) by (simp add: d_def cubicOk_def)
  from inc [OF this] this show ?thesis
    unfolding cubic_OnPacketAcked_def Let_def d_def [symmetric] by (auto simp: cubicOk_def)
qed

end
