(* ===== verification/Olia.thy ===== *)
theory Olia
  imports Congestion
begin

text \<open>
  The coupled congestion controller of multipath connections (\<open>congestion/olia.go\<close>,
  \<open>olia_sender.go\<close>). The senders of all paths know each other: an acknowledgement on one path
  changes the increase factors of all of them. The map of the senders is an association list;
  its order is the order of the loops over the map.
\<close>

section \<open>The increase of the window\<close>

definition olia_scale :: nat where "olia_scale = 10"

record Olia =
  ol_loss1 :: ByteCount
  ol_loss2 :: ByteCount
  ol_loss3 :: ByteCount
  ol_epsilonNum :: int
  ol_epsilonDen :: uint32
  ol_sndCwndCnt :: int

definition NewOlia :: "ByteCount \<Rightarrow> Olia" where
  "NewOlia ackedBytes = \<lparr> ol_loss1 = ackedBytes, ol_loss2 = ackedBytes, ol_loss3 = ackedBytes,
     ol_epsilonNum = 0, ol_epsilonDen = 1, ol_sndCwndCnt = 0 \<rparr>"

definition oliaScale :: "uint64 \<Rightarrow> nat \<Rightarrow> uint64" where
  "oliaScale val s = push_bit s val"

definition ol_Reset :: "Olia \<Rightarrow> Olia" where
  "ol_Reset o' = \<lparr> ol_loss1 = 0, ol_loss2 = 0, ol_loss3 = 0, ol_epsilonNum = 0, ol_epsilonDen = 1,
     ol_sndCwndCnt = 0 \<rparr>"

definition SmoothedBytesBetweenLosses :: "Olia \<Rightarrow> ByteCount" where
  "SmoothedBytesBetweenLosses o' = MaxByteCount (ol_loss3 o' - ol_loss2 o') (ol_loss2 o' - ol_loss1 o')"

definition UpdateAckedSinceLastLoss :: "ByteCount \<Rightarrow> Olia \<Rightarrow> Olia" where
  "UpdateAckedSinceLastLoss ackedBytes o' = o'\<lparr> ol_loss3 := ol_loss3 o' + ackedBytes \<rparr>"

definition ol_OnPacketLost :: "Olia \<Rightarrow> Olia" where
  "ol_OnPacketLost o' = o'\<lparr> ol_loss1 := ol_loss2 o', ol_loss2 := ol_loss3 o' \<rparr>"

definition ol_CongestionWindowAfterAck :: "PacketNumber \<Rightarrow> ByteCount \<Rightarrow> uint64 \<Rightarrow> Olia \<Rightarrow> PacketNumber \<times> Olia" where
  "ol_CongestionWindowAfterAck window rate cwndScaled o' =
     (let den = ucast (ol_epsilonDen o') :: uint64;
          incDen = den * window * rate;
          incDen = (if incDen = 0 then 1 else incDen);
          cnt = (if ol_epsilonNum o' = - 1
                 then if den * cwndScaled * cwndScaled < rate
                      then int64 (ol_sndCwndCnt o' - sint (oliaScale (rate - den * cwndScaled * cwndScaled) olia_scale div incDen))
                      else int64 (ol_sndCwndCnt o' + sint (oliaScale (den * cwndScaled * cwndScaled - rate) olia_scale div incDen))
                 else int64 (ol_sndCwndCnt o' + sint (oliaScale
                        (of_int (ol_epsilonNum o') * rate + den * cwndScaled * cwndScaled) olia_scale div incDen)))
      in if cnt \<ge> 2 ^ olia_scale - 1 then (window + 1, o'\<lparr> ol_sndCwndCnt := 0 \<rparr>)
         else if cnt \<le> 0 - 2 ^ olia_scale + 1
         then (MaxPacketNumber 1 (window - 1), o'\<lparr> ol_sndCwndCnt := 0 \<rparr>)
         else (window, o'\<lparr> ol_sndCwndCnt := cnt \<rparr>))"

section \<open>The senders\<close>

record OliaSender = tcpSender +
  os_olia :: Olia
  os_TmpBwt :: Bandwidth
  os_tmpCongestionWindow :: PacketNumber

definition NewOliaSender :: "PacketNumber \<Rightarrow> PacketNumber \<Rightarrow> OliaSender" where
  "NewOliaSender initialCongestionWindow initialMaxCongestionWindow =
     tcpSender.extend (newSender initialCongestionWindow initialMaxCongestionWindow)
       (OliaSender.fields (NewOlia 0) 0 initialCongestionWindow)"

text \<open>
  All senders, and the RTT statistics of their paths. An operation on the sender of one path gets
  the table of all senders and the path.
\<close>

type_synonym oliaSenders = "(PathID \<times> OliaSender) list"

definition senderOf :: "oliaSenders \<Rightarrow> PathID \<Rightarrow> OliaSender" where
  "senderOf m path = the (map_of m path)"

definition onSender :: "PathID \<Rightarrow> (OliaSender \<Rightarrow> OliaSender) \<Rightarrow> oliaSenders \<Rightarrow> oliaSenders" where
  "onSender path f m = map (\<lambda>(p, s). (p, if p = path then f s else s)) m"

definition getMaxCwnd :: "oliaSenders \<Rightarrow> PacketNumber" where
  "getMaxCwnd m = fold (\<lambda>(_, s) best. MaxPacketNumber best (cs_congestionWindow s)) m 0"

definition getRate :: "(PathID \<Rightarrow> RTTStats) \<Rightarrow> oliaSenders \<Rightarrow> Duration \<Rightarrow> ByteCount" where
  "getRate rtts m pathRTT =
     (let rate = fold (\<lambda>(p, s) rate.
            let scaledNum = oliaScale (cs_congestionWindow s) olia_scale * of_int pathRTT
            in if smoothedRTT (rtts p) \<noteq> 0 then rate + scaledNum div of_int (smoothedRTT (rtts p)) else rate) m 1
      in rate * rate)"

text \<open>
  Paths are compared by the square of the bytes between two losses over the square of the RTT,
  with the product of the cross terms in \<open>int64\<close>.
\<close>

definition squaredRTT :: "(PathID \<Rightarrow> RTTStats) \<Rightarrow> PathID \<Rightarrow> Duration" where
  "squaredRTT rtts p = int64 (smoothedRTT (rtts p) * smoothedRTT (rtts p))"

definition isBest :: "(PathID \<Rightarrow> RTTStats) \<Rightarrow> Duration \<Rightarrow> ByteCount \<Rightarrow> PathID \<times> OliaSender \<Rightarrow> bool" where
  "isBest rtts bestRTT bestBytes e =
     (case e of (p, s) \<Rightarrow>
        int64 (sint (SmoothedBytesBetweenLosses (os_olia s)) * bestRTT)
          \<ge> int64 (sint bestBytes * squaredRTT rtts p))"

definition bestPath :: "(PathID \<Rightarrow> RTTStats) \<Rightarrow> oliaSenders \<Rightarrow> Duration \<times> ByteCount" where
  "bestPath rtts m =
     fold (\<lambda>e (bestRTT, bestBytes).
       if isBest rtts bestRTT bestBytes e
       then (squaredRTT rtts (fst e), SmoothedBytesBetweenLosses (os_olia (snd e)))
       else (bestRTT, bestBytes)) m (0, 0)"

text \<open>The sizes of the set of paths with the largest window and of the best paths not in it.\<close>

definition countPaths :: "(PathID \<Rightarrow> RTTStats) \<Rightarrow> PacketNumber \<Rightarrow> Duration \<times> ByteCount \<Rightarrow> oliaSenders
    \<Rightarrow> uint8 \<times> uint8" where
  "countPaths rtts maxCwnd best m =
     fold (\<lambda>e (M, BNotM).
       if cs_congestionWindow (snd e) = maxCwnd then (M + 1, BNotM)
       else if isBest rtts (fst best) (snd best) e then (M, BNotM + 1) else (M, BNotM)) m (0, 0)"

definition setEpsilon :: "int \<Rightarrow> uint32 \<Rightarrow> OliaSender \<Rightarrow> OliaSender" where
  "setEpsilon num den s = s\<lparr> os_olia := (os_olia s)\<lparr> ol_epsilonNum := num, ol_epsilonDen := den \<rparr> \<rparr>"

definition getEpsilon :: "(PathID \<Rightarrow> RTTStats) \<Rightarrow> oliaSenders \<Rightarrow> oliaSenders" where
  "getEpsilon rtts m =
     (let maxCwnd = getMaxCwnd m;
          best = bestPath rtts m;
          (M, BNotM) = countPaths rtts maxCwnd best m;
          n = of_nat (length m) :: uint32
      in map (\<lambda>(p, s). (p,
           if BNotM = 0 then setEpsilon 0 1 s
           else if cs_congestionWindow s < maxCwnd \<and> isBest rtts (fst best) (snd best) (p, s)
           then setEpsilon 1 (n * ucast BNotM) s
           else if cs_congestionWindow s = maxCwnd then setEpsilon (- 1) (n * ucast M) s
           else setEpsilon 0 1 s)) m)"

definition UpdateBandwidth :: "RTTStats \<Rightarrow> OliaSender \<Rightarrow> OliaSender" where
  "UpdateBandwidth rtt s = s\<lparr> os_TmpBwt := BandwidthEstimate rtt s \<rparr>"

text \<open>The lines added after every change of the window.\<close>

definition recordWindow :: "RTTStats \<Rightarrow> OliaSender \<Rightarrow> OliaSender" where
  "recordWindow rtt s =
     (let s = UpdateBandwidth rtt s in s\<lparr> os_tmpCongestionWindow := cs_congestionWindow s \<rparr>)"

definition olia_maybeIncreaseCwnd :: "(PathID \<Rightarrow> RTTStats) \<Rightarrow> PathID \<Rightarrow> ByteCount \<Rightarrow> oliaSenders \<Rightarrow> oliaSenders" where
  "olia_maybeIncreaseCwnd rtts path bytesInFlight m =
     (let s = senderOf m path
      in if \<not> isCwndLimited bytesInFlight s then m
         else if cs_congestionWindow s \<ge> cs_maxTCPCongestionWindow s then m
         else let m = (if InSlowStart s
                       then onSender path (\<lambda>s. s\<lparr> cs_congestionWindow := cs_congestionWindow s + 1 \<rparr>) m
                       else let m = getEpsilon rtts m;
                                rate = getRate rtts m (smoothedRTT (rtts path))
                            in onSender path (\<lambda>s.
                                 case ol_CongestionWindowAfterAck (cs_congestionWindow s) rate
                                        (oliaScale (cs_congestionWindow s) olia_scale) (os_olia s) of
                                   (window, o') \<Rightarrow> s\<lparr> os_olia := o', cs_congestionWindow :=
                                      MinPacketNumber (cs_maxTCPCongestionWindow s) window \<rparr>) m)
              in onSender path (recordWindow (rtts path)) m)"

definition olia_OnPacketAcked :: "(PathID \<Rightarrow> RTTStats) \<Rightarrow> PathID \<Rightarrow> PacketNumber \<Rightarrow> ByteCount \<Rightarrow> ByteCount
    \<Rightarrow> oliaSenders \<Rightarrow> oliaSenders" where
  "olia_OnPacketAcked rtts path ackedPacketNumber ackedBytes bytesInFlight m =
     (let m = onSender path (\<lambda>s. s\<lparr> cs_largestAckedPacketNumber :=
                MaxPacketNumber ackedPacketNumber (cs_largestAckedPacketNumber s) \<rparr>) m
      in if InRecovery (senderOf m path)
         then onSender path (\<lambda>s. s\<lparr> cs_prr := prr_OnPacketAcked ackedBytes (cs_prr s) \<rparr>) m
         else let m = onSender path (\<lambda>s. s\<lparr> os_olia := UpdateAckedSinceLastLoss ackedBytes (os_olia s) \<rparr>) m;
                  m = olia_maybeIncreaseCwnd rtts path bytesInFlight m
              in onSender path (\<lambda>s. if InSlowStart s
                   then s\<lparr> cs_hybridSlowStart := hss_OnPacketAcked ackedPacketNumber (cs_hybridSlowStart s) \<rparr>
                   else s) m)"

definition olia_OnPacketLost :: "RTTStats \<Rightarrow> PacketNumber \<Rightarrow> ByteCount \<Rightarrow> ByteCount \<Rightarrow> OliaSender \<Rightarrow> OliaSender" where
  "olia_OnPacketLost rtt packetNumber lostBytes bytesInFlight s =
     (if packetNumber \<le> cs_largestSentAtLastCutback s
      then case repeatedLoss lostBytes s of (reduced, s) \<Rightarrow> if reduced then recordWindow rtt s else s
      else let s = beginCutback bytesInFlight s;
               s = s\<lparr> os_olia := ol_OnPacketLost (os_olia s) \<rparr>;
               s = (if cs_slowStartLargeReduction s \<and> InSlowStart s
                    then s\<lparr> cs_congestionWindow := cs_congestionWindow s - 1 \<rparr>
                    else s\<lparr> cs_congestionWindow :=
                             toUint64 (f32 (f32 (of_nat (unat (cs_congestionWindow s))) * RenoBeta s)) \<rparr>)
           in recordWindow rtt (endCutback s))"

definition olia_SetNumEmulatedConnections :: "int \<Rightarrow> OliaSender \<Rightarrow> OliaSender" where
  "olia_SetNumEmulatedConnections n s = s\<lparr> cs_numConnections := max n 1 \<rparr>"

definition olia_OnRetransmissionTimeout :: "RTTStats \<Rightarrow> bool \<Rightarrow> OliaSender \<Rightarrow> OliaSender" where
  "olia_OnRetransmissionTimeout rtt packetsRetransmitted s =
     (let s = s\<lparr> cs_largestSentAtLastCutback := 0 \<rparr>
      in if \<not> packetsRetransmitted then s
         else recordWindow rtt (s\<lparr> cs_hybridSlowStart := hss_Restart (cs_hybridSlowStart s),
                os_olia := ol_Reset (os_olia s), cs_slowstartThreshold := cs_congestionWindow s div 2,
                cs_congestionWindow := cs_minCongestionWindow s \<rparr>))"

definition olia_OnConnectionMigration :: "RTTStats \<Rightarrow> OliaSender \<Rightarrow> OliaSender" where
  "olia_OnConnectionMigration rtt s =
     recordWindow rtt (s\<lparr> cs_hybridSlowStart := hss_Restart (cs_hybridSlowStart s), cs_prr := PrrSender_zero,
        cs_largestSentPacketNumber := 0, cs_largestAckedPacketNumber := 0, cs_largestSentAtLastCutback := 0,
        cs_lastCutbackExitedSlowstart := False, os_olia := ol_Reset (os_olia s),
        cs_congestionWindowCount := 0, cs_congestionWindow := cs_initialCongestionWindow s,
        cs_slowstartThreshold := cs_initialMaxCongestionWindow s,
        cs_maxTCPCongestionWindow := cs_initialMaxCongestionWindow s \<rparr>)"

section \<open>Bounds of the windows\<close>

definition allOk :: "PacketNumber \<Rightarrow> oliaSenders \<Rightarrow> bool" where
  "allOk W m \<longleftrightarrow> distinct (map fst m) \<and> (\<forall>e \<in> set m. windowOk W (snd e))"

lemma fst_onSender [simp]: "map fst (onSender path f m) = map fst m"
  by (auto simp: onSender_def)

lemma senderOf_mem: "allOk W m \<Longrightarrow> (path, s) \<in> set m \<Longrightarrow> senderOf m path = s"
  by (simp add: allOk_def senderOf_def)

lemma senderOf_ok: "allOk W m \<Longrightarrow> path \<in> fst ` set m \<Longrightarrow> windowOk W (senderOf m path)"
  using senderOf_mem by (fastforce simp: allOk_def)

lemma allOk_onSender:
  assumes "allOk W m" "path \<in> fst ` set m \<Longrightarrow> windowOk W (senderOf m path) \<Longrightarrow> windowOk W (f (senderOf m path))"
  shows "allOk W (onSender path f m)"
proof -
  have "windowOk W (f s)" if "(path, s) \<in> set m" for s
    using assms(2) senderOf_ok [OF assms(1)] senderOf_mem [OF assms(1) that] that by force
  then have "\<forall>e \<in> set (onSender path f m). windowOk W (snd e)"
    using assms(1) by (force simp: allOk_def onSender_def)
  then show ?thesis using assms(1) unfolding allOk_def fst_onSender by simp
qed

lemma windowOk_setEpsilon [simp]: "windowOk W (setEpsilon num den s) = windowOk W s"
  by (simp add: windowOk_def setEpsilon_def)

lemma windowOk_recordWindow [simp]: "windowOk W (recordWindow rtt s) = windowOk W s"
  by (simp add: windowOk_def recordWindow_def UpdateBandwidth_def Let_def)

lemma fst_getEpsilon [simp]: "map fst (getEpsilon rtts m) = map fst m"
  by (auto simp: getEpsilon_def Let_def split: prod.splits)

lemma getEpsilon_ok: "allOk W m \<Longrightarrow> allOk W (getEpsilon rtts m)"
  unfolding allOk_def fst_getEpsilon by (auto simp: getEpsilon_def Let_def split: prod.splits)

lemma AfterAck_window:
  assumes "ol_CongestionWindowAfterAck w rate scaled o' = (w', o'')"
  shows "w' = w \<or> w' = w + 1 \<or> w' = max 1 (w - 1)"
  using assms by (auto simp: ol_CongestionWindowAfterAck_def Let_def split: if_splits)

lemma word_succ_ge1: "w \<le> W \<Longrightarrow> unat W \<le> 2500 \<Longrightarrow> 1 \<le> w + 1" for w W :: uint64
  by (simp add: word_le_nat_alt unat_word_ariths)

lemma windowOk_increase:
  assumes "windowOk W s" "unat W \<le> 2500" "w' = cs_congestionWindow s \<or> w' = cs_congestionWindow s + 1 \<or> w' = max 1 (cs_congestionWindow s - 1)"
  shows "windowOk W (s\<lparr> os_olia := o', cs_congestionWindow := MinPacketNumber (cs_maxTCPCongestionWindow s) w' \<rparr>)"
proof -
  have "1 \<le> w'" using assms word_succ_ge1 [of "cs_congestionWindow s" W]
    by (auto simp: windowOk_def le_max_iff_disj intro: order_trans)
  then show ?thesis using assms(1) by (auto simp: windowOk_def intro: order_trans)
qed

lemma windowOk_slowStart:
  assumes "windowOk W s" "unat W \<le> 2500" "cs_congestionWindow s < cs_maxTCPCongestionWindow s"
  shows "windowOk W (s\<lparr> cs_congestionWindow := cs_congestionWindow s + 1 \<rparr>)"
proof -
  have "unat (cs_congestionWindow s + 1) = unat (cs_congestionWindow s) + 1"
    using assms by (auto simp: windowOk_def word_le_nat_alt word_less_nat_alt unat_word_ariths)
  then show ?thesis using assms(1,3) by (auto simp: windowOk_def word_le_nat_alt word_less_nat_alt)
qed

lemma keys_onSender: "fst ` set (onSender path f m) = fst ` set m"
  by (metis fst_onSender set_map)

lemma keys_getEpsilon: "fst ` set (getEpsilon rtts m) = fst ` set m"
  by (metis fst_getEpsilon set_map)

lemma allOk_maybeIncrease:
  assumes "allOk W m" "unat W \<le> 2500"
  shows "allOk W (olia_maybeIncreaseCwnd rtts path b m)"
proof -
  let ?s = "senderOf m path"
  let ?slow = "onSender path (\<lambda>s. s\<lparr> cs_congestionWindow := cs_congestionWindow s + 1 \<rparr>) m"
  let ?rate = "getRate rtts (getEpsilon rtts m) (smoothedRTT (rtts path))"
  let ?f = "\<lambda>s. case ol_CongestionWindowAfterAck (cs_congestionWindow s) ?rate
      (oliaScale (cs_congestionWindow s) olia_scale) (os_olia s) of
    (window, o') \<Rightarrow> s\<lparr> os_olia := o', cs_congestionWindow := MinPacketNumber (cs_maxTCPCongestionWindow s) window \<rparr>"
  have "allOk W ?slow" if "cs_congestionWindow ?s < cs_maxTCPCongestionWindow ?s"
    by (rule allOk_onSender [OF assms(1)]) (rule windowOk_slowStart [OF _ assms(2) that])
  moreover have "windowOk W (?f s)" if "windowOk W s" for s
    using windowOk_increase [OF that assms(2) AfterAck_window] by (auto split: prod.split)
  then have "allOk W (onSender path ?f (getEpsilon rtts m))"
    by (intro allOk_onSender [OF getEpsilon_ok [OF assms(1)]]) blast
  moreover have "allOk W (onSender path (recordWindow (rtts path)) m')" if "allOk W m'" for m'
    using that by (intro allOk_onSender) simp_all
  ultimately show ?thesis using assms(1)
    by (simp add: olia_maybeIncreaseCwnd_def Let_def linorder_not_le del: minmax_eq)
qed

lemma allOk_acked:
  assumes "allOk W m" "unat W \<le> 2500"
  shows "allOk W (olia_OnPacketAcked rtts path n a b m)"
proof -
  have f: "allOk W (onSender path f m')" if "allOk W m'" "\<And>s. windowOk W s \<Longrightarrow> windowOk W (f s)" for f m'
    using that by (intro allOk_onSender) simp_all
  show ?thesis unfolding olia_OnPacketAcked_def Let_def
    by (auto intro!: f allOk_maybeIncrease assms) (simp_all add: windowOk_def)
qed

lemma keys_maybeIncrease: "fst ` set (olia_maybeIncreaseCwnd rtts path b m) = fst ` set m"
  by (simp add: olia_maybeIncreaseCwnd_def Let_def keys_onSender keys_getEpsilon)

lemma keys_acked: "fst ` set (olia_OnPacketAcked rtts path n a b m) = fst ` set m"
  by (simp add: olia_OnPacketAcked_def Let_def keys_onSender keys_maybeIncrease)

lemma windowOk_lost:
  assumes "windowOk W s" "unat W \<le> 2500"
  shows "windowOk W (olia_OnPacketLost rtt n a b s)"
proof (cases "n \<le> cs_largestSentAtLastCutback s")
  case True
  then show ?thesis using windowOk_repeatedLoss [OF assms(1), of a]
    by (auto simp: olia_OnPacketLost_def split: prod.splits)
next
  case False
  define c where "c = (beginCutback b s)\<lparr> os_olia := ol_OnPacketLost (os_olia (beginCutback b s)) \<rparr>"
  have c: "windowOk W c" "1 \<le> cs_congestionWindow c" "unat (cs_congestionWindow c) < 2 ^ 24"
    using assms by (auto simp: c_def windowOk_def word_le_nat_alt beginCutback_def Let_def)
  have "windowOk W (endCutback (c\<lparr> cs_congestionWindow := cs_congestionWindow c - 1 \<rparr>))"
    by (rule windowOk_cutback [OF c(1) word_pred_bounds [OF c(2)] refl])
  moreover have "windowOk W (endCutback (c\<lparr> cs_congestionWindow :=
      toUint64 (f32 (f32 (of_nat (unat (cs_congestionWindow c))) * RenoBeta c)) \<rparr>))"
    using RenoBeta_bounds [OF c(1)] by (intro windowOk_cutback [OF c(1) _ refl] scaled_window_le c(3)) simp_all
  ultimately show ?thesis using False
    by (simp add: olia_OnPacketLost_def Let_def c_def [symmetric])
qed

section \<open>Two limits of the algorithm\<close>

text \<open>
  The comparison of two paths overflows for ordinary values: with an RTT of 100 ms on both paths,
  the path that delivered 1000 bytes between two losses is not found to be better than the one
  that delivered 500.
\<close>

lemma olia_comparison_overflows:
  assumes "smoothedRTT (rtts 1) = 100000000" "smoothedRTT (rtts 3) = 100000000"
    "SmoothedBytesBetweenLosses (os_olia s1) = 500" "SmoothedBytesBetweenLosses (os_olia s2) = 1000"
  shows "bestPath rtts [(1, s1), (3, s2)] = (10 ^ 16, 500)"
  using assms by (simp add: bestPath_def isBest_def squaredRTT_def int64_def)

text \<open>The window can fall to one packet, below the minimum that every other operation enforces.\<close>

lemma olia_below_minimum:
  assumes "ol_epsilonNum o' = - 1" "ol_epsilonDen o' = 1" "ol_sndCwndCnt o' = - 1000"
  shows "fst (ol_CongestionWindowAfterAck 2 1000000000 (oliaScale 2 olia_scale) o') = 1"
  using assms by (simp add: ol_CongestionWindowAfterAck_def oliaScale_def olia_scale_def Let_def int64_def push_bit_eq_mult)

end
