(* ===== verification/SendAlgorithms.thy ===== *)
theory SendAlgorithms
  imports SentTracking Cubic Olia
begin

text \<open>
  The interface \<open>congestion.SendAlgorithm\<close> (\<open>congestion/interface.go\<close>) between the sent packet
  handler and a congestion controller: what the handler relies on, what follows for the handler,
  and that both controllers provide it. The cubic controller has the state \<open>None\<close> when a loop of
  it does not end; that this does not happen is part of its contract.
\<close>

section \<open>The two controllers\<close>

definition cubicAlgorithm :: "(rat \<Rightarrow> rat) \<Rightarrow> cubicSender option SendAlgorithm" where
  "cubicAlgorithm cbrt =
     \<lparr> OnPacketSent = (\<lambda>t b n bytes r. map_option (\<lambda>c. snd (cs_OnPacketSent t b n bytes r c))),
       GetCongestionWindow = (\<lambda>c. case c of None \<Rightarrow> 0 | Some c \<Rightarrow> cs_GetCongestionWindow c),
       MaybeExitSlowStart = (\<lambda>rtt. map_option (cs_MaybeExitSlowStart rtt)),
       OnPacketAcked = (\<lambda>rtt now n bytes b c. Option.bind c (cubic_OnPacketAcked cbrt rtt now n bytes b)),
       OnPacketLost = (\<lambda>rtt n bytes b. map_option (cubic_OnPacketLost n bytes b)),
       OnRetransmissionTimeout = (\<lambda>rtt r. map_option (cubic_OnRetransmissionTimeout r)),
       RetransmissionDelay = (\<lambda>rtt c. cs_RetransmissionDelay rtt),
       SmoothedRTT = (\<lambda>rtt c. smoothedRTT rtt) \<rparr>"

definition oliaAlgorithm :: "(PathID \<Rightarrow> RTTStats) \<Rightarrow> PathID \<Rightarrow> oliaSenders SendAlgorithm" where
  "oliaAlgorithm rtts path =
     \<lparr> OnPacketSent = (\<lambda>t b n bytes r. onSender path (\<lambda>s. snd (cs_OnPacketSent t b n bytes r s))),
       GetCongestionWindow = (\<lambda>m. cs_GetCongestionWindow (senderOf m path)),
       MaybeExitSlowStart = (\<lambda>rtt. onSender path (cs_MaybeExitSlowStart rtt)),
       OnPacketAcked = (\<lambda>rtt now n bytes b. olia_OnPacketAcked (rtts(path := rtt)) path n bytes b),
       OnPacketLost = (\<lambda>rtt n bytes b. onSender path (olia_OnPacketLost rtt n bytes b)),
       OnRetransmissionTimeout = (\<lambda>rtt r. onSender path (olia_OnRetransmissionTimeout rtt r)),
       RetransmissionDelay = (\<lambda>rtt m. cs_RetransmissionDelay rtt),
       SmoothedRTT = (\<lambda>rtt m. smoothedRTT rtt) \<rparr>"

section \<open>The contract\<close>

text \<open>RTT statistics for which the timeouts do not overflow.\<close>

definition rttOk :: "RTTStats \<Rightarrow> bool" where
  "rttOk r \<longleftrightarrow> 0 \<le> smoothedRTT r \<and> smoothedRTT r < 2 ^ 60"

definition outstanding :: "'c sentPacketHandler \<Rightarrow> bool" where
  "outstanding h \<longleftrightarrow> hasOutstandingRetransmittablePacket h"

locale send_algorithm =
  fixes alg :: "'c SendAlgorithm" and sane :: "'c \<Rightarrow> bool" and maxWindow :: ByteCount
  assumes sane_sent: "sane c \<Longrightarrow> sane (OnPacketSent alg t b n bytes r c)"
    and sane_exit: "sane c \<Longrightarrow> sane (MaybeExitSlowStart alg rtt c)"
    and sane_acked: "sane c \<Longrightarrow> sane (OnPacketAcked alg rtt now n bytes b c)"
    and sane_lost: "sane c \<Longrightarrow> sane (OnPacketLost alg rtt n bytes b c)"
    and sane_timeout: "sane c \<Longrightarrow> sane (OnRetransmissionTimeout alg rtt r c)"
    and window: "sane c \<Longrightarrow> GetCongestionWindow alg c \<le> maxWindow"
    and smoothed: "SmoothedRTT alg rtt c = smoothedRTT rtt"
begin

text \<open>What is kept by the handler: a sane controller, and an alarm whenever it is needed.\<close>

definition guarded :: "'c sentPacketHandler \<Rightarrow> bool" where
  "guarded h \<longleftrightarrow> sane (sph_congestion h) \<and> 0 \<le> sph_lastSentTime h
     \<and> (outstanding h \<and> rttOk (sph_rttStats h) \<longrightarrow> sph_alarm h \<noteq> 0)"

lemma queueLost_fields:
  "sph_lastSentTime (queueLost alg ps h) = sph_lastSentTime h"
  "sph_rttStats (queueLost alg ps h) = sph_rttStats h"
  "sph_alarm (queueLost alg ps h) = sph_alarm h"
  "sane (sph_congestion h) \<Longrightarrow> sane (sph_congestion (queueLost alg ps h))"
  by (induction ps arbitrary: h) (simp_all add: Let_def queuePacketForRetransmission_def sane_lost)

lemma ackPackets_sane: "sane (sph_congestion h) \<Longrightarrow> sane (sph_congestion (ackPackets alg clk ps h))"
  by (induction ps arbitrary: h) (simp_all add: Let_def onPacketAcked_def sane_acked)

lemma update_guarded:
  assumes "sane (sph_congestion h)" "0 \<le> sph_lastSentTime h"
  shows "guarded (updateLossDetectionAlarm alg h)"
proof -
  have tlp: "0 < computeTLPTimeout alg h" if "rttOk (sph_rttStats h)"
  proof -
    define r where "r = smoothedRTT (sph_rttStats h)"
    have r: "0 \<le> r" "r < 2 ^ 60" using that by (simp_all add: rttOk_def r_def)
    have "0 \<le> r * 3 div 2" "r * 3 div 2 < 2 ^ 62" using r by simp_all
    then have "0 < int64 (quot (int64 (r * 3)) 2 + quot minRetransmissionTime 2)"
      using r by (simp add: minRetransmissionTime_def Millisecond_def)
    moreover have "0 < minTailLossProbeTimeout" by (simp add: minTailLossProbeTimeout_def Millisecond_def)
    ultimately show ?thesis by (simp add: computeTLPTimeout_def smoothed r_def [symmetric] Let_def less_max_iff_disj)
  qed
  have rto: "0 < MaxDuration (computeRTOTimeout alg h) minRetransmissionTime"
    by (simp add: minRetransmissionTime_def Millisecond_def less_max_iff_disj)
  have "sph_packetHistory h \<noteq> []" if "outstanding h"
    using that by (auto simp: outstanding_def hasOutstandingRetransmittablePacket_def)
  then show ?thesis using assms tlp rto
    by (auto simp: guarded_def updateLossDetectionAlarm_def outstanding_def
        hasOutstandingRetransmittablePacket_def simp del: minmax_eq)
qed

lemma guarded_shrink:
  assumes "guarded h" "set (sph_packetHistory h') \<subseteq> set (sph_packetHistory h)" "sane (sph_congestion h')"
    "sph_lastSentTime h' = sph_lastSentTime h" "sph_rttStats h' = sph_rttStats h" "sph_alarm h' = sph_alarm h"
  shows "guarded h'"
  using assms by (auto simp: guarded_def outstanding_def hasOutstandingRetransmittablePacket_def list_ex_iff)

lemma guarded_sane: "guarded h \<Longrightarrow> sane (sph_congestion h)"
  by (simp add: guarded_def)

lemma guarded_same:
  assumes "guarded h" "sph_packetHistory h' = sph_packetHistory h" "sph_congestion h' = sph_congestion h"
    "sph_lastSentTime h' = sph_lastSentTime h" "sph_rttStats h' = sph_rttStats h" "sph_alarm h' = sph_alarm h"
  shows "guarded h'"
  using assms by (intro guarded_shrink [OF assms(1)]) (simp_all add: guarded_sane)

lemma detect_fields:
  "sph_lastSentTime (detectLostPackets alg now h) = sph_lastSentTime h"
  "sph_rttStats (detectLostPackets alg now h) = sph_rttStats h"
  "sph_alarm (detectLostPackets alg now h) = sph_alarm h"
  "sane (sph_congestion h) \<Longrightarrow> sane (sph_congestion (detectLostPackets alg now h))"
  by (auto simp: detectLostPackets_def queueLost_fields split: prod.split)

lemma queueRTO_fields:
  "sph_lastSentTime (queueRTO alg p h) = sph_lastSentTime h"
  "sane (sph_congestion h) \<Longrightarrow> sane (sph_congestion (queueRTO alg p h))"
  by (simp_all add: queueRTO_def queuePacketForRetransmission_def Let_def sane_lost)

lemma retransmitAllLoop_fields:
  "sane (sph_congestion h) \<Longrightarrow> sane (sph_congestion (retransmitAllLoop alg h))
    \<and> sph_lastSentTime (retransmitAllLoop alg h) = sph_lastSentTime h"
proof (induction "length (sph_packetHistory h)" arbitrary: h)
  case 0
  then show ?case by (subst (1 2) retransmitAllLoop.simps) simp
next
  case (Suc n)
  then obtain p ps where h: "sph_packetHistory h = p # ps" by (cases "sph_packetHistory h") auto
  then have "n = length (sph_packetHistory (queueRTO alg p h))" using Suc.hyps(2) by simp
  from Suc.hyps(1) [OF this] h Suc.prems show ?case
    by (subst (1 2) retransmitAllLoop.simps) (simp add: queueRTO_fields)
qed

lemma oldest_fields:
  "sane (sph_congestion h) \<Longrightarrow> sane (sph_congestion (retransmitOldestPacket alg h))"
  "sph_lastSentTime (retransmitOldestPacket alg h) = sph_lastSentTime h"
  by (auto simp: retransmitOldestPacket_def queueRTO_fields split: list.split)

lemma timeout_fields:
  "sane (sph_congestion h) \<Longrightarrow> sane (sph_congestion (timeoutRetransmission alg h))"
  "sph_lastSentTime (timeoutRetransmission alg h) = sph_lastSentTime h"
  by (simp_all add: timeoutRetransmission_def sane_timeout)

lemma guarded_OnAlarm:
  assumes "guarded h"
  shows "guarded (OnAlarm alg cb now h)"
proof (cases "hasOutstandingRetransmittablePacket h")
  case True
  have c: "sane (sph_congestion h)" "0 \<le> sph_lastSentTime h" using assms by (simp_all add: guarded_def)
  have tlp: "sane (sph_congestion (retransmitTLP h))" "sph_lastSentTime (retransmitTLP h) = sph_lastSentTime h"
    using c by (simp_all add: retransmitTLP_def queuePacketForRetransmission_def)
  show ?thesis using True c tlp
    by (auto simp: OnAlarm_def Let_def detect_fields retransmitAllPackets_def retransmitOldestTwoPackets_def
        timeout_fields oldest_fields retransmitAllLoop_fields intro!: update_guarded)
next
  case False
  then show ?thesis using assms
    by (simp add: OnAlarm_def guarded_def outstanding_def hasOutstandingRetransmittablePacket_def)
qed

lemma guarded_SentPacket:
  assumes "guarded h" "SentPacket alg now packet h = (h', None)" "0 < now"
  shows "guarded h'"
  using assms(2,3) guarded_sane [OF assms(1)]
  by (auto simp: SentPacket_def Let_def split: if_splits intro!: update_guarded sane_sent)

lemma guarded_ReceivedAck:
  assumes "guarded h" "tracked S D A Q h" "ack_wf f" "ReceivedAck alg clk f n rcvTime h = (h', e)"
  shows "guarded h'"
  using assms(4,2,3)
proof (cases rule: ReceivedAck_cases)
  case (rejected err k m)
  then show ?thesis using assms(1) guarded_same [OF assms(1), of h'] by auto
next
  case ignored
  then show ?thesis using guarded_same [OF assms(1), of h'] by simp
next
  case (acked h1 h2)
  have "sane (sph_congestion h1)" "0 \<le> sph_lastSentTime h1"
    using acked(5,6) assms(1) by (auto simp: guarded_def sane_exit)
  then have "sane (sph_congestion h2)" "0 \<le> sph_lastSentTime h2"
    unfolding acked(7) by (simp_all add: detect_fields ackPackets_sane ackPackets_fields)
  note u = update_guarded [OF this]
  show ?thesis
    by (rule guarded_same [OF u]) (simp_all add: acked(8) garbageCollectSkippedPackets_def Let_def)
qed

lemma guarded_inflight: "guarded h \<Longrightarrow> guarded (SetInflightAsLost alg h)"
proof -
  assume g: "guarded h"
  obtain ps where "requeued ps h (SetInflightAsLost alg h)" using requeued_inflight by blast
  then have "set (sph_packetHistory (SetInflightAsLost alg h)) \<subseteq> set (sph_packetHistory h)"
    by (simp add: requeued_def set_removePackets)
  then show ?thesis using g
    by (intro guarded_shrink [OF g]) (simp_all add: SetInflightAsLost_def Let_def queueLost_fields guarded_sane)
qed

lemma guarded_ReceivedClosePath:
  assumes "guarded h" "tracked S D A Q h" "cpf_wf f" "ReceivedClosePath alg clk f n h = (h', e)"
  shows "guarded h'"
proof -
  let ?r = "h\<lparr> sph_largestReceivedPacketWithAck := n \<rparr>"
  let ?acked = "filter (\<lambda>p. ClosePathFrame_AcksPacket f (pk_PacketNumber p)) (sph_packetHistory h)"
  have r: "guarded ?r" "tracked S D A Q ?r" 
    using guarded_same [OF assms(1), of ?r] tracked_same [OF assms(2), of ?r] by simp_all
  have a: "guarded (ackPackets alg clk ?acked ?r)"
    by (rule guarded_shrink [OF r(1)])
      (use guarded_sane [OF r(1)] in \<open>simp_all add: ackPackets_fields ackPackets_sane set_removePackets\<close>)
  note i = guarded_inflight [OF a]
  have "guarded (garbageCollectSkippedPackets (SetInflightAsLost alg (ackPackets alg clk ?acked ?r)))"
    by (rule guarded_same [OF i]) (simp_all add: garbageCollectSkippedPackets_def Let_def)
  then show ?thesis
    using assms(1,4) r(1) determineClosePath_exact [OF r(2) assms(3)]
    by (auto simp: ReceivedClosePath_def Let_def split: if_splits)
qed

lemma sender_guarded:
  assumes "sender alg cong S D A Q h" "sane cong"
  shows "guarded h"
  using assms(1)
proof (induction rule: sender.induct)
  case (start rttStats)
  then show ?case using assms(2)
    by (simp add: NewSentPacketHandler_def guarded_def outstanding_def hasOutstandingRetransmittablePacket_def)
next
  case (sent S D A Q h now packet h')
  then show ?case using guarded_SentPacket by blast
next
  case (ack S D A Q h r v f r' clk n rcvTime h' e)
  then show ?case
    using guarded_ReceivedAck [OF ack.IH sender_tracked [OF ack.hyps(1)] _ ack.hyps(3)] ParseAckFrame_InrD [OF ack.hyps(2)] by simp
next
  case (closePath S D A Q h r v cf r' clock n h' e)
  then show ?case
    using guarded_ReceivedClosePath [OF closePath.IH sender_tracked [OF closePath.hyps(1)] _ closePath.hyps(3)]
      ParseClosePathFrame_InrD [OF closePath.hyps(2)] by simp
next
  case (alarm S D A Q h onRTOCallback now)
  then show ?case using guarded_OnAlarm by blast
next
  case (lost S D A Q h)
  then show ?case using guarded_inflight by blast
next
  case (dequeue S D A Q h p h')
  then show ?case
    by (intro guarded_same [OF dequeue.IH]) (auto simp: DequeuePacketForRetransmission_def split: list.splits)
next
  case (duplicate S D A Q h p)
  then show ?case by (intro guarded_same [OF duplicate.IH]) (simp_all add: DuplicatePacket_def)
next
  case (stopWaiting S D A Q h force swf h')
  then show ?case
    by (intro guarded_same [OF stopWaiting.IH]) (auto simp: GetStopWaitingFrame_def split: prod.splits)
qed

text \<open>A packet is sent only within the window, unless packets wait for retransmission.\<close>

lemma window_kept:
  assumes "sender alg cong S D A Q h" "sane cong" "SendingAllowed alg h" "sph_retransmissionQueue h = []"
    "SentPacket alg now packet h = (h', None)" "maxWindow + pk_Length packet \<ge> maxWindow"
  shows "sph_bytesInFlight h' \<le> maxWindow + pk_Length packet"
proof -
  have "sane (sph_congestion h)" using sender_guarded [OF assms(1,2)] by (simp add: guarded_def)
  then have b: "sph_bytesInFlight h \<le> maxWindow"
    using assms(3,4) window by (auto simp: SendingAllowed_def Let_def linorder_not_less intro: order_trans)
  have l: "unat maxWindow + unat (pk_Length packet) < 2 ^ 64"
    using assms(6) unsigned_less [where ?'a = nat, of "pk_Length packet"] unsigned_less [where ?'a = nat, of maxWindow]
    by (simp add: word_le_nat_alt unat_plus_if' split: if_splits)
  have "sph_bytesInFlight h' \<le> sph_bytesInFlight h + pk_Length packet \<and> sph_bytesInFlight h + pk_Length packet \<le> maxWindow + pk_Length packet"
    using SentPacket_fields(3) [OF assms(5)] b l by (simp add: word_le_nat_alt unat_word_ariths)
  then show ?thesis by (blast intro: order_trans)
qed

end

section \<open>Both controllers provide it\<close>

lemma cs_OnPacketSent_fields:
  "windowOk W (snd (cs_OnPacketSent t b n l r s)) = windowOk W s"
  "windowOk W (cs_MaybeExitSlowStart rtt s) = windowOk W s"
  by (auto simp: windowOk_def cs_OnPacketSent_def cs_MaybeExitSlowStart_def ExitSlowstart_def Let_def split: prod.splits)

lemma cubicOk_fields:
  "cubicOk W (snd (cs_OnPacketSent t b n l r c)) = cubicOk W c"
  "cubicOk W (cs_MaybeExitSlowStart rtt c) = cubicOk W c"
  by (auto simp: cubicOk_def cs_OnPacketSent_def cs_MaybeExitSlowStart_def ExitSlowstart_def Let_def split: prod.splits)

lemma cubicOk_timeout: "cubicOk W c \<Longrightarrow> cubicOk W (cubic_OnRetransmissionTimeout r c)"
  by (simp add: cubicOk_def cubic_OnRetransmissionTimeout_def cu_Reset_def Let_def)

lemma windowOk_timeout: "windowOk W s \<Longrightarrow> windowOk W (olia_OnRetransmissionTimeout rtt r s)"
  by (simp add: windowOk_def olia_OnRetransmissionTimeout_def recordWindow_def UpdateBandwidth_def Let_def)

lemma cubicOk_window: "cubicOk 2500 c \<Longrightarrow> cs_GetCongestionWindow c \<le> 2500 * DefaultTCPMSS"
  using order_trans [of "cs_congestionWindow c" "cs_maxTCPCongestionWindow c" 2500]
  by (auto simp: cubicOk_def cs_GetCongestionWindow_def DefaultTCPMSS_def word_le_nat_alt unat_word_ariths)

interpretation cubic_alg: send_algorithm "cubicAlgorithm cbrt" "\<lambda>c. \<exists>s. c = Some s \<and> cubicOk 2500 s"
  "2500 * DefaultTCPMSS" for cbrt
proof
  show "\<exists>s. OnPacketAcked (cubicAlgorithm cbrt) rtt now n bytes b c = Some s \<and> cubicOk 2500 s"
    if "\<exists>s. c = Some s \<and> cubicOk 2500 s" for c rtt now n bytes b
    using that cubicOk_acked [of 2500] by (auto simp: cubicAlgorithm_def)
qed (auto simp: cubicAlgorithm_def cubicOk_fields cubicOk_timeout cubicOk_window intro!: cubicOk_lost)

interpretation olia_alg: send_algorithm "oliaAlgorithm rtts path" "\<lambda>m. allOk 2500 m \<and> path \<in> fst ` set m"
  "2500 * DefaultTCPMSS" for rtts path
proof
  fix c :: oliaSenders and rtt now n bytes b
  assume c: "allOk 2500 c \<and> path \<in> fst ` set c"
  show "allOk 2500 (OnPacketAcked (oliaAlgorithm rtts path) rtt now n bytes b c)
      \<and> path \<in> fst ` set (OnPacketAcked (oliaAlgorithm rtts path) rtt now n bytes b c)"
    using c allOk_acked [of 2500 c] keys_acked by (simp add: oliaAlgorithm_def)
  show "GetCongestionWindow (oliaAlgorithm rtts path) c \<le> 2500 * DefaultTCPMSS"
    using windowOk_window [OF senderOf_ok] c by (simp add: oliaAlgorithm_def)
qed (auto simp: oliaAlgorithm_def keys_onSender cs_OnPacketSent_fields windowOk_timeout
      intro!: allOk_onSender windowOk_lost)

section \<open>Alarms lead to retransmissions\<close>

lemma OnAlarm_queue: "\<exists>ps. sph_retransmissionQueue (OnAlarm alg cb now h) = sph_retransmissionQueue h @ ps"
  using requeued_OnAlarm [of h alg cb now] by (auto simp: requeued_def)

lemma requeued_length: "requeued ps h h' \<Longrightarrow> length (sph_retransmissionQueue h') = length (sph_retransmissionQueue h) + length ps"
  by (simp add: requeued_def)

lemma OnAlarm_probe:
  assumes "hasOutstandingRetransmittablePacket h" "sph_lossTime h = 0"
  shows "length (sph_retransmissionQueue h) < length (sph_retransmissionQueue (OnAlarm alg cb now h))"
proof -
  obtain p ps where hist: "sph_packetHistory h = p # ps"
    using assms(1) by (cases "sph_packetHistory h") (auto simp: hasOutstandingRetransmittablePacket_def)
  have tlp: "length (sph_retransmissionQueue (retransmitTLP h)) = Suc (length (sph_retransmissionQueue h))"
    using hist by (simp add: retransmitTLP_def queuePacketForRetransmission_def)
  have all: "length (sph_retransmissionQueue h) < length (sph_retransmissionQueue (retransmitAllPackets alg h))"
    using requeued_length [OF requeued_all [of h alg]] hist by (simp add: retransmitAllPackets_def timeoutRetransmission_def)
  obtain qs where "requeued qs (queueRTO alg p h) (retransmitOldestPacket alg (queueRTO alg p h))"
    using requeued_oldest by blast
  note two = requeued_length [OF this] requeued_length [OF requeued_RTO [of p h alg]]
  have "length (sph_retransmissionQueue h) < length (sph_retransmissionQueue (retransmitOldestTwoPackets alg h))"
    using two hist by (simp add: retransmitOldestTwoPackets_def timeoutRetransmission_def retransmitOldestPacket_def [of alg h])
  then show ?thesis using assms tlp all by (simp add: OnAlarm_def Let_def)
qed

lemma lostLoop_time: "t \<noteq> 0 \<Longrightarrow> fst (lostLoop now d l t ps) = t"
  by (induction ps) (auto simp: Let_def split: prod.split)

lemma lostLoop_none:
  assumes "lostLoop now d l 0 hist = (t, [])" "t \<noteq> 0" "0 < now" "\<forall>p \<in> set hist. pk_SendTime p \<le> now" "d < 2 ^ 63 - 1"
  obtains p ps where "hist = p # ps" "pk_PacketNumber p \<le> l" "t = pk_SendTime p + d"
proof -
  obtain p ps where hist: "hist = p # ps" using assms(1,2) by (cases hist) auto
  have l: "\<not> pk_PacketNumber p > l" using assms(1,2) hist by (auto split: if_splits)
  have n: "\<not> timeSub now (pk_SendTime p) > d" using assms(1) l hist by (auto simp: Let_def split: prod.splits)
  have s: "timeSub now (pk_SendTime p) = now - pk_SendTime p" "now - pk_SendTime p \<le> d"
    using n assms(4,5) hist by (auto simp: timeSub_def)
  define t1 where "t1 = now + int64 (d - timeSub now (pk_SendTime p))"
  have t1: "t1 = pk_SendTime p + d" using s assms(4,5) hist by (simp add: t1_def)
  then have "t1 \<noteq> 0" using s(2) assms(3) by simp
  then have "t = t1" using assms(1) l n hist lostLoop_time [of t1 now d l ps]
    by (simp add: Let_def t1_def [symmetric])
  then show thesis using that hist l t1 by (simp add: linorder_not_less)
qed

lemma lostLoop_first:
  assumes "pk_PacketNumber p \<le> l" "pk_SendTime p + d < now" "d < 2 ^ 63 - 1"
  shows "snd (lostLoop now d l t (p # ps)) \<noteq> []"
proof -
  have "timeSub now (pk_SendTime p) > d" using assms(2,3) by (simp add: timeSub_def)
  then show ?thesis using assms(1) by (simp add: Let_def linorder_not_less split: prod.split)
qed

lemma detect_nothing:
  assumes "lostLoop now (delayUntilLost (sph_rttStats h)) (sph_LargestAcked h) 0 (sph_packetHistory h) = (t, [])"
  shows "detectLostPackets alg now h = h\<lparr> sph_lossTime := t \<rparr>"
  using assms by (simp add: detectLostPackets_def)

lemma detect_something:
  assumes "snd (lostLoop now (delayUntilLost (sph_rttStats h)) (sph_LargestAcked h) 0 (sph_packetHistory h)) \<noteq> []"
  shows "length (sph_retransmissionQueue h) < length (sph_retransmissionQueue (detectLostPackets alg now h))"
proof -
  obtain t lost where l: "lostLoop now (delayUntilLost (sph_rttStats h)) (sph_LargestAcked h) 0 (sph_packetHistory h) = (t, lost)"
    by fastforce
  then have "mset lost \<subseteq># mset (sph_packetHistory h)" using lostLoop_lost by (metis snd_conv)
  then have "requeued lost h (detectLostPackets alg now h)"
    using requeued_queueLost [of lost "h\<lparr> sph_lossTime := t, sph_losses := sph_losses h + of_nat (length lost) \<rparr>" alg]
    by (simp add: detectLostPackets_def l)
  then show ?thesis using requeued_length assms l by fastforce
qed

lemma alarm_progress:
  assumes "hasOutstandingRetransmittablePacket h" "\<forall>p \<in> set (sph_packetHistory h). pk_SendTime p \<le> now" "0 < now"
    "delayUntilLost (sph_rttStats h) < 2 ^ 63 - 1" "sph_alarm (OnAlarm alg cb now h) < now'"
  shows "length (sph_retransmissionQueue h) < length (sph_retransmissionQueue (OnAlarm alg cb now' (OnAlarm alg cb now h)))"
proof -
  define h1 where "h1 = OnAlarm alg cb now h"
  obtain ps where grow: "sph_retransmissionQueue (OnAlarm alg cb now' h1) = sph_retransmissionQueue h1 @ ps"
    using OnAlarm_queue by blast
  let ?d = "delayUntilLost (sph_rttStats h)"
  obtain t lost where l: "lostLoop now ?d (sph_LargestAcked h) 0 (sph_packetHistory h) = (t, lost)" by fastforce
  consider (probe) "sph_lossTime h = 0" | (found) "sph_lossTime h \<noteq> 0" "lost \<noteq> []" | (none) "sph_lossTime h \<noteq> 0" "lost = []"
    by blast
  then show ?thesis
  proof cases
    case probe
    then show ?thesis using OnAlarm_probe [OF assms(1), of alg cb now] grow by (simp add: h1_def)
  next
    case found
    then have "length (sph_retransmissionQueue h) < length (sph_retransmissionQueue h1)"
      using detect_something [of now h alg] assms(1) l by (simp add: h1_def OnAlarm_def)
    then show ?thesis using grow by (simp add: h1_def)
  next
    case none
    then have h1: "h1 = updateLossDetectionAlarm alg (h\<lparr> sph_lossTime := t \<rparr>)"
      using assms(1) detect_nothing [OF l [unfolded none(2)]] by (simp add: h1_def OnAlarm_def)
    then have same: "sph_packetHistory h1 = sph_packetHistory h" "sph_rttStats h1 = sph_rttStats h"
      "sph_LargestAcked h1 = sph_LargestAcked h" "sph_lossTime h1 = t"
      "sph_retransmissionQueue h1 = sph_retransmissionQueue h" by simp_all
    have out: "hasOutstandingRetransmittablePacket h1"
      using assms(1) same by (simp add: hasOutstandingRetransmittablePacket_def)
    show ?thesis
    proof (cases "t = 0")
      case True
      then show ?thesis using OnAlarm_probe [OF out, of alg cb now'] same by (simp add: h1_def)
    next
      case False
      obtain p ps where p: "sph_packetHistory h = p # ps" "pk_PacketNumber p \<le> sph_LargestAcked h" "t = pk_SendTime p + ?d"
        using lostLoop_none [OF l [unfolded none(2)] False assms(3,2,4)] by blast
      have "sph_alarm h1 = t" using False p(1) by (simp add: h1 updateLossDetectionAlarm_def)
      then have "pk_SendTime p + ?d < now'" using assms(5) p(3) by (simp add: h1_def)
      then have "length (sph_retransmissionQueue h1) < length (sph_retransmissionQueue (detectLostPackets alg now' h1))"
        using detect_something [of now' h1 alg] lostLoop_first [OF p(2) _ assms(4)] p(1) by (simp add: same)
      moreover have "OnAlarm alg cb now' h1 = updateLossDetectionAlarm alg (detectLostPackets alg now' h1)"
        using out False same(4) by (simp add: OnAlarm_def)
      ultimately show ?thesis using same(5) unfolding h1_def [symmetric] by simp
    qed
  qed
qed

section \<open>Backoff\<close>

lemma int64_shift_large: "64 \<le> k \<Longrightarrow> int64 (x * 2 ^ k) = 0"
proof -
  assume "64 \<le> k"
  then obtain j where k: "k = 64 + j" using le_Suc_ex by blast
  have "x * 2 ^ k = 2 ^ 64 * (x * 2 ^ j)" by (simp add: k power_add)
  then have "int64 (x * 2 ^ k) = (2 ^ 64 * (x * 2 ^ j) + 2 ^ 63) mod 2 ^ 64 - 2 ^ 63" by (simp only: int64_def)
  also have "\<dots> = 0" by simp
  finally show ?thesis .
qed

section \<open>Properties\<close>

text \<open>
  C22. The cubic controller behind the sent packet handler always returns: whatever packets are
  sent, acknowledged and lost, and whatever the cube root function computes, the loop over the
  acknowledged packets ends in every call; the window stays at most the maximum of 2500 packets.
\<close>

theorem cubic_terminates:
  assumes "sender (cubicAlgorithm cbrt) (Some (NewCubicSender reno 64 2500)) S D A Q h"
  shows "\<exists>c. sph_congestion h = Some c \<and> cs_congestionWindow c \<le> 2500"
proof -
  obtain c where c: "sph_congestion h = Some c" "cubicOk 2500 c"
    using cubic_alg.guarded_sane [OF cubic_alg.sender_guarded [OF assms]] cubicOk_new by blast
  then have "cs_congestionWindow c \<le> cs_maxTCPCongestionWindow c" "cs_maxTCPCongestionWindow c \<le> 2500"
    by (simp_all add: cubicOk_def)
  then show ?thesis using c(1) order_trans by blast
qed

theorem cubic_terminates_witness:
  "\<exists>c. sph_congestion (fst (SentPacket (cubicAlgorithm (\<lambda>x. x)) 5 pingPacket
      (NewSentPacketHandler RTTStats_zero (Some (NewCubicSender False 64 2500))))) = Some c \<and> cs_congestionWindow c \<le> 2500"
proof -
  let ?h = "NewSentPacketHandler RTTStats_zero (Some (NewCubicSender False 64 2500))"
  have "snd (SentPacket (cubicAlgorithm (\<lambda>x. x)) 5 pingPacket ?h) = None" by code_simp
  then have s: "SentPacket (cubicAlgorithm (\<lambda>x. x)) 5 pingPacket ?h
      = (fst (SentPacket (cubicAlgorithm (\<lambda>x. x)) 5 pingPacket ?h), None)" by (simp add: prod_eq_iff)
  show ?thesis
    by (rule cubic_terminates [OF sender.sent [OF sender.start s]]) (simp_all add: NewSentPacketHandler_def)
qed

text \<open>A path with the coupled controller, and one packet sent on it.\<close>

definition exampleOlia :: "oliaSenders" where
  "exampleOlia = [(1, NewOliaSender 64 2500), (3, NewOliaSender 64 2500)]"

definition exampleOliaSent :: "oliaSenders sentPacketHandler" where
  "exampleOliaSent = fst (SentPacket (oliaAlgorithm (\<lambda>_. RTTStats_zero) 1) 5 pingPacket
     (NewSentPacketHandler RTTStats_zero exampleOlia))"

lemma exampleOlia_ok: "allOk 2500 exampleOlia" "1 \<in> fst ` set exampleOlia"
  by (simp_all add: exampleOlia_def allOk_def windowOk_def NewOliaSender_def newSender_def tcpSender.defs
      OliaSender.defs defaultMinimumCongestionWindow_def defaultNumConnections_def)

lemma exampleOlia_sent:
  "SentPacket (oliaAlgorithm (\<lambda>_. RTTStats_zero) 1) 5 pingPacket (NewSentPacketHandler RTTStats_zero exampleOlia)
    = (exampleOliaSent, None)"
  unfolding exampleOliaSent_def prod_eq_iff by code_simp

lemma exampleOlia_sender:
  "sender (oliaAlgorithm (\<lambda>_. RTTStats_zero) 1) exampleOlia {# trackedPacket 5 pingPacket #} {#} {#} [] exampleOliaSent"
  using sender.sent [OF sender.start exampleOlia_sent] by (simp add: NewSentPacketHandler_def pingPacket_def)



text \<open>
  C24. Retransmission is live. In every reachable state with a packet of retransmittable type in
  flight the alarm is set, and when the alarm fires twice, the second time after the moment that
  was set, at least one packet is queued for retransmission.
\<close>

theorem retransmission_live:
  assumes "sender (oliaAlgorithm rtts path) m S D A Q h" "allOk 2500 m" "path \<in> fst ` set m"
    and "hasOutstandingRetransmittablePacket h" "rttOk (sph_rttStats h)"
    and "\<forall>p \<in> set (sph_packetHistory h). pk_SendTime p \<le> now" "0 < now"
      "delayUntilLost (sph_rttStats h) < 2 ^ 63 - 1"
      "GetAlarmTimeout (OnAlarm (oliaAlgorithm rtts path) cb now h) < now'"
  shows "GetAlarmTimeout h \<noteq> 0
    \<and> length (sph_retransmissionQueue h)
      < length (sph_retransmissionQueue (OnAlarm (oliaAlgorithm rtts path) cb now' (OnAlarm (oliaAlgorithm rtts path) cb now h)))"
proof -
  have "allOk 2500 m \<and> path \<in> fst ` set m" using assms(2,3) by simp
  from olia_alg.sender_guarded [OF assms(1) this] have "sph_alarm h \<noteq> 0"
    using assms(4,5) by (simp add: olia_alg.guarded_def outstanding_def)
  then show ?thesis using alarm_progress [OF assms(4,6,7,8)] assms(9) by (simp add: GetAlarmTimeout_def)
qed

theorem retransmission_live_witness:
  "GetAlarmTimeout exampleOliaSent \<noteq> 0
    \<and> 0 < length (sph_retransmissionQueue (OnAlarm (oliaAlgorithm (\<lambda>_. RTTStats_zero) 1) None 7
        (OnAlarm (oliaAlgorithm (\<lambda>_. RTTStats_zero) 1) None 6 exampleOliaSent)))"
proof -
  have out: "hasOutstandingRetransmittablePacket exampleOliaSent" by code_simp
  have rtt: "rttOk (sph_rttStats exampleOliaSent)" "delayUntilLost (sph_rttStats exampleOliaSent) < 2 ^ 63 - 1"
    by code_simp+
  have t: "\<forall>p \<in> set (sph_packetHistory exampleOliaSent). pk_SendTime p \<le> 6" by code_simp
  have "GetAlarmTimeout (OnAlarm (oliaAlgorithm (\<lambda>_. RTTStats_zero) 1) None 6 exampleOliaSent) < 7" by code_simp
  from retransmission_live [OF exampleOlia_sender exampleOlia_ok out rtt(1) t _ rtt(2) this] show ?thesis by fastforce
qed

text \<open>
  C25. The retransmission timeout: while the doubled timeout fits into a \<open>Duration\<close>, it is the base
  timeout times two to the number of timeouts, at least 200 ms and at most 60 s. From 64 timeouts
  in a row on the shift yields 0, and the alarm is set to the minimum of 200 ms again.
\<close>

theorem rto_backoff:
  fixes alg :: "'c SendAlgorithm"
  defines "base \<equiv> \<lambda>h. max (if RetransmissionDelay alg (sph_rttStats h) (sph_congestion h) = 0 then defaultRTOTimeout
      else RetransmissionDelay alg (sph_rttStats h) (sph_congestion h)) minRTOTimeout"
  shows "(base h * 2 ^ unat (sph_rtoCount h) < 2 ^ 63 \<longrightarrow>
        computeRTOTimeout alg h = min (base h * 2 ^ unat (sph_rtoCount h)) maxRTOTimeout
        \<and> minRTOTimeout \<le> computeRTOTimeout alg h \<and> computeRTOTimeout alg h \<le> maxRTOTimeout)
    \<and> (64 \<le> unat (sph_rtoCount h) \<and> sph_packetHistory h \<noteq> [] \<and> sph_lossTime h = 0 \<and> \<not> sph_tlpCount h < maxTailLossProbes \<longrightarrow>
        GetAlarmTimeout (updateLossDetectionAlarm alg h) = sph_lastSentTime h + minRetransmissionTime)"
proof (intro conjI impI)
  have b: "minRTOTimeout \<le> base h" by (simp add: base_def)
  have "(1 :: int) \<le> 2 ^ unat (sph_rtoCount h)" by simp
  then have m: "base h \<le> base h * 2 ^ unat (sph_rtoCount h)"
    using b by (intro mult_le_cancel_left1 [THEN iffD2]) (auto simp: minRTOTimeout_def Millisecond_def)
  have "0 \<le> base h" using b by (simp add: minRTOTimeout_def Millisecond_def)
  define x where "x = base h * 2 ^ unat (sph_rtoCount h)"
  assume "base h * 2 ^ unat (sph_rtoCount h) < 2 ^ 63"
  then have "int64 x = x" using m \<open>0 \<le> base h\<close> unfolding x_def [symmetric] by (intro int64_id) simp_all
  then have "int64 (base h * 2 ^ unat (sph_rtoCount h)) = base h * 2 ^ unat (sph_rtoCount h)" by (simp only: x_def)
  then show e: "computeRTOTimeout alg h = min (base h * 2 ^ unat (sph_rtoCount h)) maxRTOTimeout"
    by (simp add: computeRTOTimeout_def base_def Let_def)
  show "minRTOTimeout \<le> computeRTOTimeout alg h"
    using order_trans [OF b m] unfolding e x_def [symmetric]
    by (simp add: minRTOTimeout_def maxRTOTimeout_def Millisecond_def)
  show "computeRTOTimeout alg h \<le> maxRTOTimeout" unfolding e by simp
next
  assume a: "64 \<le> unat (sph_rtoCount h) \<and> sph_packetHistory h \<noteq> [] \<and> sph_lossTime h = 0 \<and> \<not> sph_tlpCount h < maxTailLossProbes"
  then have "computeRTOTimeout alg h = 0"
    by (simp add: computeRTOTimeout_def Let_def int64_shift_large maxRTOTimeout_def Millisecond_def)
  then show "GetAlarmTimeout (updateLossDetectionAlarm alg h) = sph_lastSentTime h + minRetransmissionTime"
    using a by (simp add: GetAlarmTimeout_def updateLossDetectionAlarm_def minRetransmissionTime_def Millisecond_def)
qed

theorem rto_backoff_witness:
  "computeRTOTimeout fixedWindow (exampleSent\<lparr> sph_rtoCount := 2 \<rparr>) = 2000 * Millisecond
    \<and> GetAlarmTimeout (updateLossDetectionAlarm fixedWindow (exampleSent\<lparr> sph_rtoCount := 64, sph_tlpCount := 2 \<rparr>))
       = 5 + 200 * Millisecond"
proof -
  let ?a = "exampleSent\<lparr> sph_rtoCount := 2 \<rparr>" and ?b = "exampleSent\<lparr> sph_rtoCount := 64, sph_tlpCount := 2 \<rparr>"
  have d: "RetransmissionDelay fixedWindow r c = 0" for r c by (simp add: fixedWindow_def)
  have "sph_packetHistory ?b \<noteq> [] \<and> sph_lossTime ?b = 0 \<and> \<not> sph_tlpCount ?b < maxTailLossProbes"
    "sph_lastSentTime ?b = 5" by code_simp+
  then show ?thesis using rto_backoff [of fixedWindow ?a] rto_backoff [of fixedWindow ?b]
    by (simp add: d defaultRTOTimeout_def minRTOTimeout_def maxRTOTimeout_def minRetransmissionTime_def Millisecond_def)
qed



end
