(* ===== verification/StreamIO.thy ===== *)
theory StreamIO
  imports FrameSorter FlowControlLive
begin

text \<open>
  A stream (\<open>stream.go\<close>): its receiving side between the frame sorter and \<open>Read\<close>, its sending
  side between \<open>Write\<close> and the framer, and the ways in which it ends. The flow control manager,
  which the stream shares with the session, is an argument. The two callbacks are values, returned
  in the order of the calls. A buffered channel of capacity 1 is a flag. A call of \<open>Read\<close> runs
  until it returns or waits, and so do the parts of \<open>Write\<close>; while it waits, other operations take
  place. Clock readings are arguments.
\<close>

section \<open>State\<close>

record stream =
  st_ctxCancelled :: bool
  st_streamID :: StreamID
  st_readPosInFrame :: int
  st_writeOffset :: ByteCount
  st_readOffset :: ByteCount
  st_err :: "go_error option"
  st_cancelled :: bool
  st_finishedReading :: bool
  st_finishedWriting :: bool
  st_resetLocally :: bool
  st_resetRemotely :: bool
  st_frameQueue :: streamFrameSorter
  st_readChan :: bool
  st_readDeadline :: Time
  st_dataForWriting :: "byte list option"
  st_finSent :: bool
  st_rstSent :: bool
  st_writeChan :: bool
  st_writeDeadline :: Time

datatype streamCall =
    OnData
  | OnReset StreamID ByteCount

definition errDeadline :: go_error where
  "errDeadline = GoErr ''deadline exceeded''"

definition newStream :: "StreamID \<Rightarrow> stream" where
  "newStream sid =
     \<lparr> st_ctxCancelled = False, st_streamID = sid, st_readPosInFrame = 0, st_writeOffset = 0,
       st_readOffset = 0, st_err = None, st_cancelled = False, st_finishedReading = False,
       st_finishedWriting = False, st_resetLocally = False, st_resetRemotely = False,
       st_frameQueue = newStreamFrameSorter, st_readChan = False, st_readDeadline = 0,
       st_dataForWriting = None, st_finSent = False, st_rstSent = False, st_writeChan = False,
       st_writeDeadline = 0 \<rparr>"

definition signalRead :: "stream \<Rightarrow> stream" where
  "signalRead s = s\<lparr> st_readChan := True \<rparr>"

definition signalWrite :: "stream \<Rightarrow> stream" where
  "signalWrite s = s\<lparr> st_writeChan := True \<rparr>"

section \<open>Read\<close>

text \<open>
  A call of \<open>Read\<close> returns with the bytes it has copied and an error, or it waits; it waits only
  when it has copied nothing.
\<close>

datatype readResult =
    ReadReturns "byte list" "go_error option"
  | ReadWaits

text \<open>
  The reasons for which the inner loop ends without a look at the frame, and the error it ends
  with.
\<close>

definition readStop :: "Time \<Rightarrow> stream \<Rightarrow> bool \<times> go_error option" where
  "readStop now s =
     (if st_resetLocally s \<or> st_cancelled s then (True, st_err s)
      else if st_readDeadline s \<noteq> 0 \<and> \<not> now < st_readDeadline s then (True, Some errDeadline)
      else (False, None))"

text \<open>
  The part of the outer loop that copies from the frame at the head of the queue: the result is
  \<open>None\<close> when the loop goes on.
\<close>

definition readFrame :: "Time \<times> Time \<Rightarrow> nat \<Rightarrow> byte list \<Rightarrow> StreamFrame \<Rightarrow> stream \<Rightarrow> flowControlManager
    \<Rightarrow> readResult option \<times> byte list \<times> stream \<times> flowControlManager \<times> streamCall list" where
  "readFrame clock n out frame s f =
     (let bytesRead = int (length out);
          dataLen = sint (StreamFrame_DataLen frame);
          pos = st_readPosInFrame s;
          m = min (int n - bytesRead) (dataLen - pos)
      in if bytesRead > int n
         then (Some (ReadReturns out (Some (GoErr (''BUG: bytesRead ('' @ formatBase 10 (nat bytesRead)
                 @ '') > len(p) ('' @ formatBase 10 n @ '') in stream.Read'')))), out, s, f, [])
         else if pos > dataLen
         then (Some (ReadReturns out (Some (GoErr (''BUG: readPosInFrame ('' @ formatBase 10 (nat pos)
                 @ '') > frame.DataLen ('' @ formatBase 10 (unat (StreamFrame_DataLen frame))
                 @ '') in stream.Read'')))), out, s, f, [])
         else if pos < 0
         then (Some (ReadReturns out (Some (Panic ''slice bounds out of range''))), out, s, f, [])
         else
      let out = out @ take (nat m) (drop (nat pos) (sf_Data frame));
          s = s\<lparr> st_readPosInFrame := pos + m, st_readOffset := st_readOffset s + of_int m \<rparr>;
          f = (if st_resetRemotely s then f else fst (AddBytesRead clock (st_streamID s) (of_int m) f))
      in if pos + m \<ge> dataLen
         then let s = s\<lparr> st_frameQueue := snd (Pop (st_frameQueue s)) \<rparr>
              in if sf_FinBit frame
                 then (Some (ReadReturns out (Some IoEOF)), out, s\<lparr> st_finishedReading := True \<rparr>, f, [OnData])
                 else (None, out, s, f, [OnData])
         else (None, out, s, f, [OnData]))"

text \<open>
  The outer loop. \<open>clock i\<close> is what the \<open>i\<close>-th round reads: the time that is compared with the
  deadline, and the two times of \<open>AddBytesRead\<close>. A round that finds no frame returns when
  something was copied, and waits otherwise; a reader that is woken up continues here, with
  nothing copied.
\<close>

partial_function (option) readLoop :: "(nat \<Rightarrow> Time \<times> Time \<times> Time) \<Rightarrow> nat \<Rightarrow> nat \<Rightarrow> byte list \<Rightarrow> stream
    \<Rightarrow> flowControlManager \<Rightarrow> streamCall list
    \<Rightarrow> (readResult \<times> stream \<times> flowControlManager \<times> streamCall list) option" where
  "readLoop clock i n out s f calls =
     (if \<not> length out < n then Some (ReadReturns out None, s, f, calls)
      else if Head (st_frameQueue s) = None \<and> out \<noteq> [] then Some (ReadReturns out (st_err s), s, f, calls)
      else
     (case readStop (fst (clock i)) s of
        (_, Some err) \<Rightarrow> Some (ReadReturns out (Some err), s, f, calls)
      | (stopped, None) \<Rightarrow>
     (case Head (st_frameQueue s) of
        None \<Rightarrow> Some (if stopped then ReadReturns out (Some (Panic ''nil pointer dereference'')) else ReadWaits,
                      s, f, calls)
      | Some frame \<Rightarrow>
     (case readFrame (snd (clock i)) n out frame
             (if stopped then s else s\<lparr> st_readPosInFrame := sint (st_readOffset s - sf_Offset frame) \<rparr>) f of
        (Some r, _, s, f, calls') \<Rightarrow> Some (r, s, f, calls @ calls')
      | (None, out, s, f, calls') \<Rightarrow> readLoop clock (i + 1) n out s f (calls @ calls')))))"

declare readLoop.simps [code]

text \<open>\<open>Read\<close> with a buffer of \<open>n\<close> bytes. Receiving from \<open>readChan\<close> takes the signal.\<close>

definition stream_Read :: "(nat \<Rightarrow> Time \<times> Time \<times> Time) \<Rightarrow> nat \<Rightarrow> stream \<Rightarrow> flowControlManager
    \<Rightarrow> (readResult \<times> stream \<times> flowControlManager \<times> streamCall list) option" where
  "stream_Read clock n s f =
     (if st_cancelled s \<or> st_resetLocally s then Some (ReadReturns [] (st_err s), s, f, [])
      else if st_finishedReading s then Some (ReadReturns [] (Some IoEOF), s, f, [])
      else readLoop clock 0 n [] s f [])"

definition readWakeup :: "(nat \<Rightarrow> Time \<times> Time \<times> Time) \<Rightarrow> nat \<Rightarrow> stream \<Rightarrow> flowControlManager
    \<Rightarrow> (readResult \<times> stream \<times> flowControlManager \<times> streamCall list) option" where
  "readWakeup clock n s f = readLoop clock 0 n [] (s\<lparr> st_readChan := False \<rparr>) f []"

section \<open>Write\<close>

text \<open>
  The part of \<open>Write\<close> before its loop: a result, or the state in which the loop starts. One pass
  of the loop, at time \<open>now\<close>, for \<open>n\<close> bytes: \<open>None\<close> when it waits for \<open>writeChan\<close>.
\<close>

definition Write_enter :: "byte list \<Rightarrow> stream \<Rightarrow> (int \<times> go_error option) + (stream \<times> streamCall list)" where
  "Write_enter p s =
     (if st_resetLocally s \<or> st_err s \<noteq> None then Inl (0, st_err s)
      else if st_finishedWriting s
      then Inl (0, Some (GoErr (''write on closed stream '' @ formatBase 10 (unat (st_streamID s)))))
      else if p = [] then Inl (0, None)
      else Inr (s\<lparr> st_dataForWriting := Some p \<rparr>, [OnData]))"

definition dataLenForWriting :: "stream \<Rightarrow> nat" where
  "dataLenForWriting s = (case st_dataForWriting s of None \<Rightarrow> 0 | Some d \<Rightarrow> length d)"

definition Write_check :: "Time \<Rightarrow> nat \<Rightarrow> stream \<Rightarrow> (int \<times> go_error option) option" where
  "Write_check now n s =
     (if st_writeDeadline s \<noteq> 0 \<and> \<not> now < st_writeDeadline s then Some (0, Some errDeadline)
      else if st_dataForWriting s = None \<or> st_err s \<noteq> None
      then Some (if st_err s \<noteq> None then (int n - int (dataLenForWriting s), st_err s) else (int n, None))
      else None)"

definition lenOfDataForWriting :: "stream \<Rightarrow> ByteCount" where
  "lenOfDataForWriting s = (if st_err s = None then of_nat (dataLenForWriting s) else 0)"

definition getDataForWriting :: "ByteCount \<Rightarrow> stream \<Rightarrow> byte list option \<times> stream" where
  "getDataForWriting maxBytes s =
     (if st_err s \<noteq> None then (None, s)
      else case st_dataForWriting s of
             None \<Rightarrow> (None, s)
           | Some d \<Rightarrow>
               (let (ret, s) = (if of_nat (length d) > maxBytes
                                then (take (unat maxBytes) d, s\<lparr> st_dataForWriting := Some (drop (unat maxBytes) d) \<rparr>)
                                else (d, signalWrite (s\<lparr> st_dataForWriting := None \<rparr>)))
                in (Some ret, s\<lparr> st_writeOffset := st_writeOffset s + of_nat (length ret) \<rparr>)))"

definition stream_Close :: "stream \<Rightarrow> stream \<times> streamCall list" where
  "stream_Close s = (s\<lparr> st_finishedWriting := True, st_ctxCancelled := True \<rparr>, [OnData])"

section \<open>The end of a stream\<close>

definition finishedWriteAndSentFin :: "stream \<Rightarrow> bool" where
  "finishedWriteAndSentFin s \<longleftrightarrow> st_finishedWriting s \<and> st_finSent s"

definition shouldSendReset :: "stream \<Rightarrow> bool" where
  "shouldSendReset s \<longleftrightarrow>
     (if st_rstSent s then False
      else (st_resetLocally s \<or> st_resetRemotely s) \<and> \<not> finishedWriteAndSentFin s)"

definition shouldSendFin :: "stream \<Rightarrow> bool" where
  "shouldSendFin s \<longleftrightarrow>
     st_finishedWriting s \<and> \<not> st_finSent s \<and> st_err s = None \<and> st_dataForWriting s = None"

definition sentFin :: "stream \<Rightarrow> stream" where
  "sentFin s = s\<lparr> st_finSent := True \<rparr>"

definition finished :: "stream \<Rightarrow> bool" where
  "finished s \<longleftrightarrow>
     st_cancelled s
     \<or> (st_finishedReading s \<and> finishedWriteAndSentFin s)
     \<or> (st_resetRemotely s \<and> st_rstSent s)
     \<or> (st_finishedReading s \<and> st_rstSent s)
     \<or> (finishedWriteAndSentFin s \<and> st_resetRemotely s)"

definition AddStreamFrame :: "StreamFrame \<Rightarrow> stream \<Rightarrow> flowControlManager
    \<Rightarrow> stream \<times> flowControlManager \<times> go_error option" where
  "AddStreamFrame frame s f =
     (case UpdateHighestReceived (st_streamID s) (sf_Offset frame + StreamFrame_DataLen frame) f of
        (f, Some err) \<Rightarrow> (s, f, Some err)
      | (f, None) \<Rightarrow>
          (case Push frame (st_frameQueue s) of
             (q, err) \<Rightarrow>
               if err \<noteq> None \<and> err \<noteq> Some errDuplicateStreamData then (s\<lparr> st_frameQueue := q \<rparr>, f, err)
               else (signalRead (s\<lparr> st_frameQueue := q \<rparr>), f, None)))"

definition SetReadDeadline :: "Time \<Rightarrow> stream \<Rightarrow> stream" where
  "SetReadDeadline t s =
     (let oldDeadline = st_readDeadline s;
          s = s\<lparr> st_readDeadline := t \<rparr>
      in if t < oldDeadline then signalRead s else s)"

definition SetWriteDeadline :: "Time \<Rightarrow> stream \<Rightarrow> stream" where
  "SetWriteDeadline t s =
     (let oldDeadline = st_writeDeadline s;
          s = s\<lparr> st_writeDeadline := t \<rparr>
      in if t < oldDeadline then signalWrite s else s)"

definition SetDeadline :: "Time \<Rightarrow> stream \<Rightarrow> stream" where
  "SetDeadline t s = SetWriteDeadline t (SetReadDeadline t s)"

definition CloseRemote :: "ByteCount \<Rightarrow> stream \<Rightarrow> flowControlManager \<Rightarrow> stream \<times> flowControlManager" where
  "CloseRemote offset s f =
     (case AddStreamFrame \<lparr> sf_StreamID = 0, sf_FinBit = True, sf_DataLenPresent = False,
                            sf_Offset = offset, sf_Data = [] \<rparr> s f of
        (s, f, _) \<Rightarrow> (s, f))"

definition stream_Cancel :: "go_error option \<Rightarrow> stream \<Rightarrow> stream" where
  "stream_Cancel err s =
     (let s = s\<lparr> st_cancelled := True, st_ctxCancelled := True \<rparr>
      in if st_err s = None then signalWrite (signalRead (s\<lparr> st_err := err \<rparr>)) else s)"

definition maybeSendReset :: "stream \<Rightarrow> stream \<times> streamCall list" where
  "maybeSendReset s =
     (if shouldSendReset s then (s\<lparr> st_rstSent := True \<rparr>, [OnReset (st_streamID s) (st_writeOffset s)])
      else (s, []))"

definition stream_Reset :: "go_error option \<Rightarrow> stream \<Rightarrow> stream \<times> streamCall list" where
  "stream_Reset err s =
     (if st_resetLocally s then (s, [])
      else let s = s\<lparr> st_resetLocally := True, st_ctxCancelled := True \<rparr>;
               s = (if st_err s = None then signalWrite (signalRead (s\<lparr> st_err := err \<rparr>)) else s)
           in maybeSendReset s)"

definition RegisterRemoteError :: "go_error option \<Rightarrow> stream \<Rightarrow> stream \<times> streamCall list" where
  "RegisterRemoteError err s =
     (if st_resetRemotely s then (s, [])
      else let s = s\<lparr> st_resetRemotely := True, st_ctxCancelled := True \<rparr>;
               s = (if st_err s = None then signalWrite (s\<lparr> st_err := err \<rparr>) else s)
           in maybeSendReset s)"

definition stream_GetBytesSent :: "stream \<Rightarrow> flowControlManager \<Rightarrow> go_error + ByteCount" where
  "stream_GetBytesSent s f = GetBytesSent (st_streamID s) f"

definition stream_GetBytesRetrans :: "stream \<Rightarrow> flowControlManager \<Rightarrow> go_error + ByteCount" where
  "stream_GetBytesRetrans s f = GetBytesRetrans (st_streamID s) f"

section \<open>The frame that is being read stays\<close>

text \<open>While the head of the queue has data, all gaps are behind its start.\<close>

lemma gaps_behind_head:
  assumes "sorterInv D F R q" "Head q = Some h" "sf_Data h \<noteq> []" "g \<in> set (sfs_gaps q)"
  shows "sfs_readPosition q < bi_Start g"
proof -
  let ?p = "unat (sfs_readPosition q)"
  have i: "gapsInv (sfs_gaps q)" "missing (sfs_gaps q) = {..<maxOffset} - R"
    "chained (sfs_queuedFrames q) ?p (sfs_gaps q)"
    using assms(1) by (auto simp: sorterInv_def)
  have "?p \<in> R" using Head_starts_here [OF assms(1,2)] assms(3) by (auto simp: frameRange_def)
  obtain g0 gaps where gaps: "sfs_gaps q = g0 # gaps" using i(1) by (cases "sfs_gaps q") (auto simp: gapsInv_def)
  have "?p \<le> gs g0" using i(3) gaps by (auto dest: chain_le)
  moreover have "gs g0 \<notin> R" using i(1,2) gaps by (auto simp: gapsInv_def)
  ultimately have "?p < gs g0" using \<open>?p \<in> R\<close> by (metis le_neq_implies_less)
  moreover have "gs g0 \<le> gs g" using assms(4) i(1) gaps by (fastforce simp: gapsInv_def)
  ultimately show ?thesis by (simp add: word_less_nat_alt)
qed

lemma findEndGap_queue:
  "findEndGap stop same g rest q = (es, q') \<Longrightarrow> k \<notin> bi_End ` set (g # rest) \<Longrightarrow> q' k = q k"
proof (induction stop same g rest q rule: findEndGap.induct)
  case (1 stop same g rest q)
  show ?case
  proof (cases "\<exists>n ns. bi_End g \<le> stop \<and> rest = n # ns \<and> \<not> stop \<le> bi_Start n")
    case True
    then obtain n ns where c: "bi_End g \<le> stop" "rest = n # ns" "\<not> stop \<le> bi_Start n" by blast
    then have "findEndGap stop False n ns (q(bi_End g := None)) = (es, q')"
      using "1.prems"(1) by (subst (asm) findEndGap.simps) simp
    from "1.IH" [OF c this] show ?thesis using "1.prems"(2) c(2) by simp
  next
    case False
    then show ?thesis using "1.prems"(1) by (subst (asm) findEndGap.simps) (auto split: if_splits list.splits)
  qed
qed

lemma insertFrame_head:
  assumes before: "\<And>g. g \<in> set (sfs_gaps q) \<Longrightarrow> sfs_readPosition q < bi_Start g \<and> bi_Start g < bi_End g"
    and r: "insertFrame frame q = (q', e)"
  shows "Head q' = Head q"
proof (cases "findGap (sf_Offset frame) (sf_Offset frame + StreamFrame_DataLen frame) [] (sfs_gaps q)")
  case (Inl e')
  then show ?thesis using r by (simp add: insertFrame_def)
next
  case (Inr x)
  obtain b gap after where x: "x = (b, gap, after)" by (cases x)
  let ?stop = "sf_Offset frame + StreamFrame_DataLen frame" and ?p = "sfs_readPosition q"
  have gaps: "sfs_gaps q = b @ gap # after" using findGap_Inr [OF Inr [unfolded x]] by auto
  define fr where "fr = (if sf_Offset frame < bi_Start gap then cutFront (bi_Start gap - sf_Offset frame) frame else frame)"
  have "bi_Start gap \<le> sf_Offset fr" by (auto simp: fr_def cutFront_def)
  then have off: "sf_Offset fr \<noteq> ?p" using before [of gap] gaps by auto
  obtain es qd where fe: "findEndGap ?stop True gap after (sfs_queuedFrames q) = (es, qd)" by fastforce
  have "?p < bi_End g" if "g \<in> set (gap # after)" for g using before [of g] gaps that by auto
  then have "?p \<notin> bi_End ` set (gap # after)" by fastforce
  then have k: "qd ?p = sfs_queuedFrames q ?p" by (rule findEndGap_queue [OF fe])
  note r = r [unfolded insertFrame_def Let_def Inr x sum.case prod.case, folded fr_def, unfolded fe prod.case]
  show ?thesis
  proof (cases es)
    case (NoEndGap rest)
    then show ?thesis using r k by (auto simp: Head_def)
  next
    case (EndGap same linked endGap rest)
    have "sf_Offset (cutBack n fr) = sf_Offset fr" for n by (simp add: cutBack_def)
    then show ?thesis using r k off EndGap by (auto simp: Head_def split: if_splits)
  qed
qed

lemma Push_head:
  assumes "sorterInv D F R q" "frameOfStream D F frame" "Push frame q = (q', e)"
    and "Head q = Some h" "sf_Data h \<noteq> []"
  shows "Head q' = Some h"
proof -
  have b: "sfs_readPosition q < bi_Start g \<and> bi_Start g < bi_End g" if "g \<in> set (sfs_gaps q)" for g
    using gaps_behind_head [OF assms(1,4,5) that] assms(1) that
    by (auto simp: sorterInv_def gapsInv_def word_less_nat_alt)
  have F: "F < 2 ^ 63" using assms(1) by (simp add: sorterInv_def)
  show ?thesis
  proof (cases "sf_Data frame = []")
    case True
    have "unat (sf_Offset frame) = F" "unat (sfs_readPosition q) + length (sf_Data h) \<le> F"
      using assms(2) True Head_starts_here [OF assms(1,4)] by (auto simp: frameOfStream_def)
    then have "sf_Offset frame \<noteq> sfs_readPosition q" using assms(5) by (cases "sf_Data h") auto
    then show ?thesis using assms(2-4) True
      by (auto simp: Push_def frame_bounds [OF assms(2) F] frameOfStream_def Head_def)
  next
    case False
    then show ?thesis using assms(3,4) insertFrame_head [OF b]
      by (auto simp: Push_def frame_bounds [OF assms(2) F] split: option.splits if_splits)
  qed
qed

section \<open>Reading\<close>

text \<open>
  What holds while a stream of content \<open>D\<close> and length \<open>F\<close> is read: \<open>R\<close> is the set of the bytes
  received, \<open>out\<close> are the bytes returned so far. The bytes up to the read offset are those of the
  stream, and the offset is inside the frame at the head of the queue or at its start.
\<close>

definition atOffset :: "streamFrameSorter \<Rightarrow> nat \<Rightarrow> bool" where
  "atOffset q off \<longleftrightarrow> unat (sfs_readPosition q) = off
     \<or> (\<exists>h. Head q = Some h \<and> unat (sfs_readPosition q) \<le> off
          \<and> off < unat (sfs_readPosition q) + length (sf_Data h))"

definition readInv :: "(nat \<Rightarrow> byte) \<Rightarrow> nat \<Rightarrow> nat set \<Rightarrow> byte list \<Rightarrow> stream \<Rightarrow> bool" where
  "readInv D F R out s \<longleftrightarrow>
     sorterInv D F R (st_frameQueue s) \<and> out = map D [0 ..< length out]
     \<and> unat (st_readOffset s) = length out \<and> {..<length out} \<subseteq> R \<and> atOffset (st_frameQueue s) (length out)"

text \<open>
  The flow controller of the stream has counted every byte that was received, and every byte that
  was read as long as the peer has not reset the stream.
\<close>

definition counted :: "connectionParametersManager \<Rightarrow> nat set \<Rightarrow> stream \<Rightarrow> flowControlManager \<Rightarrow> bool" where
  "counted cp R s f \<longleftrightarrow>
     (\<exists>gh gr gw. flow cp gh gr gw f)
     \<and> (\<exists>c. getFlowController (st_streamID s) f = Inr c \<and> R \<subseteq> {..<unat (fc_highestReceived c)}
          \<and> (\<not> st_resetRemotely s \<longrightarrow> fc_bytesRead c = st_readOffset s))"

lemma sint_small: "unat w < 2 ^ 63 \<Longrightarrow> sint (w :: 64 word) = int (unat w)"
proof -
  assume "unat w < 2 ^ 63"
  then have "int (unat w) < int (2 ^ 63)" by (simp only: of_nat_less_iff)
  then have "uint w < 2 ^ 63" by simp
  moreover have "- (2 ^ 63) \<le> uint w" by (rule order_trans [OF _ uint_ge_0]) simp
  ultimately show ?thesis by (simp add: sint_uint signed_take_bit_int_eq_self)
qed

lemma map_upt_append: "map D [0 ..< m] @ map D [m ..< m + k] = map D [0 ..< m + k]"
  by (simp only: upt_add_eq_append [of 0 m k, OF le0] map_append)

lemma readFrame_ok:
  assumes i: "readInv D F R (acc @ out) s" and h: "Head (st_frameQueue s) = Some frame"
    and pos: "st_readPosInFrame s = sint (st_readOffset s - sf_Offset frame)" and n: "length out < n"
    and r: "readFrame clock n out frame s f = (res, out', s', f', calls)"
  shows "readInv D F R (acc @ out') s'
    \<and> (res = None \<and> length out < length out'
       \<or> res = Some (ReadReturns out' (Some IoEOF)) \<and> st_finishedReading s')
    \<and> f' = (if st_resetRemotely s then f
            else fst (AddBytesRead clock (st_streamID s) (of_nat (length out' - length out)) f))
    \<and> st_streamID s' = st_streamID s \<and> st_resetRemotely s' = st_resetRemotely s
    \<and> length out \<le> length out' \<and> length out' \<le> n"
proof -
  let ?q = "st_frameQueue s" and ?L = "length (sf_Data frame)"
  have so: "sorterInv D F R ?q" and o: "acc @ out = map D [0 ..< length (acc @ out)]"
    and a: "unat (st_readOffset s) = length (acc @ out)" and at: "atOffset ?q (length (acc @ out))"
    using i by (auto simp: readInv_def)
  define a where "a = length (acc @ out)"
  define p where "p = unat (sfs_readPosition ?q)"
  define d where "d = a - p"
  define m where "m = min (n - length out) (?L - d)"
  have F: "F < 2 ^ 63" using so by (simp add: sorterInv_def)
  have fr: "unat (sf_Offset frame) = p" "frameOfStream D F frame" "frameRange frame \<subseteq> R"
    using Head_starts_here [OF so h] by (auto simp: p_def)
  have L: "p + ?L \<le> F" "\<And>i. i < ?L \<Longrightarrow> sf_Data frame ! i = D (p + i)" "?L = 0 \<Longrightarrow> sf_FinBit frame"
    using fr(1,2) by (auto simp: frameOfStream_def)
  have ap: "p \<le> a" "a = p \<or> a < p + ?L" using at h by (auto simp: atOffset_def a_def p_def)
  have d: "d \<le> ?L" "0 < ?L \<Longrightarrow> d < ?L" "p + d = a" using ap by (auto simp: d_def)
  have posd: "st_readPosInFrame s = int d"
  proof -
    have "unat (st_readOffset s - sf_Offset frame) = d"
      using a fr(1) ap(1) by (simp add: unat_sub word_le_nat_alt d_def a_def)
    then show ?thesis using pos L(1) d(1) F by (simp add: sint_small)
  qed
  have dl: "sint (StreamFrame_DataLen frame) = int ?L"
    using frame_bounds(1) [OF fr(2) F] L(1) F by (simp add: sint_small)
  have m: "min (int n - int (length out)) (int ?L - int d) = int m" "d + m \<le> ?L" "m \<le> n - length out"
    using n d(1) by (auto simp: m_def)
  have data: "take m (drop d (sf_Data frame)) = map D [a ..< a + m]"
    by (rule nth_equalityI) (use m(2) L(2) d(3) in \<open>auto simp: add.assoc [symmetric]\<close>)
  have am: "a + m \<le> p + ?L" using d m(2) by simp
  have ro: "unat (st_readOffset s + of_nat m) = a + m"
    using a am L(1) F unfolding a_def [symmetric] by (simp add: unat_word_ariths unat_of_nat)
  have newR: "{..<a + m} \<subseteq> R"
  proof
    fix x
    assume x: "x \<in> {..<a + m}"
    show "x \<in> R"
    proof (cases "x < a")
      case True
      then show ?thesis using i by (auto simp: readInv_def a_def)
    next
      case False
      then have "x \<in> frameRange frame" using x am ap(1) fr(1) by (auto simp: frameRange_def)
      then show ?thesis using fr(3) by auto
    qed
  qed
  define out2 where "out2 = out @ take m (drop d (sf_Data frame))"
  have out2: "acc @ out2 = map D [0 ..< a + m]" "length (acc @ out2) = a + m" "length out2 = length out + m"
  proof -
    have "acc @ out2 = map D [0 ..< a] @ map D [a ..< a + m]"
      unfolding out2_def data append_assoc [symmetric] a_def using o by simp
    then show e: "acc @ out2 = map D [0 ..< a + m]" by (simp only: map_upt_append)
    show "length (acc @ out2) = a + m" by (simp only: e length_map length_upt)
    then show "length out2 = length out + m" by (simp add: a_def)
  qed
  define s2 where "s2 = s\<lparr> st_readPosInFrame := int d + int m, st_readOffset := st_readOffset s + of_nat m \<rparr>"
  define f2 where "f2 = (if st_resetRemotely s then f else fst (AddBytesRead clock (st_streamID s) (of_nat m) f))"
  define q2 where "q2 = snd (Pop ?q)"
  have r2: "(res, out', s', f', calls) =
    (if ?L \<le> d + m
     then if sf_FinBit frame
          then (Some (ReadReturns out2 (Some IoEOF)), out2, s2\<lparr> st_frameQueue := q2, st_finishedReading := True \<rparr>, f2, [OnData])
          else (None, out2, s2\<lparr> st_frameQueue := q2 \<rparr>, f2, [OnData])
     else (None, out2, s2, f2, [OnData]))"
  proof -
    have c: "\<not> int n < int (length out)" "\<not> int ?L < int d" "\<not> int d < 0"
      "(int ?L \<le> int d + int m) = (?L \<le> d + m)" using n d(1) by linarith+
    show ?thesis using r [symmetric] unfolding readFrame_def Let_def posd dl m(1)
      by (simp only: c if_False nat_int of_int_of_nat_eq out2_def s2_def f2_def q2_def) simp
  qed
  have ri: "readInv D F R (acc @ out2) (s2\<lparr> st_frameQueue := q2 \<rparr>)" if "?L \<le> d + m"
  proof -
    have "Pop ?q = (Some frame, q2)" using h by (simp add: q2_def Pop_def)
    note pop = Pop_inv [OF so this]
    have "unat (sfs_readPosition q2) = p + ?L" unfolding p_def by (rule conjunct1 [OF conjunct2 [OF pop]])
    then have "unat (sfs_readPosition q2) = a + m" using d(3) m(2) that by linarith
    then show ?thesis unfolding readInv_def out2(2) using conjunct1 [OF pop] ro newR out2(1)
      by (simp add: s2_def atOffset_def)
  qed
  have ri2: "readInv D F R (acc @ out2) s2" if "\<not> ?L \<le> d + m"
    unfolding readInv_def out2(2) using so ro newR out2(1) that h d(3)
    by (auto simp: s2_def atOffset_def p_def [symmetric])
  have pos_m: "0 < m" if "0 < ?L" using that n d(2) by (simp add: m_def)
  show ?thesis
  proof (cases "?L \<le> d + m")
    case True
    show ?thesis
    proof (cases "sf_FinBit frame")
      case fin: True
      have "readInv D F R (acc @ out2) (s2\<lparr> st_frameQueue := q2, st_finishedReading := True \<rparr>)"
        using ri [OF True] by (simp add: readInv_def)
      then show ?thesis using r2 True fin out2(3) m(3) n by (simp add: s2_def f2_def)
    next
      case False
      then have "0 < m" using L(3) pos_m by auto
      then show ?thesis using r2 True False ri out2(3) m(3) n by (simp add: s2_def f2_def)
    qed
  next
    case False
    then have "0 < ?L" by linarith
    then have "0 < m" by (rule pos_m)
    then show ?thesis using r2 False ri2 out2(3) m(3) n by (simp add: s2_def f2_def)
  qed
qed

lemma counted_read:
  assumes "counted cp R s f" "unat (st_readOffset s) = a" "unat (st_readOffset s') = a + m" "{..<a + m} \<subseteq> R"
    and "st_streamID s' = st_streamID s" "st_resetRemotely s' = st_resetRemotely s"
    and "f' = (if st_resetRemotely s then f else fst (AddBytesRead clock (st_streamID s) (of_nat m) f))"
  shows "counted cp R s' f'"
proof (cases "st_resetRemotely s")
  case True
  then show ?thesis using assms by (auto simp: counted_def)
next
  case False
  then obtain c gh gr gw where c: "getFlowController (st_streamID s) f = Inr c" "R \<subseteq> {..<unat (fc_highestReceived c)}"
    "fc_bytesRead c = st_readOffset s" "flow cp gh gr gw f"
    using assms(1) by (auto simp: counted_def)
  have m: "a + m \<le> unat (fc_highestReceived c)" using subset_trans [OF assms(4) c(2)] by simp
  then have small: "unat (of_nat m :: ByteCount) = m"
    using unsigned_less [where ?'a = nat, of "fc_highestReceived c"] by (simp add: unat_of_nat)
  have add: "st_readOffset s' = st_readOffset s + of_nat m"
    using m assms(2,3) small unsigned_less [where ?'a = nat, of "fc_highestReceived c"]
    by (simp add: word_unat_eq_iff unat_word_ariths)
  obtain f'' where f'': "AddBytesRead clock (st_streamID s) (of_nat m) f = (f'', None)"
    using c(1) by (simp add: AddBytesRead_def onBoth_def Let_def)
  have "flow cp gh gr gw f''"
    by (rule flow.read [OF c(4,1) _ f'']) (use m assms(2) c(3) small in simp)
  moreover have "getFlowController (st_streamID s) f'' = Inr (fc_AddBytesRead (fst clock) (of_nat m) c)"
    using f'' c(1) by (auto simp: AddBytesRead_def getFlowController_Inr elim!: onBoth_ok simp: update_conv)
  moreover have "f' = f''" using assms(7) False f'' by simp
  ultimately show ?thesis using assms(5,6) c(2,3) add by (auto simp: counted_def)
qed

lemma readInv_missing:
  assumes "readInv D F R out s" "Head (st_frameQueue s) = None"
  shows "length out \<notin> R"
  using assms Head_next_missing by (fastforce simp: readInv_def atOffset_def)

text \<open>A reset or cancelled stream has an error.\<close>

definition errIfStopped :: "stream \<Rightarrow> bool" where
  "errIfStopped s \<longleftrightarrow> (st_resetLocally s \<or> st_cancelled s \<longrightarrow> st_err s \<noteq> None)"

text \<open>
  What a call of \<open>Read\<close> with a buffer of \<open>n\<close> bytes may do when \<open>acc\<close> was read before: it waits only for
  a byte that has not been received, and it returns without an error and less than \<open>n\<close> bytes only
  when the next byte has not been received.
\<close>

definition readOk :: "(nat \<Rightarrow> byte) \<Rightarrow> nat \<Rightarrow> nat set \<Rightarrow> byte list \<Rightarrow> nat \<Rightarrow> stream \<Rightarrow> stream \<Rightarrow> readResult \<Rightarrow> bool" where
  "readOk D F R acc n s s' res \<longleftrightarrow>
     (case res of
        ReadWaits \<Rightarrow> readInv D F R acc s' \<and> length acc \<notin> R
      | ReadReturns bs err \<Rightarrow>
          readInv D F R (acc @ bs) s' \<and> length bs \<le> n
          \<and> (err = None \<longrightarrow> length bs = n \<or> length (acc @ bs) \<notin> R)
          \<and> err \<in> {None, st_err s, Some errDeadline, Some IoEOF})"

definition sameRead :: "stream \<Rightarrow> stream \<Rightarrow> bool" where
  "sameRead s s' \<longleftrightarrow>
     st_streamID s' = st_streamID s \<and> st_resetRemotely s' = st_resetRemotely s \<and> st_err s' = st_err s
     \<and> st_resetLocally s' = st_resetLocally s \<and> st_cancelled s' = st_cancelled s"

lemma readFrame_same:
  "readFrame clock n out frame s f = (res, out', s', f', calls) \<Longrightarrow> sameRead s s'"
  by (auto simp: readFrame_def Let_def sameRead_def split: if_splits)

lemma readOk_same: "sameRead s s' \<Longrightarrow> readOk D F R acc n s' t res = readOk D F R acc n s t res"
  by (cases res) (simp_all add: readOk_def sameRead_def)

lemma sameRead_trans: "sameRead s s' \<Longrightarrow> sameRead s t = sameRead s' t"
  by (auto simp: sameRead_def)

lemma readLoop_ok:
  assumes "readInv D F R (acc @ out) s" "counted cp R s f" "length out \<le> n" "errIfStopped s"
  shows "\<exists>res s' f' calls'. readLoop clock i n out s f calls = Some (res, s', f', calls')
    \<and> counted cp R s' f' \<and> sameRead s s' \<and> readOk D F R acc n s s' res"
  using assms
proof (induction "n - length out" arbitrary: i out s f calls rule: less_induct)
  case less
  let ?h = "Head (st_frameQueue s)"
  have "readStop (fst (clock i)) s = (False, None) \<or> (\<exists>b err. readStop (fst (clock i)) s = (b, Some err))"
    using less.prems(4) by (auto simp: readStop_def errIfStopped_def)
  then consider (full) "\<not> length out < n" | (nothing) "length out < n" "?h = None" "out \<noteq> []"
    | (stop) err b where "length out < n" "\<not> (?h = None \<and> out \<noteq> [])" "readStop (fst (clock i)) s = (b, Some err)"
    | (go) "length out < n" "\<not> (?h = None \<and> out \<noteq> [])" "readStop (fst (clock i)) s = (False, None)"
    by metis
  then show ?case
  proof cases
    case full
    then show ?thesis using less.prems by (subst readLoop.simps) (auto simp: readOk_def sameRead_def)
  next
    case nothing
    then show ?thesis using less.prems readInv_missing [OF less.prems(1)]
      by (subst readLoop.simps) (auto simp: readOk_def sameRead_def)
  next
    case stop
    then have "err = errDeadline \<or> st_err s = Some err" by (auto simp: readStop_def split: if_splits)
    then show ?thesis using stop less.prems
      by (subst readLoop.simps) (auto simp: readOk_def sameRead_def)
  next
    case go
    show ?thesis
    proof (cases ?h)
      case None
      then show ?thesis using go less.prems readInv_missing [OF less.prems(1)]
        by (subst readLoop.simps) (auto simp: readOk_def sameRead_def)
    next
      case h: (Some frame)
      define s0 where "s0 = s\<lparr> st_readPosInFrame := sint (st_readOffset s - sf_Offset frame) \<rparr>"
      obtain res out' s' f' calls' where r: "readFrame (snd (clock i)) n out frame s0 f = (res, out', s', f', calls')"
        by (metis prod_cases5)
      have i0: "readInv D F R (acc @ out) s0" "counted cp R s0 f" "Head (st_frameQueue s0) = Some frame"
        "sameRead s s0" "st_readOffset s0 = st_readOffset s"
        using less.prems(1,2) h by (auto simp: s0_def readInv_def counted_def sameRead_def)
      note ok = readFrame_ok [OF i0(1,3) _ go(1) r, unfolded s0_def, simplified, folded s0_def]
      have same: "sameRead s s'" using readFrame_same [OF r] i0(4) by (simp add: sameRead_def)
      have cnt: "counted cp R s' f'"
        by (rule counted_read [OF i0(2), of "length (acc @ out)" _ "length out' - length out"])
          (use ok i0 less.prems(1) in \<open>auto simp: readInv_def sameRead_def\<close>)
      show ?thesis
      proof (cases res)
        case None
        then have n': "length out < length out'" "length out' \<le> n" "readInv D F R (acc @ out') s'" using ok by auto
        have step: "readLoop clock i n out s f calls = readLoop clock (i + 1) n out' s' f' (calls @ calls')"
          using go h r None by (subst readLoop.simps) (simp add: s0_def)
        have "errIfStopped s'" using same less.prems(4) by (simp add: errIfStopped_def sameRead_def)
        from less.hyps [OF _ n'(3) cnt n'(2) this, of "i + 1" "calls @ calls'"] n'(1,2)
        show ?thesis unfolding step readOk_same [OF same, symmetric] by (simp add: sameRead_trans [OF same])
      next
        case (Some x)
        then have x: "x = ReadReturns out' (Some IoEOF)" "readInv D F R (acc @ out') s'" "length out' \<le> n"
          using ok by auto
        have step: "readLoop clock i n out s f calls = Some (x, s', f', calls @ calls')"
          using go h r Some by (subst readLoop.simps) (simp add: s0_def)
        show ?thesis unfolding step using x cnt same by (simp add: readOk_def)
      qed
    qed
  qed
qed

lemma stream_Read_ok:
  assumes "readInv D F R acc s" "counted cp R s f" "errIfStopped s"
  shows "\<exists>res s' f' calls. stream_Read clock n s f = Some (res, s', f', calls)
    \<and> counted cp R s' f' \<and> sameRead s s' \<and> readOk D F R acc n s s' res"
proof -
  have "readOk D F R acc n s s (ReadReturns [] (st_err s))" if "st_cancelled s \<or> st_resetLocally s"
    using assms that by (auto simp: readOk_def errIfStopped_def)
  moreover have "readOk D F R acc n s s (ReadReturns [] (Some IoEOF))" using assms(1) by (simp add: readOk_def)
  moreover have "sameRead s s" by (simp add: sameRead_def)
  ultimately show ?thesis
    using assms readLoop_ok [of D F R acc "[]" s cp f n clock 0 "[]"] by (simp add: stream_Read_def)
qed

lemma readWakeup_ok:
  assumes "readInv D F R acc s" "counted cp R s f" "errIfStopped s"
  shows "\<exists>res s' f' calls. readWakeup clock n s f = Some (res, s', f', calls)
    \<and> counted cp R s' f' \<and> sameRead s s' \<and> readOk D F R acc n s s' res"
proof -
  let ?s = "s\<lparr> st_readChan := False \<rparr>"
  have same: "sameRead s ?s" by (simp add: sameRead_def)
  have "\<exists>res s' f' calls. readLoop clock 0 n [] ?s f [] = Some (res, s', f', calls)
    \<and> counted cp R s' f' \<and> sameRead ?s s' \<and> readOk D F R acc n ?s s' res"
    by (rule readLoop_ok) (use assms in \<open>simp_all add: readInv_def counted_def errIfStopped_def\<close>)
  then show ?thesis unfolding readWakeup_def readOk_same [OF same] sameRead_trans [OF same] .
qed

text \<open>
  The life of a stream on which the peer sends content \<open>D\<close> of length \<open>F\<close>, in frames that arrive in any
  order: calls of \<open>Read\<close> that return or wait, wake-ups of the waiting reader, and all other operations
  of the stream in any order. The other streams use the flow control manager meanwhile, which may
  change everything but what this stream has read.
\<close>

definition bytesOf :: "readResult \<Rightarrow> byte list" where
  "bytesOf res = (case res of ReadReturns bs err \<Rightarrow> bs | ReadWaits \<Rightarrow> [])"

inductive reading :: "(nat \<Rightarrow> byte) \<Rightarrow> nat \<Rightarrow> connectionParametersManager \<Rightarrow> StreamID \<Rightarrow> nat set \<Rightarrow> byte list
    \<Rightarrow> stream \<Rightarrow> flowControlManager \<Rightarrow> bool" for D F cp sid where
  start: "flow cp gh gr gw f \<Longrightarrow> getFlowController sid f = Inr c \<Longrightarrow> fc_bytesRead c = 0 \<Longrightarrow>
    reading D F cp sid {} [] (newStream sid) f"
| frame: "reading D F cp sid R out s f \<Longrightarrow> frameOfStream D F frame \<Longrightarrow>
    AddStreamFrame frame s f = (s', f', None) \<Longrightarrow> reading D F cp sid (R \<union> frameRange frame) out s' f'"
| read: "reading D F cp sid R out s f \<Longrightarrow> stream_Read clock n s f = Some (res, s', f', calls) \<Longrightarrow>
    reading D F cp sid R (out @ bytesOf res) s' f'"
| wakeup: "reading D F cp sid R out s f \<Longrightarrow> readWakeup clock n s f = Some (res, s', f', calls) \<Longrightarrow>
    reading D F cp sid R (out @ bytesOf res) s' f'"
| writes: "reading D F cp sid R out s f \<Longrightarrow> Write_enter p s = Inr (s', calls) \<Longrightarrow> reading D F cp sid R out s' f"
| data: "reading D F cp sid R out s f \<Longrightarrow> getDataForWriting n s = (d, s') \<Longrightarrow> reading D F cp sid R out s' f"
| fin: "reading D F cp sid R out s f \<Longrightarrow> reading D F cp sid R out (sentFin s) f"
| close: "reading D F cp sid R out s f \<Longrightarrow> reading D F cp sid R out (fst (stream_Close s)) f"
| cancel: "reading D F cp sid R out s f \<Longrightarrow> reading D F cp sid R out (stream_Cancel (Some e) s) f"
| reset: "reading D F cp sid R out s f \<Longrightarrow> reading D F cp sid R out (fst (stream_Reset (Some e) s)) f"
| remote: "reading D F cp sid R out s f \<Longrightarrow> reading D F cp sid R out (fst (RegisterRemoteError (Some e) s)) f"
| deadline: "reading D F cp sid R out s f \<Longrightarrow>
    reading D F cp sid R out (SetWriteDeadline t (SetReadDeadline u s)) f"
| others: "reading D F cp sid R out s f \<Longrightarrow> flow cp gh gr gw f' \<Longrightarrow> getFlowController sid f = Inr c \<Longrightarrow>
    getFlowController sid f' = Inr c' \<Longrightarrow> fc_bytesRead c' = fc_bytesRead c \<Longrightarrow>
    fc_highestReceived c \<le> fc_highestReceived c' \<Longrightarrow> reading D F cp sid R out s f'"

text \<open>What the operations that do not read leave alone.\<close>

definition keepsRead :: "stream \<Rightarrow> stream \<Rightarrow> bool" where
  "keepsRead s s' \<longleftrightarrow>
     st_frameQueue s' = st_frameQueue s \<and> st_readOffset s' = st_readOffset s \<and> st_streamID s' = st_streamID s
     \<and> (st_resetRemotely s \<longrightarrow> st_resetRemotely s') \<and> (errIfStopped s \<longrightarrow> errIfStopped s')"

lemma keepsRead_ops:
  "Write_enter p s = Inr (s', calls) \<Longrightarrow> keepsRead s s'"
  "getDataForWriting n s = (d, s') \<Longrightarrow> keepsRead s s'"
  "keepsRead s (sentFin s)"
  "keepsRead s (fst (stream_Close s))"
  "keepsRead s (stream_Cancel (Some e) s)"
  "keepsRead s (fst (stream_Reset (Some e) s))"
  "keepsRead s (fst (RegisterRemoteError (Some e) s))"
  "keepsRead s (SetWriteDeadline t (SetReadDeadline u s))"
  by (auto simp: keepsRead_def errIfStopped_def Write_enter_def getDataForWriting_def signalRead_def
      signalWrite_def sentFin_def stream_Close_def stream_Cancel_def stream_Reset_def
      RegisterRemoteError_def maybeSendReset_def SetReadDeadline_def SetWriteDeadline_def Let_def
      split: if_splits option.splits)

lemma notReading:
  assumes "keepsRead s s'" "readInv D F R out s \<and> counted cp R s f \<and> errIfStopped s \<and> st_streamID s = sid"
  shows "readInv D F R out s' \<and> counted cp R s' f \<and> errIfStopped s' \<and> st_streamID s' = sid"
  using assms by (auto simp: keepsRead_def readInv_def counted_def)

lemma UpdateHighestReceived_counts:
  assumes "UpdateHighestReceived sid off f = (f', None)" "getFlowController sid f = Inr c"
  shows "\<exists>c'. getFlowController sid f' = Inr c' \<and> fc_bytesRead c' = fc_bytesRead c
    \<and> fc_highestReceived c' = max (fc_highestReceived c) off"
proof -
  obtain c' inc e where u: "fc_UpdateHighestReceived off c = (c', inc, e)" by (metis prod_cases3)
  then have c': "fc_bytesRead c' = fc_bytesRead c" "fc_highestReceived c' = max (fc_highestReceived c) off"
    by (auto simp: fc_UpdateHighestReceived_def split: if_splits)
  have "checkReceived sid off inc c' f = (f', None)"
    using assms u by (simp add: UpdateHighestReceived_def)
  then have "getFlowController sid f' = Inr c'"
    by (auto simp: checkReceived_def Let_def getFlowController_Inr update_conv split: if_splits)
  then show ?thesis using c' by blast
qed

lemma AddStreamFrame_ok:
  assumes "readInv D F R out s" "counted cp R s f" "frameOfStream D F frame"
    and r: "AddStreamFrame frame s f = (s', f', None)"
  shows "readInv D F (R \<union> frameRange frame) out s' \<and> counted cp (R \<union> frameRange frame) s' f'"
proof -
  let ?q = "st_frameQueue s"
  have so: "sorterInv D F R ?q" and F: "F < 2 ^ 63" using assms(1) by (auto simp: readInv_def sorterInv_def)
  obtain q' e where p: "Push frame ?q = (q', e)" by fastforce
  have u: "UpdateHighestReceived (st_streamID s) (sf_Offset frame + StreamFrame_DataLen frame) f = (f', None)"
    and e: "e = None \<or> e = Some errDuplicateStreamData" and s': "s' = signalRead (s\<lparr> st_frameQueue := q' \<rparr>)"
    using r p by (auto simp: AddStreamFrame_def split: prod.splits option.splits if_splits)
  have q': "sorterInv D F (R \<union> frameRange frame) q' \<and> sfs_readPosition q' = sfs_readPosition ?q"
    using Push_inv [OF so assms(3) p] e so
    by (auto simp: errDuplicateStreamData_def errTooManyGapsInReceivedStreamData_def Un_absorb2)
  have "atOffset q' (length out)"
    using assms(1) q' Push_head [OF so assms(3) p] by (fastforce simp: readInv_def atOffset_def)
  then have "readInv D F (R \<union> frameRange frame) out s'"
    using assms(1) q' by (auto simp: readInv_def s' signalRead_def)
  moreover obtain c gh gr gw where c: "getFlowController (st_streamID s) f = Inr c" "flow cp gh gr gw f"
      "R \<subseteq> {..<unat (fc_highestReceived c)}" "\<not> st_resetRemotely s \<longrightarrow> fc_bytesRead c = st_readOffset s"
    using assms(2) by (auto simp: counted_def)
  obtain c' where c': "getFlowController (st_streamID s) f' = Inr c'" "fc_bytesRead c' = fc_bytesRead c"
      "fc_highestReceived c' = max (fc_highestReceived c) (sf_Offset frame + StreamFrame_DataLen frame)"
    using UpdateHighestReceived_counts [OF u c(1)] by blast
  have "unat (fc_highestReceived c) \<le> unat (fc_highestReceived c')"
    "unat (sf_Offset frame) + length (sf_Data frame) \<le> unat (fc_highestReceived c')"
    unfolding c'(3) frame_bounds(2) [OF assms(3) F, symmetric] word_le_nat_alt [symmetric] by simp_all
  then have "R \<union> frameRange frame \<subseteq> {..<unat (fc_highestReceived c')}"
    using c(3) by (auto simp: frameRange_def)
  then have "counted cp (R \<union> frameRange frame) s' f'"
    using flow.frame [OF c(2) u] c(4) c' by (auto simp: counted_def s' signalRead_def)
  ultimately show ?thesis by simp
qed

lemma reading_inv:
  assumes "reading D F cp sid R out s f" "F < 2 ^ 63"
  shows "readInv D F R out s \<and> counted cp R s f \<and> errIfStopped s \<and> st_streamID s = sid"
  using assms
proof (induction rule: reading.induct)
  case (start gh gr gw f c)
  then show ?case using newStreamFrameSorter_inv [of F D]
    by (auto simp: newStream_def readInv_def counted_def errIfStopped_def atOffset_def newStreamFrameSorter_def)
next
  case (frame R out s f frame s' f')
  then show ?case using AddStreamFrame_ok [of D F R out s cp f frame s' f']
    by (auto simp: AddStreamFrame_def signalRead_def errIfStopped_def split: prod.splits option.splits if_splits)
next
  case (read R out s f clock n res s' f' calls)
  then show ?case using stream_Read_ok [of D F R out s cp f clock n]
    by (auto simp: readOk_def sameRead_def errIfStopped_def bytesOf_def split: readResult.splits)
next
  case (wakeup R out s f clock n res s' f' calls)
  then show ?case using readWakeup_ok [of D F R out s cp f clock n]
    by (auto simp: readOk_def sameRead_def errIfStopped_def bytesOf_def split: readResult.splits)
next
  case (others R out s f gh gr gw f' c c')
  then show ?case by (auto simp: counted_def word_le_nat_alt subset_iff)
qed (rule notReading, rule keepsRead_ops, assumption, simp | rule notReading, rule keepsRead_ops, simp)+

section \<open>Properties of reading\<close>


text \<open>
  C31. A call of \<open>Read\<close> always comes to an end of its own, without one of the errors marked as bugs in
  the code and without a panic: it waits only when the next byte of the stream has not been
  received, and it returns fewer bytes than asked for and no error only when the byte after them has
  not been received.
\<close>

theorem Read_returns_or_waits:
  assumes "reading D F cp sid R out s f" "F < 2 ^ 63"
  shows "\<exists>res s' f' calls. stream_Read clock n s f = Some (res, s', f', calls)
    \<and> (res = ReadWaits \<longrightarrow> length out \<notin> R)
    \<and> (\<forall>bs err. res = ReadReturns bs err \<longrightarrow> length bs \<le> n
         \<and> (err = None \<longrightarrow> length bs = n \<or> length out + length bs \<notin> R)
         \<and> err \<in> {None, st_err s, Some errDeadline, Some IoEOF})"
proof -
  have i: "readInv D F R out s" "counted cp R s f" "errIfStopped s" using reading_inv [OF assms] by auto
  obtain res s' f' calls where r: "stream_Read clock n s f = Some (res, s', f', calls)" "readOk D F R out n s s' res"
    using stream_Read_ok [OF i] by blast
  then show ?thesis by (cases res) (auto simp: readOk_def)
qed

text \<open>A stream of the two bytes 10 and 20, received in two frames, the second one first.\<close>

definition exStream1 :: stream where
  "exStream1 = fst (AddStreamFrame (exampleFrame 1 20 True) (newStream 5) exOpened)"

definition exManager1 :: flowControlManager where
  "exManager1 = fst (snd (AddStreamFrame (exampleFrame 1 20 True) (newStream 5) exOpened))"

definition exStream2 :: stream where
  "exStream2 = fst (AddStreamFrame (exampleFrame 0 10 False) exStream1 exManager1)"

definition exManager2 :: flowControlManager where
  "exManager2 = fst (snd (AddStreamFrame (exampleFrame 0 10 False) exStream1 exManager1))"

definition exContent :: "nat \<Rightarrow> byte" where
  "exContent i = (if i = 0 then 10 else 20)"

lemma example_reading1:
  "reading exContent 2 (env_connectionParameters exEnv) 5 {1} [] exStream1 exManager1"
proof -
  have "reading exContent 2 (env_connectionParameters exEnv) 5 {} [] (newStream 5) exOpened"
    by (rule reading.start [OF example_opened, where c = "the (map_of (fcm_streamFlowController exOpened) 5)"])
      code_simp+
  moreover have "AddStreamFrame (exampleFrame 1 20 True) (newStream 5) exOpened = (exStream1, exManager1, None)"
    unfolding exStream1_def exManager1_def prod_eq_iff by code_simp
  moreover have "frameOfStream exContent 2 (exampleFrame 1 20 True)"
    by (simp add: frameOfStream_def exampleFrame_def exContent_def)
  ultimately have "reading exContent 2 (env_connectionParameters exEnv) 5 ({} \<union> frameRange (exampleFrame 1 20 True)) [] exStream1 exManager1"
    by (intro reading.frame)
  then show ?thesis by (simp add: frameRange_def exampleFrame_def)
qed

lemma example_reading2:
  "reading exContent 2 (env_connectionParameters exEnv) 5 {0, 1} [] exStream2 exManager2"
proof -
  have "AddStreamFrame (exampleFrame 0 10 False) exStream1 exManager1 = (exStream2, exManager2, None)"
    unfolding exStream2_def exManager2_def prod_eq_iff by code_simp
  moreover have "frameOfStream exContent 2 (exampleFrame 0 10 False)"
    by (simp add: frameOfStream_def exampleFrame_def exContent_def)
  ultimately have "reading exContent 2 (env_connectionParameters exEnv) 5 ({1} \<union> frameRange (exampleFrame 0 10 False)) [] exStream2 exManager2"
    by (intro reading.frame [OF example_reading1])
  moreover have "{1} \<union> frameRange (exampleFrame 0 10 False) = {0, 1}"
    by (auto simp: frameRange_def exampleFrame_def)
  ultimately show ?thesis by simp
qed

lemma example_read2:
  "map_option fst (stream_Read (\<lambda>_. (7, 8, 9)) 4 exStream2 exManager2) = Some (ReadReturns [10, 20] (Some IoEOF))"
  by code_simp


theorem Read_returns_or_waits_witness:
  "reading exContent 2 (env_connectionParameters exEnv) 5 {1} [] exStream1 exManager1
    \<and> (\<exists>s f calls. stream_Read (\<lambda>_. (7, 8, 9)) 4 exStream1 exManager1 = Some (ReadWaits, s, f, calls)) \<and> (0 :: nat) \<notin> {1}"
proof -
  have w: "map_option fst (stream_Read (\<lambda>_. (7, 8, 9)) 4 exStream1 exManager1) = Some ReadWaits" by code_simp
  then obtain s f calls where "stream_Read (\<lambda>_. (7, 8, 9)) 4 exStream1 exManager1 = Some (ReadWaits, s, f, calls)"
    by (auto split: prod.splits)
  then show ?thesis
    using example_reading1 Read_returns_or_waits [OF example_reading1, of "\<lambda>_. (7, 8, 9)" 4] by auto
qed

section \<open>The life of a stream\<close>

text \<open>All operations, with the callbacks they make. A FIN is sent only when it should be.\<close>

inductive streamStep :: "stream \<Rightarrow> streamCall list \<Rightarrow> stream \<Rightarrow> bool" where
  frame: "AddStreamFrame frame s f = (s', f', e) \<Longrightarrow> streamStep s [] s'"
| read: "stream_Read clock n s f = Some (res, s', f', calls) \<Longrightarrow> streamStep s calls s'"
| wakeup: "readWakeup clock n s f = Some (res, s', f', calls) \<Longrightarrow> streamStep s calls s'"
| writes: "Write_enter p s = Inr (s', calls) \<Longrightarrow> streamStep s calls s'"
| signal: "streamStep s [] (s\<lparr> st_writeChan := False \<rparr>)"
| data: "getDataForWriting n s = (d, s') \<Longrightarrow> streamStep s [] s'"
| fin: "shouldSendFin s \<Longrightarrow> streamStep s [] (sentFin s)"
| close: "stream_Close s = (s', calls) \<Longrightarrow> streamStep s calls s'"
| cancel: "streamStep s [] (stream_Cancel (Some e) s)"
| reset: "stream_Reset (Some e) s = (s', calls) \<Longrightarrow> streamStep s calls s'"
| remote: "RegisterRemoteError (Some e) s = (s', calls) \<Longrightarrow> streamStep s calls s'"
| readDeadline: "streamStep s [] (SetReadDeadline t s)"
| writeDeadline: "streamStep s [] (SetWriteDeadline t s)"

inductive streamRun :: "stream \<Rightarrow> streamCall list \<Rightarrow> stream \<Rightarrow> bool" where
  none: "streamRun s [] s"
| step: "streamRun s calls s' \<Longrightarrow> streamStep s' calls' s'' \<Longrightarrow> streamRun s (calls @ calls') s''"

fun isReset :: "streamCall \<Rightarrow> bool" where
  "isReset OnData = False"
| "isReset (OnReset sid off) = True"

text \<open>
  What every operation keeps: the identifier, an error once it is set, and the flags once they are
  raised.
\<close>

definition later :: "stream \<Rightarrow> stream \<Rightarrow> bool" where
  "later s s' \<longleftrightarrow>
     st_streamID s' = st_streamID s \<and> (st_err s \<noteq> None \<longrightarrow> st_err s' = st_err s)
     \<and> (st_err s \<noteq> None \<longrightarrow> st_writeOffset s' = st_writeOffset s)
     \<and> (st_cancelled s \<longrightarrow> st_cancelled s') \<and> (st_finishedReading s \<longrightarrow> st_finishedReading s')
     \<and> (st_finishedWriting s \<longrightarrow> st_finishedWriting s') \<and> (st_resetRemotely s \<longrightarrow> st_resetRemotely s')
     \<and> (st_finSent s \<longrightarrow> st_finSent s') \<and> (st_rstSent s \<longrightarrow> st_rstSent s')"

text \<open>What an operation that sends no RST_STREAM does.\<close>

definition noReset :: "stream \<Rightarrow> streamCall list \<Rightarrow> stream \<Rightarrow> bool" where
  "noReset s calls s' \<longleftrightarrow> filter isReset calls = [] \<and> st_rstSent s' = st_rstSent s"

lemma readFrame_later:
  assumes "readFrame clock n out frame s f = (res, out', s', f', calls)"
  shows "later s s' \<and> noReset s calls s'"
  using assms by (auto simp: readFrame_def Let_def later_def noReset_def split: if_splits)

lemma later_refl [simp]: "later s s"
  by (simp add: later_def)

lemma later_trans: "later s t \<Longrightarrow> later t u \<Longrightarrow> later s u"
  by (auto simp: later_def)

lemma later_readPos: "later (s\<lparr> st_readPosInFrame := k \<rparr>) t = later s t"
  by (simp add: later_def)

lemma readLoop_later:
  assumes "readLoop clock i n out s f calls = Some y"
  shows "later s (fst (snd y)) \<and> st_rstSent (fst (snd y)) = st_rstSent s
    \<and> filter isReset (snd (snd (snd y))) = filter isReset calls"
  using assms
proof (rule readLoop.raw_induct [where P = "\<lambda>clock i n out s f calls y. later s (fst (snd y))
    \<and> st_rstSent (fst (snd y)) = st_rstSent s \<and> filter isReset (snd (snd (snd y))) = filter isReset calls", rotated],
    goal_cases)
  case (1 rl clock i n out s f calls y)
  show ?case
  proof (cases "\<exists>frame b. length out < n \<and> Head (st_frameQueue s) = Some frame \<and> readStop (fst (clock i)) s = (b, None)")
    case True
    then obtain frame b where c: "length out < n" "Head (st_frameQueue s) = Some frame" "readStop (fst (clock i)) s = (b, None)"
      by blast
    let ?s = "if b then s else s\<lparr> st_readPosInFrame := sint (st_readOffset s - sf_Offset frame) \<rparr>"
    obtain res out' s' f' calls' where r: "readFrame (snd (clock i)) n out frame ?s f = (res, out', s', f', calls')"
      by (metis prod_cases5)
    have l: "later s s'" "filter isReset calls' = []" "st_rstSent s' = st_rstSent s"
      using readFrame_later [OF r] by (auto simp: later_readPos noReset_def split: if_splits)
    show ?thesis
    proof (cases res)
      case None
      then have "rl clock (i + 1) n out' s' f' (calls @ calls') = Some y" using 1(2) c r by simp
      then have "later s' (fst (snd y)) \<and> st_rstSent (fst (snd y)) = st_rstSent s'
          \<and> filter isReset (snd (snd (snd y))) = filter isReset (calls @ calls')"
        by (rule 1(1))
      then show ?thesis using l later_trans [OF l(1)] by simp
    next
      case (Some x)
      then have "y = (x, s', f', calls @ calls')" using 1(2) c r by simp
      then show ?thesis using l by simp
    qed
  next
    case False
    then have "fst (snd y) = s \<and> snd (snd (snd y)) = calls"
      using 1(2) by (auto split: if_splits option.splits prod.splits)
    then show ?thesis by simp
  qed
qed

text \<open>An operation raises no flag for RST_STREAM, or sends exactly one, with the final offset.\<close>

lemma streamStep_later:
  assumes "streamStep s calls s'"
  shows "later s s' \<and> (noReset s calls s'
    \<or> (calls = [OnReset (st_streamID s) (st_writeOffset s)] \<and> \<not> st_rstSent s \<and> \<not> finishedWriteAndSentFin s
       \<and> st_rstSent s' \<and> st_err s' \<noteq> None \<and> st_writeOffset s' = st_writeOffset s))"
  using assms
proof cases
  case (read clock n f res f')
  then show ?thesis using readLoop_later [of clock 0 n "[]" s f "[]" "(res, s', f', calls)"]
    by (auto simp: stream_Read_def noReset_def split: if_splits)
next
  case (wakeup clock n f res f')
  then show ?thesis using readLoop_later [of clock 0 n "[]" "s\<lparr> st_readChan := False \<rparr>" f "[]" "(res, s', f', calls)"]
    by (auto simp: readWakeup_def noReset_def later_def)
next
  case (frame frame f f' e)
  then show ?thesis
    by (auto simp: AddStreamFrame_def signalRead_def noReset_def later_def split: prod.splits option.splits if_splits)
next
  case (data n d)
  then show ?thesis
    by (auto simp: getDataForWriting_def signalWrite_def noReset_def later_def Let_def split: option.splits if_splits)
next
  case (reset e)
  then show ?thesis
    by (auto simp: stream_Reset_def maybeSendReset_def shouldSendReset_def signalRead_def signalWrite_def
        finishedWriteAndSentFin_def noReset_def later_def Let_def split: if_splits)
next
  case (remote e)
  then show ?thesis
    by (auto simp: RegisterRemoteError_def maybeSendReset_def shouldSendReset_def signalRead_def signalWrite_def
        finishedWriteAndSentFin_def noReset_def later_def Let_def split: if_splits)
qed (auto simp: Write_enter_def sentFin_def stream_Close_def stream_Cancel_def signalRead_def signalWrite_def
      SetReadDeadline_def SetWriteDeadline_def noReset_def later_def Let_def split: if_splits)

lemma streamRun_later:
  assumes "streamRun s calls s'"
  shows "later s s'"
  using assms by induction (auto dest: streamStep_later intro: later_trans)

lemma streamRun_resets:
  assumes "streamRun s calls s'" "filter isReset calls0 = (if st_rstSent s then [OnReset (st_streamID s) (st_writeOffset s)] else [])"
    and "st_rstSent s \<longrightarrow> st_err s \<noteq> None"
  shows "filter isReset (calls0 @ calls) = (if st_rstSent s' then [OnReset (st_streamID s') (st_writeOffset s')] else [])
    \<and> (st_rstSent s' \<longrightarrow> st_err s' \<noteq> None)
    \<and> (finishedWriteAndSentFin s \<longrightarrow> filter isReset calls = [])"
  using assms
proof (induction rule: streamRun.induct)
  case (step s calls s' calls' s'')
  have IH: "filter isReset (calls0 @ calls) = (if st_rstSent s' then [OnReset (st_streamID s') (st_writeOffset s')] else [])"
    "st_rstSent s' \<longrightarrow> st_err s' \<noteq> None" "finishedWriteAndSentFin s \<longrightarrow> filter isReset calls = []"
    using step.IH [OF step.prems] by auto
  have f: "finishedWriteAndSentFin s \<longrightarrow> finishedWriteAndSentFin s'"
    using streamRun_later [OF step.hyps(1)] by (auto simp: later_def finishedWriteAndSentFin_def)
  from streamStep_later [OF step.hyps(2)] show ?case
  proof (elim conjE disjE)
    assume "later s' s''" "noReset s' calls' s''"
    then show ?thesis using IH by (auto simp: noReset_def later_def)
  next
    assume "later s' s''" "calls' = [OnReset (st_streamID s') (st_writeOffset s')]" "\<not> st_rstSent s'"
      "\<not> finishedWriteAndSentFin s'" "st_rstSent s''" "st_err s'' \<noteq> None" "st_writeOffset s'' = st_writeOffset s'"
    then show ?thesis using IH f by (auto simp: later_def)
  qed
qed simp

section \<open>Writing\<close>

text \<open>
  A stream on which no write deadline is set: \<open>w\<close> are all bytes given to \<open>Write\<close>, \<open>d\<close> all bytes that
  \<open>getDataForWriting\<close> has handed out, and \<open>p\<close> is the length of the data of the call of \<open>Write\<close> that is
  waiting. Calls of \<open>Write\<close> follow each other. Every other operation may take place that leaves
  the data for writing alone.
\<close>

inductive writing :: "byte list \<Rightarrow> byte list \<Rightarrow> nat option \<Rightarrow> stream \<Rightarrow> bool" where
  start: "writing [] [] None (newStream sid)"
| enter: "writing w d None s \<Longrightarrow> Write_enter p s = Inr (s', calls) \<Longrightarrow> writing (w @ p) d (Some (length p)) s'"
| returned: "writing w d (Some n) s \<Longrightarrow> Write_check now n s = Some (k, err) \<Longrightarrow> writing w d None s"
| handed: "writing w d p s \<Longrightarrow> getDataForWriting m s = (Some ret, s') \<Longrightarrow> writing w (d @ ret) p s'"
| other: "writing w d p s \<Longrightarrow> streamStep s calls s' \<Longrightarrow> st_dataForWriting s' = st_dataForWriting s \<Longrightarrow>
    st_writeOffset s' = st_writeOffset s \<Longrightarrow> st_writeDeadline s' = 0 \<Longrightarrow> writing w d p s'"

definition pendingData :: "stream \<Rightarrow> byte list" where
  "pendingData s = (case st_dataForWriting s of None \<Rightarrow> [] | Some r \<Rightarrow> r)"

lemma writing_inv:
  assumes "writing w d p s"
  shows "w = d @ pendingData s \<and> st_writeOffset s = of_nat (length d) \<and> st_writeDeadline s = 0
    \<and> (case p of None \<Rightarrow> st_err s = None \<longrightarrow> st_dataForWriting s = None
       | Some n \<Rightarrow> length (pendingData s) \<le> n \<and> n \<le> length w)"
  using assms
proof (induction rule: writing.induct)
  case (enter w d s p s' calls)
  then show ?case by (auto simp: Write_enter_def pendingData_def split: if_splits)
next
  case (returned w d n s now k err)
  then show ?case by (auto simp: Write_check_def split: if_splits option.splits)
next
  case (handed w d p s m ret s')
  then show ?case
    by (auto simp: getDataForWriting_def signalWrite_def pendingData_def Let_def split: if_splits option.splits)
next
  case (other w d p s calls s')
  have "later s s'" using streamStep_later [OF other.hyps(2)] by simp
  then show ?case using other by (auto simp: pendingData_def later_def split: option.splits)
qed (simp add: newStream_def pendingData_def)

section \<open>Properties of the sending side\<close>


text \<open>A stream that is reset after two of three bytes were handed out, and closed afterwards.\<close>

lemma example_reset_run:
  "\<exists>s. streamRun (newStream 5) [OnData, OnReset 5 2] s \<and> st_err s = Some (GoErr ''reset'')"
proof -
  let ?s1 = "(newStream 5)\<lparr> st_dataForWriting := Some [1, 2, 3] \<rparr>"
  let ?s2 = "snd (getDataForWriting 2 ?s1)"
  let ?s3 = "fst (stream_Reset (Some (GoErr ''reset'')) ?s2)"
  have "streamStep (newStream 5) [OnData] ?s1"
    by (rule streamStep.writes [of "[1, 2, 3]"]) (simp add: Write_enter_def newStream_def)
  moreover have "streamStep ?s1 [] ?s2" by (rule streamStep.data [of 2 _ "fst (getDataForWriting 2 ?s1)"]) simp
  moreover have "streamStep ?s2 [OnReset 5 2] ?s3"
    by (rule streamStep.reset [of "GoErr ''reset''"]) (unfold prod_eq_iff, code_simp)
  ultimately have "streamRun (newStream 5) ((([] @ [OnData]) @ []) @ [OnReset 5 2]) ?s3"
    by (intro streamRun.step [OF streamRun.step [OF streamRun.step [OF streamRun.none]]])
  then have "streamRun (newStream 5) [OnData, OnReset 5 2] ?s3" unfolding append.simps append_Nil2 .
  moreover have "st_err ?s3 = Some (GoErr ''reset'')" by code_simp
  ultimately show ?thesis by blast
qed




text \<open>
  C34. With a write deadline this is lost: when the deadline passes after \<open>k\<close> bytes were handed out,
  \<open>Write\<close> reports that nothing was written, and the next call of \<open>Write\<close> puts its data in the place of
  the rest, at the offset behind the \<open>k\<close> bytes.
\<close>

theorem write_deadline_drops:
  assumes "st_err s = None" "\<not> st_resetLocally s" "\<not> st_finishedWriting s"
    and "st_writeDeadline s \<noteq> 0" "st_writeDeadline s \<le> now" "k < length p" "length p < 2 ^ 64" "q \<noteq> []"
  shows "\<exists>s1 s2 s3. Write_enter p s = Inr (s1, [OnData])
    \<and> getDataForWriting (of_nat k) s1 = (Some (take k p), s2)
    \<and> Write_check now (length p) s2 = Some (0, Some errDeadline)
    \<and> Write_enter q s2 = Inr (s3, [OnData]) \<and> pendingData s3 = q
    \<and> st_writeOffset s3 = st_writeOffset s + of_nat k"
proof -
  have k: "unat (of_nat k :: ByteCount) = k" "(of_nat k :: ByteCount) < of_nat (length p)" "p \<noteq> []"
    using assms(6,7) by (auto simp: unat_of_nat word_less_nat_alt)
  let ?s1 = "s\<lparr> st_dataForWriting := Some p \<rparr>"
  let ?s2 = "s\<lparr> st_dataForWriting := Some (drop k p), st_writeOffset := st_writeOffset s + of_nat k \<rparr>"
  have "Write_enter p s = Inr (?s1, [OnData])" using assms k(3) by (simp add: Write_enter_def)
  moreover have "getDataForWriting (of_nat k) ?s1 = (Some (take k p), ?s2)"
    using assms k by (simp add: getDataForWriting_def min_def)
  moreover have "Write_check now (length p) ?s2 = Some (0, Some errDeadline)" using assms by (simp add: Write_check_def)
  moreover have "Write_enter q ?s2 = Inr (?s2\<lparr> st_dataForWriting := Some q \<rparr>, [OnData])"
    using assms by (simp add: Write_enter_def)
  ultimately show ?thesis
    by (intro exI [of _ ?s1] exI [of _ ?s2] exI [of _ "?s2\<lparr> st_dataForWriting := Some q \<rparr>"])
      (simp add: pendingData_def)
qed

theorem write_deadline_drops_witness:
  "\<exists>s1 s2 s3. Write_enter [1, 2, 3] (SetWriteDeadline 5 (newStream 5)) = Inr (s1, [OnData])
    \<and> getDataForWriting 1 s1 = (Some [1], s2) \<and> Write_check 6 3 s2 = Some (0, Some errDeadline)
    \<and> Write_enter [9] s2 = Inr (s3, [OnData]) \<and> pendingData s3 = [9] \<and> st_writeOffset s3 = 1"
  using write_deadline_drops [of "SetWriteDeadline 5 (newStream 5)" 6 1 "[1, 2, 3]" "[9]"]
  by (simp add: newStream_def SetWriteDeadline_def) (simp only: numeral_3_eq_3)

end
