(* ===== verification/StreamsMap.thy ===== *)
theory StreamsMap
  imports StreamIO
begin

text \<open>
  The streams of a session (\<open>streams_map.go\<close>): the map from identifiers to streams and the list of
  open streams that is visited in turn. The function that makes a new stream is a parameter, as it
  is a field of the map in the code; it may change a state \<open>'f\<close> of its own, which the session uses for
  the flow control manager. Functions that are called for every stream get the stream, the map and
  a state \<open>'x\<close>. A method that waits has the result \<open>None\<close>. Locks are left out.
\<close>

section \<open>State\<close>

record streamsMap =
  sm_perspective :: Perspective
  sm_streams :: "(StreamID \<times> stream) list"
  sm_openStreams :: "StreamID list"
  sm_roundRobinIndex :: uint32
  sm_nextStream :: StreamID
  sm_highestStreamOpenedByPeer :: StreamID
  sm_closeErr :: "go_error option"
  sm_nextStreamToAccept :: StreamID
  sm_numOutgoingStreams :: uint32
  sm_numIncomingStreams :: uint32

type_synonym 'f newStreamLambda = "StreamID \<Rightarrow> 'f \<Rightarrow> stream \<times> 'f"
type_synonym 'x streamLambda = "stream \<Rightarrow> streamsMap \<Rightarrow> 'x \<Rightarrow> (bool \<times> go_error option) \<times> streamsMap \<times> 'x"

definition errStreamsMapAccess :: go_error where
  "errStreamsMapAccess = GoErr ''streamsMap: Error accessing the streams map''"

definition newStreamsMap :: "Perspective \<Rightarrow> streamsMap" where
  "newStreamsMap pers =
     \<lparr> sm_perspective = pers, sm_streams = [], sm_openStreams = [], sm_roundRobinIndex = 0,
       sm_nextStream = (if pers = PerspectiveClient then 1 else 2), sm_highestStreamOpenedByPeer = 0,
       sm_closeErr = None, sm_nextStreamToAccept = (if pers = PerspectiveClient then 2 else 1),
       sm_numOutgoingStreams = 0, sm_numIncomingStreams = 0 \<rparr>"

definition MaxNewStreamIDDelta :: StreamID where
  "MaxNewStreamIDDelta = 4 * MaxStreamsPerConnection"

definition TooManyOpenStreams :: ErrorCode where
  "TooManyOpenStreams = 18"

section \<open>Opening streams\<close>

definition putStream :: "stream \<Rightarrow> streamsMap \<Rightarrow> streamsMap \<times> go_error option" where
  "putStream s m =
     (let sid = st_streamID s
      in if map_of (sm_streams m) sid \<noteq> None
         then (m, Some (GoErr (''a stream with ID '' @ formatBase 10 (unat sid) @ '' already exists'')))
         else (m\<lparr> sm_streams := AList.update sid s (sm_streams m), sm_openStreams := sm_openStreams m @ [sid] \<rparr>, None))"

definition openRemoteStream :: "'f newStreamLambda \<Rightarrow> StreamID \<Rightarrow> streamsMap \<Rightarrow> 'f
    \<Rightarrow> streamsMap \<times> 'f \<times> (go_error + stream)" where
  "openRemoteStream mk sid m f =
     (if sid + MaxNewStreamIDDelta < sm_highestStreamOpenedByPeer m
      then (m, f, Inl (QuicError InvalidStreamID
             (''attempted to open stream '' @ formatBase 10 (unat sid)
               @ '', which is a lot smaller than the highest opened stream, ''
               @ formatBase 10 (unat (sm_highestStreamOpenedByPeer m)))))
      else
      let m = (if sm_perspective m = PerspectiveServer
               then m\<lparr> sm_numIncomingStreams := sm_numIncomingStreams m + 1 \<rparr>
               else m\<lparr> sm_numOutgoingStreams := sm_numOutgoingStreams m + 1 \<rparr>);
          m = (if sid > sm_highestStreamOpenedByPeer m then m\<lparr> sm_highestStreamOpenedByPeer := sid \<rparr> else m);
          (s, f) = mk sid f
      in (fst (putStream s m), f, Inr s))"

text \<open>
  The identifier wraps around only behind the largest one, and then the next one is refused
  because it is much smaller than the highest one.
\<close>

lemma next_or_refused: "sid < sid + 2 \<or> sid + 2 + MaxNewStreamIDDelta < sid"
proof (cases "unat sid + 2 < 2 ^ 32")
  case True
  then show ?thesis by (simp add: word_less_nat_alt unat_word_ariths)
next
  case False
  have "unat sid < 2 ^ 32" using unsigned_less [where ?'a = nat, of sid] by simp
  then have "unat sid = 4294967294 \<or> unat sid = 4294967295" using False by simp linarith
  then have "unat (sid + 2 + MaxNewStreamIDDelta) < unat sid"
    by (auto simp add: MaxNewStreamIDDelta_def MaxStreamsPerConnection_def unat_word_ariths)
  then show ?thesis by (simp add: word_less_nat_alt)
qed

function openRemoteLoop :: "'f newStreamLambda \<Rightarrow> StreamID \<Rightarrow> StreamID \<Rightarrow> streamsMap \<Rightarrow> 'f
    \<Rightarrow> streamsMap \<times> 'f \<times> go_error option" where
  "openRemoteLoop mk sid streamID m f =
     (if sid \<le> streamID
      then case openRemoteStream mk sid m f of
             (m, f, Inl err) \<Rightarrow> (m, f, Some err)
           | (m, f, Inr _) \<Rightarrow> openRemoteLoop mk (sid + 2) streamID m f
      else (m, f, None))"
  by pat_completeness auto

termination
proof (relation "measure (\<lambda>(mk, sid, streamID, m, f).
    if sid + MaxNewStreamIDDelta < sm_highestStreamOpenedByPeer m then 0 else 2 ^ 33 - unat sid)")
  fix mk :: "'f newStreamLambda" and sid streamID m f m' y f' z s
  assume "sid \<le> streamID" "(m', y) = openRemoteStream mk sid m f" "(f', z) = y" "z = Inr s"
  then have ok: "openRemoteStream mk sid m f = (m', f', Inr s)" by (simp add: prod_eq_iff)
  have d: "\<not> sid + MaxNewStreamIDDelta < sm_highestStreamOpenedByPeer m"
    using ok by (auto simp: openRemoteStream_def)
  have h: "sid \<le> sm_highestStreamOpenedByPeer m'"
    using ok d by (auto simp: openRemoteStream_def putStream_def Let_def split: if_splits prod.splits)
  have "unat sid < 2 ^ 32" using unsigned_less [where ?'a = nat, of sid] by simp
  show "((mk, sid + 2, streamID, m', f'), (mk, sid, streamID, m, f)) \<in> measure (\<lambda>(mk, sid, streamID, m, f).
    if sid + MaxNewStreamIDDelta < sm_highestStreamOpenedByPeer m then 0 else 2 ^ 33 - unat sid)"
    using next_or_refused [of sid]
  proof
    assume "sid < sid + 2"
    then have "2 ^ 33 - unat (sid + 2) < 2 ^ 33 - unat sid"
      using \<open>unat sid < 2 ^ 32\<close> by (simp add: word_less_nat_alt)
    then show ?thesis using d \<open>unat sid < 2 ^ 32\<close> by simp
  next
    assume "sid + 2 + MaxNewStreamIDDelta < sid"
    then have "sid + 2 + MaxNewStreamIDDelta < sm_highestStreamOpenedByPeer m'" using h by simp
    then show ?thesis using d \<open>unat sid < 2 ^ 32\<close> by simp
  qed
qed simp

declare openRemoteLoop.simps [simp del]

text \<open>\<open>Inr None\<close> is a stream that is closed already.\<close>

definition GetOrOpenStream :: "'f newStreamLambda \<Rightarrow> StreamID \<Rightarrow> streamsMap \<Rightarrow> 'f
    \<Rightarrow> streamsMap \<times> 'f \<times> (go_error + stream option)" where
  "GetOrOpenStream mk streamID m f =
     (case map_of (sm_streams m) streamID of
        Some s \<Rightarrow> (m, f, Inr (Some s))
      | None \<Rightarrow>
      if sm_perspective m = PerspectiveServer \<and> streamID mod 2 = 0
      then if streamID \<le> sm_nextStream m then (m, f, Inr None)
           else (m, f, Inl (QuicError InvalidStreamID
                  (''attempted to open stream '' @ formatBase 10 (unat streamID) @ '' from client-side'')))
      else if sm_perspective m = PerspectiveServer \<and> streamID \<le> sm_highestStreamOpenedByPeer m then (m, f, Inr None)
      else if sm_perspective m = PerspectiveClient \<and> streamID mod 2 = 1
      then if streamID \<le> sm_nextStream m then (m, f, Inr None)
           else (m, f, Inl (QuicError InvalidStreamID
                  (''attempted to open stream '' @ formatBase 10 (unat streamID) @ '' from server-side'')))
      else if sm_perspective m = PerspectiveClient \<and> streamID \<le> sm_highestStreamOpenedByPeer m then (m, f, Inr None)
      else
      let sid = sm_highestStreamOpenedByPeer m + 2;
          sid = (if sid = 2 \<and> sm_perspective m = PerspectiveServer then 1 else sid)
      in case openRemoteLoop mk sid streamID m f of
           (m, f, Some err) \<Rightarrow> (m, f, Inl err)
         | (m, f, None) \<Rightarrow> (m, f, Inr (map_of (sm_streams m) streamID)))"

definition openStreamImpl :: "'f newStreamLambda \<Rightarrow> streamsMap \<Rightarrow> 'f \<Rightarrow> streamsMap \<times> 'f \<times> (go_error + stream)" where
  "openStreamImpl mk m f =
     (let streamID = sm_nextStream m;
          m = (if sm_perspective m = PerspectiveServer
               then m\<lparr> sm_numOutgoingStreams := sm_numOutgoingStreams m + 1 \<rparr>
               else m\<lparr> sm_numIncomingStreams := sm_numIncomingStreams m + 1 \<rparr>);
          m = m\<lparr> sm_nextStream := sm_nextStream m + 2 \<rparr>;
          (s, f) = mk streamID f
      in (fst (putStream s m), f, Inr s))"

definition OpenStream :: "'f newStreamLambda \<Rightarrow> streamsMap \<Rightarrow> 'f \<Rightarrow> streamsMap \<times> 'f \<times> (go_error + stream)" where
  "OpenStream mk m f =
     (case sm_closeErr m of
        Some err \<Rightarrow> (m, f, Inl err)
      | None \<Rightarrow> openStreamImpl mk m f)"

definition OpenStreamSync :: "'f newStreamLambda \<Rightarrow> streamsMap \<Rightarrow> 'f
    \<Rightarrow> streamsMap \<times> 'f \<times> (go_error + stream) option" where
  "OpenStreamSync mk m f =
     (case sm_closeErr m of
        Some err \<Rightarrow> (m, f, Some (Inl err))
      | None \<Rightarrow>
          (case openStreamImpl mk m f of
             (m, f, Inr s) \<Rightarrow> (m, f, Some (Inr s))
           | (m, f, Inl err) \<Rightarrow> (m, f, if err \<noteq> QuicErrCode TooManyOpenStreams then Some (Inl err) else None)))"

definition AcceptStream :: "streamsMap \<Rightarrow> streamsMap \<times> (go_error + stream) option" where
  "AcceptStream m =
     (case sm_closeErr m of
        Some err \<Rightarrow> (m, Some (Inl err))
      | None \<Rightarrow>
          (case map_of (sm_streams m) (sm_nextStreamToAccept m) of
             Some s \<Rightarrow> (m\<lparr> sm_nextStreamToAccept := sm_nextStreamToAccept m + 2 \<rparr>, Some (Inr s))
           | None \<Rightarrow> (m, None)))"

section \<open>Visiting all streams\<close>

definition iterateFunc :: "StreamID \<Rightarrow> 'x streamLambda \<Rightarrow> streamsMap \<Rightarrow> 'x
    \<Rightarrow> (bool \<times> go_error option) \<times> streamsMap \<times> 'x" where
  "iterateFunc sid fn m x =
     (case map_of (sm_streams m) sid of
        None \<Rightarrow> ((True, Some errStreamsMapAccess), m, x)
      | Some str \<Rightarrow> fn str m x)"

fun iterateLoop :: "'x streamLambda \<Rightarrow> StreamID list \<Rightarrow> streamsMap \<Rightarrow> 'x \<Rightarrow> streamsMap \<times> 'x \<times> go_error option" where
  "iterateLoop fn [] m x = (m, x, None)"
| "iterateLoop fn (sid # sids) m x =
     (case iterateFunc sid fn m x of
        ((cont, Some err), m, x) \<Rightarrow> (m, x, Some err)
      | ((cont, None), m, x) \<Rightarrow> if cont then iterateLoop fn sids m x else (m, x, None))"

definition Iterate :: "'x streamLambda \<Rightarrow> streamsMap \<Rightarrow> 'x \<Rightarrow> streamsMap \<times> 'x \<times> go_error option" where
  "Iterate fn m x = iterateLoop fn (sm_openStreams m) m x"

text \<open>
  The crypto and the header stream come first; then \<open>i\<close> counts up to the number of streams at the
  beginning.
\<close>

fun priorityLoop :: "'x streamLambda \<Rightarrow> StreamID list \<Rightarrow> streamsMap \<Rightarrow> 'x
    \<Rightarrow> streamsMap \<times> 'x \<times> (go_error option) option" where
  "priorityLoop fn [] m x = (m, x, None)"
| "priorityLoop fn (sid # sids) m x =
     (case iterateFunc sid fn m x of
        ((cont, err), m, x) \<Rightarrow>
          if err \<noteq> None \<and> err \<noteq> Some errStreamsMapAccess then (m, x, Some err)
          else if \<not> cont then (m, x, Some None)
          else priorityLoop fn sids m x)"

fun roundRobinLoop :: "'x streamLambda \<Rightarrow> uint32 \<Rightarrow> uint32 \<Rightarrow> uint32 list \<Rightarrow> streamsMap \<Rightarrow> 'x
    \<Rightarrow> streamsMap \<times> 'x \<times> go_error option" where
  "roundRobinLoop fn numStreams startIndex [] m x = (m, x, None)"
| "roundRobinLoop fn numStreams startIndex (i # is) m x =
     (let index = unat ((i + startIndex) mod numStreams)
      in if \<not> index < length (sm_openStreams m) then (m, x, Some (Panic ''index out of range''))
         else
      let sid = sm_openStreams m ! index
      in if sid = 1 \<or> sid = 3 then roundRobinLoop fn numStreams startIndex is m x
         else case iterateFunc sid fn m x of
                ((cont, Some err), m, x) \<Rightarrow> (m, x, Some err)
              | ((cont, None), m, x) \<Rightarrow>
                  (let m = m\<lparr> sm_roundRobinIndex := (sm_roundRobinIndex m + 1) mod numStreams \<rparr>
                   in if cont then roundRobinLoop fn numStreams startIndex is m x else (m, x, None)))"

definition RoundRobinIterate :: "'x streamLambda \<Rightarrow> streamsMap \<Rightarrow> 'x \<Rightarrow> streamsMap \<times> 'x \<times> go_error option" where
  "RoundRobinIterate fn m x =
     (let numStreams = of_nat (length (sm_streams m));
          startIndex = sm_roundRobinIndex m
      in case priorityLoop fn [1, 3] m x of
           (m, x, Some err) \<Rightarrow> (m, x, err)
         | (m, x, None) \<Rightarrow> roundRobinLoop fn numStreams startIndex (map of_nat [0 ..< unat numStreams]) m x)"

section \<open>Removing streams\<close>

fun indexOf :: "'a \<Rightarrow> 'a list \<Rightarrow> nat option" where
  "indexOf x [] = None"
| "indexOf x (y # ys) = (if y = x then Some 0 else map_option Suc (indexOf x ys))"

definition sm_RemoveStream :: "StreamID \<Rightarrow> streamsMap \<Rightarrow> streamsMap \<times> go_error option" where
  "sm_RemoveStream streamID m =
     (if map_of (sm_streams m) streamID = None
      then (m, Some (GoErr (''attempted to remove non-existing stream: '' @ formatBase 10 (unat streamID))))
      else
      let m = (if streamID mod 2 = 0 then m\<lparr> sm_numOutgoingStreams := sm_numOutgoingStreams m - 1 \<rparr>
               else m\<lparr> sm_numIncomingStreams := sm_numIncomingStreams m - 1 \<rparr>);
          m = (case indexOf streamID (sm_openStreams m) of
                 None \<Rightarrow> m
               | Some i \<Rightarrow>
                   m\<lparr> sm_openStreams := take i (sm_openStreams m) @ drop (i + 1) (sm_openStreams m),
                      sm_roundRobinIndex := (if of_nat i < sm_roundRobinIndex m then sm_roundRobinIndex m - 1
                                             else sm_roundRobinIndex m) \<rparr>)
      in (m\<lparr> sm_streams := AList.delete streamID (sm_streams m) \<rparr>, None))"

text \<open>Writing through the pointer that the map holds.\<close>

definition setStream :: "stream \<Rightarrow> streamsMap \<Rightarrow> streamsMap" where
  "setStream s m = m\<lparr> sm_streams := AList.update (st_streamID s) s (sm_streams m) \<rparr>"

fun cancelLoop :: "go_error option \<Rightarrow> StreamID list \<Rightarrow> streamsMap \<Rightarrow> streamsMap \<times> go_error option" where
  "cancelLoop err [] m = (m, None)"
| "cancelLoop err (sid # sids) m =
     (case map_of (sm_streams m) sid of
        None \<Rightarrow> (m, Some (Panic ''nil pointer dereference''))
      | Some s \<Rightarrow> cancelLoop err sids (setStream (stream_Cancel err s) m))"

definition CloseWithError :: "go_error option \<Rightarrow> streamsMap \<Rightarrow> streamsMap \<times> go_error option" where
  "CloseWithError err m = (let m = m\<lparr> sm_closeErr := err \<rparr> in cancelLoop err (sm_openStreams m) m)"

section \<open>Well-formedness\<close>

text \<open>The streams with even identifiers are opened by the server.\<close>

definition isOwn :: "streamsMap \<Rightarrow> StreamID \<Rightarrow> bool" where
  "isOwn m sid \<longleftrightarrow> (even (unat sid) \<longleftrightarrow> sm_perspective m = PerspectiveServer)"

lemma mod_2_iff [simp]:
  "(sid :: StreamID) mod 2 = 0 \<longleftrightarrow> even (unat sid)" "sid mod 2 = 1 \<longleftrightarrow> odd (unat sid)"
  by (simp_all add: word_unat_eq_iff unat_mod even_iff_mod_2_eq_zero odd_iff_mod_2_eq_one)

text \<open>A stream that has been opened: its identifier is behind the mark of its opener.\<close>

definition opened :: "streamsMap \<Rightarrow> StreamID \<Rightarrow> bool" where
  "opened m sid \<longleftrightarrow> (if isOwn m sid then sid < sm_nextStream m else sid \<le> sm_highestStreamOpenedByPeer m)"

definition numEven :: "StreamID list \<Rightarrow> uint32" where
  "numEven sids = of_nat (length (filter (even \<circ> unat) sids))"

definition numOdd :: "StreamID list \<Rightarrow> uint32" where
  "numOdd sids = of_nat (length (filter (odd \<circ> unat) sids))"

text \<open>\<open>C\<close> is the set of the streams that were removed.\<close>

definition smInv :: "StreamID set \<Rightarrow> streamsMap \<Rightarrow> bool" where
  "smInv C m \<longleftrightarrow>
     distinct (map fst (sm_streams m)) \<and> distinct (sm_openStreams m)
     \<and> set (sm_openStreams m) = fst ` set (sm_streams m)
     \<and> (\<forall>(sid, s) \<in> set (sm_streams m). st_streamID s = sid)
     \<and> set (sm_openStreams m) \<inter> C = {} \<and> (\<forall>sid \<in> set (sm_openStreams m) \<union> C. opened m sid)
     \<and> isOwn m (sm_nextStream m)
     \<and> (sm_highestStreamOpenedByPeer m = 0 \<or> \<not> isOwn m (sm_highestStreamOpenedByPeer m))
     \<and> sm_numOutgoingStreams m = numEven (sm_openStreams m)
     \<and> sm_numIncomingStreams m = numOdd (sm_openStreams m)
     \<and> unat (sm_roundRobinIndex m) \<le> length (sm_openStreams m)"

lemma numEven_append [simp]:
  "numEven (xs @ [sid]) = numEven xs + (if even (unat sid) then 1 else 0)"
  "numOdd (xs @ [sid]) = numOdd xs + (if even (unat sid) then 0 else 1)"
  by (simp_all add: numEven_def numOdd_def)

lemma numEven_Cons:
  "numEven (sid # xs) = numEven xs + (if even (unat sid) then 1 else 0)"
  "numOdd (sid # xs) = numOdd xs + (if even (unat sid) then 0 else 1)"
  by (simp_all add: numEven_def numOdd_def)

lemma smInv_keys:
  assumes "smInv C m"
  shows "map_of (sm_streams m) sid = None \<longleftrightarrow> sid \<notin> set (sm_openStreams m)"
    and "map_of (sm_streams m) sid = Some s \<Longrightarrow> st_streamID s = sid"
    and "length (sm_streams m) = length (sm_openStreams m)"
proof -
  show "map_of (sm_streams m) sid = None \<longleftrightarrow> sid \<notin> set (sm_openStreams m)"
    using assms by (simp add: smInv_def map_of_eq_None_iff)
  show "map_of (sm_streams m) sid = Some s \<Longrightarrow> st_streamID s = sid"
    using assms by (auto simp: smInv_def dest: map_of_SomeD)
  have "set (sm_openStreams m) = set (map fst (sm_streams m))" "distinct (sm_openStreams m)"
    "distinct (map fst (sm_streams m))" using assms by (auto simp: smInv_def)
  then show "length (sm_streams m) = length (sm_openStreams m)"
    by (metis distinct_card length_map)
qed

lemma update_absent: "map_of xs k = None \<Longrightarrow> AList.update k v xs = xs @ [(k, v)]"
  by (induction xs) auto

lemma smInv_add:
  assumes inv: "smInv C m" and fresh: "sid \<notin> set (sm_openStreams m)" "sid \<notin> C" and s: "st_streamID s = sid"
    and m': "m' = m\<lparr> sm_streams := AList.update sid s (sm_streams m), sm_openStreams := sm_openStreams m @ [sid],
      sm_nextStream := n, sm_highestStreamOpenedByPeer := h,
      sm_numOutgoingStreams := sm_numOutgoingStreams m + (if even (unat sid) then 1 else 0),
      sm_numIncomingStreams := sm_numIncomingStreams m + (if even (unat sid) then 0 else 1) \<rparr>"
    and mono: "sm_nextStream m \<le> n" "sm_highestStreamOpenedByPeer m \<le> h" "isOwn m sid \<Longrightarrow> sid < n"
      "\<not> isOwn m sid \<Longrightarrow> sid \<le> h"
    and par: "isOwn m n" "h = 0 \<or> \<not> isOwn m h"
  shows "smInv C m'"
proof -
  have fld: "sm_nextStream m' = n" "sm_highestStreamOpenedByPeer m' = h" "sm_openStreams m' = sm_openStreams m @ [sid]"
    "sm_numOutgoingStreams m' = sm_numOutgoingStreams m + (if even (unat sid) then 1 else 0)"
    "sm_numIncomingStreams m' = sm_numIncomingStreams m + (if even (unat sid) then 0 else 1)"
    "sm_perspective m' = sm_perspective m" "sm_streams m' = AList.update sid s (sm_streams m)"
    "sm_roundRobinIndex m' = sm_roundRobinIndex m"
    by (simp_all add: m')
  have o: "isOwn m' = isOwn m" by (simp add: fld isOwn_def fun_eq_iff)
  have op: "opened m x \<Longrightarrow> opened m' x" for x
    using mono(1,2) by (auto simp: opened_def o fld split: if_splits)
  have new: "opened m' sid" using mono(3,4) by (simp add: opened_def o fld)
  have "map_of (sm_streams m) sid = None" using smInv_keys(1) [OF inv] fresh(1) by simp
  note u = update_absent [OF this]
  have d: "distinct (map fst (AList.update sid s (sm_streams m)))"
    using inv by (simp add: smInv_def distinct_update)
  show ?thesis unfolding smInv_def o fld using inv fresh s op par new d
    by (auto simp: u smInv_def)
qed

text \<open>The first stream that the peer may open next.\<close>

definition firstRemote :: "streamsMap \<Rightarrow> StreamID" where
  "firstRemote m =
     (let sid = sm_highestStreamOpenedByPeer m + 2
      in if sid = 2 \<and> sm_perspective m = PerspectiveServer then 1 else sid)"

lemma firstRemote_props:
  assumes inv: "smInv C m" and sid: "\<not> isOwn m streamID" "sm_highestStreamOpenedByPeer m < streamID"
  shows "\<not> isOwn m (firstRemote m)" "sm_highestStreamOpenedByPeer m < firstRemote m"
    "\<exists>k > 0. unat streamID + 2 = unat (firstRemote m) + 2 * k"
proof -
  let ?h = "sm_highestStreamOpenedByPeer m"
  have "\<not> isOwn m (firstRemote m) \<and> ?h < firstRemote m \<and> firstRemote m \<le> streamID"
  proof (cases "?h = 0")
    case True
    have "unat streamID \<noteq> 0" using sid(2) True by (auto simp: word_less_nat_alt)
    then have "2 \<le> unat streamID \<or> odd (unat streamID)" by (cases "unat streamID = 1") auto
    then show ?thesis using True sid \<open>unat streamID \<noteq> 0\<close>
      by (cases "sm_perspective m") (auto simp: firstRemote_def isOwn_def word_le_nat_alt word_less_nat_alt)
  next
    case False
    then have "even (unat ?h) = even (unat streamID)" using inv sid(1) by (auto simp: smInv_def isOwn_def)
    moreover have lt: "unat ?h < unat streamID" "unat streamID < 2 ^ 32"
      using sid(2) unsigned_less [where ?'a = nat, of streamID] by (simp_all add: word_less_nat_alt)
    ultimately have "unat ?h + 2 \<le> unat streamID" by presburger
    then have u: "unat (?h + 2) = unat ?h + 2" "unat ?h + 2 \<le> unat streamID"
      using lt by (simp_all add: unat_word_ariths)
    have "?h + 2 \<noteq> 2"
    proof
      assume "?h + 2 = 2"
      then have "unat ?h + 2 = 2" using u(1) by simp
      then show False using False by (simp add: unat_eq_zero)
    qed
    then show ?thesis using False inv u
      by (auto simp: firstRemote_def smInv_def isOwn_def word_less_nat_alt word_le_nat_alt)
  qed
  then show *: "\<not> isOwn m (firstRemote m)" "?h < firstRemote m" by simp_all
  have "unat (firstRemote m) \<le> unat streamID" using \<open>_ \<and> _ \<and> firstRemote m \<le> streamID\<close> by (simp add: word_le_nat_alt)
  moreover have "even (unat (firstRemote m)) = even (unat streamID)" using * sid by (simp add: isOwn_def)
  ultimately show "\<exists>k > 0. unat streamID + 2 = unat (firstRemote m) + 2 * k"
    by (intro exI [of _ "(unat streamID + 2 - unat (firstRemote m)) div 2"]) presburger
qed

text \<open>The laws of the function that makes new streams.\<close>

locale stream_maker =
  fixes mk :: "StreamID \<Rightarrow> 'f \<Rightarrow> stream \<times> 'f"
  assumes made: "st_streamID (fst (mk sid f)) = sid"
begin

lemma put_new:
  assumes "map_of (sm_streams m) sid = None" "mk sid f = (s, f')"
  shows "fst (putStream s m) =
    m\<lparr> sm_streams := AList.update sid s (sm_streams m), sm_openStreams := sm_openStreams m @ [sid] \<rparr>"
  using assms made [of sid f] by (simp add: putStream_def)

lemma openRemote_new:
  assumes inv: "smInv C m" and sid: "\<not> isOwn m sid" "sm_highestStreamOpenedByPeer m < sid"
    and ok: "\<not> sid + MaxNewStreamIDDelta < sm_highestStreamOpenedByPeer m"
  obtains m' f' s where "openRemoteStream mk sid m f = (m', f', Inr s)" "smInv C m'"
    "sm_openStreams m' = sm_openStreams m @ [sid]" "sm_highestStreamOpenedByPeer m' = sid"
    "sm_perspective m' = sm_perspective m"
proof -
  obtain s f' where s: "mk sid f = (s, f')" by fastforce
  have "\<not> opened m sid" using sid by (simp add: opened_def)
  then have fresh: "sid \<notin> set (sm_openStreams m)" "sid \<notin> C" using inv by (auto simp: smInv_def)
  then have none: "map_of (sm_streams m) sid = None" using smInv_keys(1) [OF inv] by simp
  have par: "even (unat sid) \<longleftrightarrow> sm_perspective m \<noteq> PerspectiveServer" using sid(1) by (simp add: isOwn_def)
  define m' where "m' = m\<lparr> sm_streams := AList.update sid s (sm_streams m), sm_openStreams := sm_openStreams m @ [sid],
      sm_nextStream := sm_nextStream m, sm_highestStreamOpenedByPeer := sid,
      sm_numOutgoingStreams := sm_numOutgoingStreams m + (if even (unat sid) then 1 else 0),
      sm_numIncomingStreams := sm_numIncomingStreams m + (if even (unat sid) then 0 else 1) \<rparr>"
  have "openRemoteStream mk sid m f = (m', f', Inr s)"
    using ok sid(2) s put_new [OF _ s] none par
    by (simp add: openRemoteStream_def m'_def Let_def)
  moreover have "smInv C m'"
    by (rule smInv_add [OF inv fresh _ m'_def]) (use made [of sid f] s inv sid in \<open>auto simp: smInv_def\<close>)
  ultimately show thesis by (rule that) (simp_all add: m'_def)
qed

text \<open>The loop keeps the invariant also when the identifiers run out.\<close>

lemma openRemoteLoop_inv:
  assumes "mk' = mk" "smInv C m" "\<not> isOwn m sid"
    and "sm_highestStreamOpenedByPeer m < sid \<or> sid + MaxNewStreamIDDelta < sm_highestStreamOpenedByPeer m"
    and "openRemoteLoop mk' sid streamID m f = (m', f', e)"
  shows "smInv C m'"
  using assms
proof (induction mk' sid streamID m f rule: openRemoteLoop.induct)
  case (1 mk' sid streamID m f)
  consider (past) "\<not> sid \<le> streamID" | (refused) "sid \<le> streamID" "sid + MaxNewStreamIDDelta < sm_highestStreamOpenedByPeer m"
    | (new) "sid \<le> streamID" "\<not> sid + MaxNewStreamIDDelta < sm_highestStreamOpenedByPeer m" "sm_highestStreamOpenedByPeer m < sid"
    using "1.prems"(4) by blast
  then show ?case
  proof cases
    case past
    then show ?thesis using "1.prems"(2,5) by (subst (asm) openRemoteLoop.simps) simp
  next
    case refused
    then show ?thesis using "1.prems"(2,5) by (subst (asm) openRemoteLoop.simps) (simp add: openRemoteStream_def)
  next
    case new
    obtain m1 f1 s where o: "openRemoteStream mk sid m f = (m1, f1, Inr s)" "smInv C m1"
        "sm_highestStreamOpenedByPeer m1 = sid" "sm_perspective m1 = sm_perspective m"
      using openRemote_new [OF "1.prems"(2,3) new(3,2)] by metis
    have r: "openRemoteLoop mk' (sid + 2) streamID m1 f1 = (m', f', e)"
      using "1.prems"(1,5) new(1) o(1) by (subst (asm) openRemoteLoop.simps) simp
    have p: "even (unat (sid + 2)) = even (unat sid)"
      by (simp add: unat_word_ariths even_mod_2_iff dvd_mod_iff)
    have "\<not> isOwn m1 (sid + 2)" using "1.prems"(3) p o(4) by (simp add: isOwn_def)
    moreover have "sm_highestStreamOpenedByPeer m1 < sid + 2
        \<or> sid + 2 + MaxNewStreamIDDelta < sm_highestStreamOpenedByPeer m1"
      unfolding o(3) by (rule next_or_refused)
    ultimately show ?thesis
      using "1.IH" [OF new(1) _ _ _ "1.prems"(1) o(2) _ _ r] o(1) "1.prems"(1) by simp
  qed
qed

text \<open>The streams from \<open>sid\<close> on, \<open>k\<close> of them, all of the same side.\<close>

lemma openRemoteLoop_all:
  assumes "smInv C m" "\<not> isOwn m sid" "sm_highestStreamOpenedByPeer m < sid"
    and "unat streamID + 2 = unat sid + 2 * k" "unat streamID + unat MaxNewStreamIDDelta < 2 ^ 32"
  shows "\<exists>m' f'. openRemoteLoop mk sid streamID m f = (m', f', None) \<and> smInv C m'
    \<and> sm_openStreams m' = sm_openStreams m @ map (\<lambda>i. sid + 2 * of_nat i) [0 ..< k]
    \<and> sm_highestStreamOpenedByPeer m' = (if k = 0 then sm_highestStreamOpenedByPeer m else streamID)"
  using assms
proof (induction k arbitrary: sid m f)
  case 0
  then have "\<not> sid \<le> streamID" by (simp add: word_le_nat_alt)
  then show ?case using 0 by (simp add: openRemoteLoop.simps)
next
  case (Suc k)
  have D: "unat MaxNewStreamIDDelta = 40000" by (simp add: MaxNewStreamIDDelta_def MaxStreamsPerConnection_def)
  have le: "sid \<le> streamID" using Suc.prems(4) by (simp add: word_le_nat_alt)
  have "unat (sid + MaxNewStreamIDDelta) = unat sid + 40000"
    using Suc.prems(4,5) D by (simp add: unat_word_ariths)
  then have "\<not> sid + MaxNewStreamIDDelta < sm_highestStreamOpenedByPeer m"
    using Suc.prems(3) by (simp add: word_less_nat_alt)
  then obtain m1 f1 s where o: "openRemoteStream mk sid m f = (m1, f1, Inr s)" "smInv C m1"
    "sm_openStreams m1 = sm_openStreams m @ [sid]" "sm_highestStreamOpenedByPeer m1 = sid"
    "sm_perspective m1 = sm_perspective m"
    using openRemote_new [OF Suc.prems(1-3)] by metis
  have s2: "unat (sid + 2) = unat sid + 2" using Suc.prems(4,5) D by (simp add: unat_word_ariths)
  have "\<not> isOwn m1 (sid + 2)" using Suc.prems(2) s2 o(5) by (simp add: isOwn_def)
  moreover have "sm_highestStreamOpenedByPeer m1 < sid + 2" using o(4) s2 by (simp add: word_less_nat_alt)
  moreover have "unat streamID + 2 = unat (sid + 2) + 2 * k" using Suc.prems(4) s2 by simp
  ultimately obtain m' f' where IH: "openRemoteLoop mk (sid + 2) streamID m1 f1 = (m', f', None)" "smInv C m'"
    "sm_openStreams m' = sm_openStreams m1 @ map (\<lambda>i. sid + 2 + 2 * of_nat i) [0 ..< k]"
    "sm_highestStreamOpenedByPeer m' = (if k = 0 then sm_highestStreamOpenedByPeer m1 else streamID)"
    using Suc.IH [OF o(2) _ _ _ Suc.prems(5)] by blast
  have "map (\<lambda>i. sid + 2 * of_nat i) [0 ..< Suc k] = sid # map (\<lambda>i. sid + 2 + 2 * of_nat i) [0 ..< k]"
    by (simp only: upt_rec [of 0 "Suc k"] map_Suc_upt [symmetric] list.map map_map comp_def) (simp add: algebra_simps)
  moreover have "k = 0 \<Longrightarrow> sid = streamID" using Suc.prems(4) by (simp add: word_unat_eq_iff)
  ultimately show ?case using IH o le by (subst openRemoteLoop.simps) auto
qed

lemma GetOrOpenStream_cases:
  assumes inv: "smInv C m"
  obtains (there) s where "map_of (sm_streams m) streamID = Some s"
      "GetOrOpenStream mk streamID m f = (m, f, Inr (Some s))"
  | (own) "streamID \<notin> set (sm_openStreams m)" "isOwn m streamID" "streamID \<le> sm_nextStream m"
      "GetOrOpenStream mk streamID m f = (m, f, Inr None)"
  | (wrong) msg where "streamID \<notin> set (sm_openStreams m)" "isOwn m streamID" "sm_nextStream m < streamID"
      "GetOrOpenStream mk streamID m f = (m, f, Inl (QuicError InvalidStreamID msg))"
  | (closed) "streamID \<notin> set (sm_openStreams m)" "\<not> isOwn m streamID" "streamID \<le> sm_highestStreamOpenedByPeer m"
      "GetOrOpenStream mk streamID m f = (m, f, Inr None)"
  | (new) "\<not> isOwn m streamID" "sm_highestStreamOpenedByPeer m < streamID"
      "GetOrOpenStream mk streamID m f = (case openRemoteLoop mk (firstRemote m) streamID m f of
           (m, f, Some err) \<Rightarrow> (m, f, Inl err)
         | (m, f, None) \<Rightarrow> (m, f, Inr (map_of (sm_streams m) streamID)))"
proof (cases "map_of (sm_streams m) streamID")
  case (Some s)
  then show ?thesis by (intro there) (simp_all add: GetOrOpenStream_def)
next
  case None
  then have nin: "streamID \<notin> set (sm_openStreams m)" using smInv_keys(1) [OF inv] by simp
  show ?thesis
  proof (cases "isOwn m streamID")
    case True
    then show ?thesis using None nin own wrong
      by (cases "streamID \<le> sm_nextStream m"; cases "sm_perspective m")
        (auto simp: GetOrOpenStream_def isOwn_def)
  next
    case False
    then show ?thesis using None nin closed new
      by (cases "streamID \<le> sm_highestStreamOpenedByPeer m"; cases "sm_perspective m")
        (auto simp: GetOrOpenStream_def isOwn_def firstRemote_def Let_def)
  qed
qed

lemma GetOrOpenStream_inv:
  assumes "smInv C m" "GetOrOpenStream mk streamID m f = (m', f', r)"
  shows "smInv C m'"
  using assms(1)
proof (cases rule: GetOrOpenStream_cases [where streamID = streamID and f = f])
  case new
  obtain m1 f1 e where l: "openRemoteLoop mk (firstRemote m) streamID m f = (m1, f1, e)" by (metis prod_cases3)
  have "smInv C m1"
    using openRemoteLoop_inv [OF refl assms(1) _ _ l] firstRemote_props(1,2) [OF assms(1) new(1,2)] by simp
  moreover have "m' = m1" using new(3) l assms(2) by (cases e) simp_all
  ultimately show ?thesis by simp
qed (use assms in simp_all)

lemma OpenStream_inv:
  assumes "smInv C m" "openStreamImpl mk m f = (m', f', r)" "unat (sm_nextStream m) + 2 < 2 ^ 32"
  shows "smInv C m' \<and> (\<exists>s. r = Inr s \<and> st_streamID s = sm_nextStream m)
    \<and> sm_openStreams m' = sm_openStreams m @ [sm_nextStream m]"
proof -
  let ?n = "sm_nextStream m"
  obtain s f1 where s: "mk ?n f = (s, f1)" by fastforce
  have u: "unat (?n + 2) = unat ?n + 2" using assms(3) by (simp add: unat_word_ariths)
  have own: "isOwn m ?n" using assms(1) by (simp add: smInv_def)
  then have "\<not> opened m ?n" by (simp add: opened_def)
  then have fresh: "?n \<notin> set (sm_openStreams m)" "?n \<notin> C" using assms(1) by (auto simp: smInv_def)
  then have none: "map_of (sm_streams m) ?n = None" using smInv_keys(1) [OF assms(1)] by simp
  have par: "even (unat ?n) \<longleftrightarrow> sm_perspective m = PerspectiveServer" using own by (simp add: isOwn_def)
  define m1 where "m1 = m\<lparr> sm_streams := AList.update ?n s (sm_streams m), sm_openStreams := sm_openStreams m @ [?n],
      sm_nextStream := ?n + 2, sm_highestStreamOpenedByPeer := sm_highestStreamOpenedByPeer m,
      sm_numOutgoingStreams := sm_numOutgoingStreams m + (if even (unat ?n) then 1 else 0),
      sm_numIncomingStreams := sm_numIncomingStreams m + (if even (unat ?n) then 0 else 1) \<rparr>"
  have "openStreamImpl mk m f = (m1, f1, Inr s)"
    using s put_new [OF _ s] none par by (simp add: openStreamImpl_def m1_def Let_def)
  moreover have "smInv C m1"
    by (rule smInv_add [OF assms(1) fresh _ m1_def])
      (use made [of ?n f] s assms(1) u own in \<open>auto simp: smInv_def isOwn_def word_less_nat_alt word_le_nat_alt\<close>)
  ultimately show ?thesis using assms(2) made [of ?n f] s by (auto simp: m1_def)
qed

end

lemma indexOf_Some: "indexOf x xs = Some i \<Longrightarrow> i < length xs \<and> xs ! i = x"
  by (induction xs arbitrary: i) (auto split: if_splits)

lemma indexOf_None: "indexOf x xs = None \<longleftrightarrow> x \<notin> set xs"
  by (induction xs) auto

lemma remove_nth:
  assumes "distinct xs" "i < length xs"
  shows "take i xs @ drop (i + 1) xs = filter (\<lambda>x. x \<noteq> xs ! i) xs"
proof -
  have "xs = take i xs @ xs ! i # drop (i + 1) xs" using id_take_nth_drop [OF assms(2)] by simp
  then have d: "distinct (take i xs @ xs ! i # drop (i + 1) xs)" using assms(1) by simp
  have "filter (\<lambda>x. x \<noteq> xs ! i) (take i xs) = take i xs" "filter (\<lambda>x. x \<noteq> xs ! i) (drop (i + 1) xs) = drop (i + 1) xs"
    by (rule filter_True, use d in auto)+
  then have "filter (\<lambda>x. x \<noteq> xs ! i) (take i xs @ xs ! i # drop (i + 1) xs) = take i xs @ drop (i + 1) xs"
    by simp
  then show ?thesis by (metis \<open>xs = take i xs @ xs ! i # drop (i + 1) xs\<close>)
qed

lemma num_remove:
  assumes "distinct xs" "sid \<in> set xs"
  shows "numEven (filter (\<lambda>x. x \<noteq> sid) xs) = numEven xs - (if even (unat sid) then 1 else 0)
    \<and> numOdd (filter (\<lambda>x. x \<noteq> sid) xs) = numOdd xs - (if even (unat sid) then 0 else 1)"
  using assms
proof (induction xs)
  case (Cons x xs)
  show ?case
  proof (cases "x = sid")
    case True
    then have "filter (\<lambda>y. y \<noteq> sid) (x # xs) = xs" using Cons.prems(1) by (auto simp: filter_id_conv)
    then show ?thesis by (simp only: numEven_Cons True) simp
  next
    case False
    then have "filter (\<lambda>y. y \<noteq> sid) (x # xs) = x # filter (\<lambda>y. y \<noteq> sid) xs" by simp
    then show ?thesis using Cons False by (simp only: numEven_Cons) auto
  qed
qed simp

lemma distinct_words_length:
  assumes "distinct (xs :: StreamID list)"
  shows "length xs \<le> 2 ^ 32"
proof -
  have "unat x < 2 ^ 32" for x :: StreamID using unsigned_less [where ?'a = nat, of x] by simp
  then have "unat ` set xs \<subseteq> {..<2 ^ 32}" by blast
  then have "card (unat ` set xs) \<le> 2 ^ 32" using card_mono [of "{..<2 ^ 32 :: nat}"] by (metis card_lessThan finite_lessThan)
  moreover have "card (unat ` set xs) = length xs"
    using assms by (simp add: card_image inj_on_def word_unat_eq_iff distinct_card)
  ultimately show ?thesis by simp
qed

lemma sm_RemoveStream_eq:
  assumes inv: "smInv C m" and r: "sm_RemoveStream sid m = (m', None)"
  obtains rr where "sid \<in> set (sm_openStreams m)" "unat rr < length (sm_openStreams m)"
    "m' = m\<lparr> sm_openStreams := filter (\<lambda>x. x \<noteq> sid) (sm_openStreams m), sm_roundRobinIndex := rr,
      sm_numOutgoingStreams := sm_numOutgoingStreams m - (if even (unat sid) then 1 else 0),
      sm_numIncomingStreams := sm_numIncomingStreams m - (if even (unat sid) then 0 else 1),
      sm_streams := AList.delete sid (sm_streams m) \<rparr>"
proof -
  have "map_of (sm_streams m) sid \<noteq> None" using r by (auto simp: sm_RemoveStream_def split: if_splits)
  then have i: "sid \<in> set (sm_openStreams m)" using smInv_keys(1) [OF inv] by metis
  then obtain i where x: "indexOf sid (sm_openStreams m) = Some i" using indexOf_None by fastforce
  have "take i (sm_openStreams m) @ drop (i + 1) (sm_openStreams m) = filter (\<lambda>x. x \<noteq> sid) (sm_openStreams m)"
    using remove_nth [of "sm_openStreams m" i] indexOf_Some [OF x] inv by (simp add: smInv_def)
  note f = this
  let ?rr = "if of_nat i < sm_roundRobinIndex m then sm_roundRobinIndex m - 1 else sm_roundRobinIndex m"
  have "i < length (sm_openStreams m)" "length (sm_openStreams m) \<le> 2 ^ 32" "unat (sm_roundRobinIndex m) \<le> length (sm_openStreams m)"
    using indexOf_Some [OF x] inv distinct_words_length by (auto simp: smInv_def)
  moreover have "unat (sm_roundRobinIndex m - 1) = unat (sm_roundRobinIndex m) - 1" if "of_nat i < sm_roundRobinIndex m"
    by (rule unat_minus_one) (use that in auto)
  ultimately have "unat ?rr < length (sm_openStreams m)"
    by (auto simp: word_less_nat_alt unat_of_nat split: if_splits)
  from that [OF i this] show thesis using r x f \<open>map_of (sm_streams m) sid \<noteq> None\<close>
    by (auto simp: sm_RemoveStream_def Let_def split: if_splits)
qed

lemma sm_RemoveStream_inv:
  assumes inv: "smInv C m" and r: "sm_RemoveStream sid m = (m', None)"
  shows "smInv (insert sid C) m'"
proof -
  obtain rr where i: "sid \<in> set (sm_openStreams m)" and rr: "unat rr < length (sm_openStreams m)" and m': "m' = m\<lparr> sm_openStreams := filter (\<lambda>x. x \<noteq> sid) (sm_openStreams m),
      sm_roundRobinIndex := rr,
      sm_numOutgoingStreams := sm_numOutgoingStreams m - (if even (unat sid) then 1 else 0),
      sm_numIncomingStreams := sm_numIncomingStreams m - (if even (unat sid) then 0 else 1),
      sm_streams := AList.delete sid (sm_streams m) \<rparr>"
    using sm_RemoveStream_eq [OF assms] by metis
  have o: "isOwn m' = isOwn m" "opened m' = opened m" by (simp_all add: m' isOwn_def opened_def fun_eq_iff)
  have "distinct (sm_openStreams m)" using inv by (simp add: smInv_def)
  note n = num_remove [OF this i]
  have d: "distinct (map fst (AList.delete sid (sm_streams m)))" using inv by (simp add: smInv_def distinct_delete)
  have "filter (\<lambda>x. x \<noteq> sid) (sm_openStreams m) = remove1 sid (sm_openStreams m)"
    using inv by (simp add: smInv_def distinct_remove1_removeAll removeAll_filter_not_eq) (metis (mono_tags, lifting))
  then have "length (filter (\<lambda>x. x \<noteq> sid) (sm_openStreams m)) = length (sm_openStreams m) - 1"
    using i by (simp add: length_remove1)
  then have "unat rr \<le> length (filter (\<lambda>x. x \<noteq> sid) (sm_openStreams m))" using rr by simp
  then show ?thesis unfolding smInv_def o using inv i d
    by (auto simp: m' n smInv_def AList.delete_eq)
qed

lemma setStream_inv:
  assumes "smInv C m" "map_of (sm_streams m) (st_streamID s) \<noteq> None"
  shows "smInv C (setStream s m)" "sm_openStreams (setStream s m) = sm_openStreams m"
proof -
  let ?sid = "st_streamID s"
  have o: "isOwn (setStream s m) = isOwn m" "opened (setStream s m) = opened m"
    by (simp_all add: setStream_def isOwn_def opened_def fun_eq_iff)
  have d: "distinct (map fst (sm_streams m))" using assms(1) by (simp add: smInv_def)
  have "?sid \<in> set (sm_openStreams m)" using assms(2) smInv_keys(1) [OF assms(1)] by metis
  then have k: "fst ` set (AList.update ?sid s (sm_streams m)) = fst ` set (sm_streams m)"
    using assms(1) by (auto simp: smInv_def dom_update)
  have "\<forall>(sid, x) \<in> set (AList.update ?sid s (sm_streams m)). st_streamID x = sid"
    using assms(1) d by (auto simp: smInv_def dest!: set_update_subset)
  then show "smInv C (setStream s m)" unfolding smInv_def o
    using assms(1) k d by (auto simp: setStream_def smInv_def distinct_update)
  show "sm_openStreams (setStream s m) = sm_openStreams m" by (simp add: setStream_def)
qed

lemma cancelLoop_inv:
  assumes "smInv C m" "set sids \<subseteq> set (sm_openStreams m)"
  shows "smInv C (fst (cancelLoop err sids m)) \<and> snd (cancelLoop err sids m) = None"
  using assms
proof (induction sids arbitrary: m)
  case (Cons sid sids)
  then obtain s where s: "map_of (sm_streams m) sid = Some s" using smInv_keys(1) [OF Cons.prems(1), of sid] by auto
  then have "st_streamID (stream_Cancel err s) = sid"
    using smInv_keys(2) [OF Cons.prems(1)] by (auto simp: stream_Cancel_def signalRead_def signalWrite_def Let_def)
  then show ?case using Cons s setStream_inv [of C m "stream_Cancel err s"] by simp
qed simp

section \<open>Round robin\<close>

text \<open>A function that changes every stream it gets and notes the identifier.\<close>

definition visitor :: "(stream \<Rightarrow> stream) \<Rightarrow> StreamID list streamLambda" where
  "visitor upd s m sids = ((True, None), setStream (upd s) m, sids @ [st_streamID s])"

lemma iterateFunc_visitor:
  assumes "smInv C m" "\<And>s. st_streamID (upd s) = st_streamID s" "sid \<in> set (sm_openStreams m)"
  obtains m' where "iterateFunc sid (visitor upd) m xs = ((True, None), m', xs @ [sid])" "smInv C m'"
    "sm_openStreams m' = sm_openStreams m" "sm_roundRobinIndex m' = sm_roundRobinIndex m"
    "map_of (sm_streams m') = (map_of (sm_streams m))(sid := map_option upd (map_of (sm_streams m) sid))"
proof -
  obtain s where s: "map_of (sm_streams m) sid = Some s" using assms(3) smInv_keys(1) [OF assms(1), of sid] by auto
  have i: "st_streamID s = sid" using smInv_keys(2) [OF assms(1) s] .
  have n: "map_of (sm_streams m) (st_streamID (upd s)) \<noteq> None" using s i assms(2) by simp
  show thesis
    by (rule that [of "setStream (upd s) m"])
      (use s i assms(2) setStream_inv [OF assms(1) n] in
        \<open>simp_all add: iterateFunc_def visitor_def setStream_def update_conv'\<close>)
qed

lemma iterateFunc_missing:
  assumes "smInv C m" "sid \<notin> set (sm_openStreams m)"
  shows "iterateFunc sid fn m x = ((True, Some errStreamsMapAccess), m, x)"
  using smInv_keys(1) [OF assms(1), of sid] assms(2) by (simp add: iterateFunc_def)

definition visited :: "(stream \<Rightarrow> stream) \<Rightarrow> StreamID set \<Rightarrow> (StreamID \<Rightarrow> stream option) \<Rightarrow> StreamID \<Rightarrow> stream option" where
  "visited upd A q sid = (if sid \<in> A then map_option upd (q sid) else q sid)"

lemma priorityLoop_visitor:
  assumes "smInv C m" "\<And>s. st_streamID (upd s) = st_streamID s" "distinct sids"
  shows "\<exists>m'. priorityLoop (visitor upd) sids m xs = (m', xs @ filter (\<lambda>x. x \<in> set (sm_openStreams m)) sids, None)
    \<and> smInv C m' \<and> sm_openStreams m' = sm_openStreams m \<and> sm_roundRobinIndex m' = sm_roundRobinIndex m
    \<and> map_of (sm_streams m') = visited upd (set sids) (map_of (sm_streams m))"
  using assms(1,3)
proof (induction sids arbitrary: m xs)
  case Nil
  then show ?case by (simp add: visited_def fun_eq_iff)
next
  case (Cons sid sids)
  show ?case
  proof (cases "sid \<in> set (sm_openStreams m)")
    case True
    obtain m1 where m1: "iterateFunc sid (visitor upd) m xs = ((True, None), m1, xs @ [sid])" "smInv C m1"
      "sm_openStreams m1 = sm_openStreams m" "sm_roundRobinIndex m1 = sm_roundRobinIndex m"
      "map_of (sm_streams m1) = (map_of (sm_streams m))(sid := map_option upd (map_of (sm_streams m) sid))"
      using iterateFunc_visitor [OF Cons.prems(1) assms(2) True] by metis
    have "visited upd (set sids) (map_of (sm_streams m1)) = visited upd (set (sid # sids)) (map_of (sm_streams m))"
      using Cons.prems(2) by (auto simp: visited_def m1(5) fun_eq_iff)
    then show ?thesis using Cons.IH [OF m1(2), of "xs @ [sid]"] Cons.prems(2) True m1(1,3,4) by auto
  next
    case False
    then have "visited upd (set sids) (map_of (sm_streams m)) = visited upd (set (sid # sids)) (map_of (sm_streams m))"
      using smInv_keys(1) [OF Cons.prems(1), of sid] by (auto simp: visited_def fun_eq_iff)
    then show ?thesis using Cons.IH [OF Cons.prems(1), of xs] Cons.prems(2) False
        iterateFunc_missing [OF Cons.prems(1) False, of "visitor upd" xs] by auto
  qed
qed

lemma roundRobinLoop_visitor:
  assumes "smInv C m" "\<And>s. st_streamID (upd s) = st_streamID s"
    and "n = of_nat (length (sm_openStreams m))" "length (sm_openStreams m) < 2 ^ 32"
    and "distinct (map (\<lambda>i. unat ((i + start) mod n)) is)" "is \<noteq> [] \<Longrightarrow> sm_openStreams m \<noteq> []"
  shows "\<exists>m'. roundRobinLoop (visitor upd) n start is m xs = (m', xs @ filter (\<lambda>x. x \<noteq> 1 \<and> x \<noteq> 3)
      (map (\<lambda>i. sm_openStreams m ! unat ((i + start) mod n)) is), None)
    \<and> map_of (sm_streams m') = visited upd (set (filter (\<lambda>x. x \<noteq> 1 \<and> x \<noteq> 3)
      (map (\<lambda>i. sm_openStreams m ! unat ((i + start) mod n)) is))) (map_of (sm_streams m))"
  using assms(1,3-6)
proof (induction "is" arbitrary: m xs)
  case Nil
  then show ?case by (simp add: visited_def fun_eq_iff)
next
  case (Cons i "is")
  let ?k = "unat ((i + start) mod n)" and ?o = "sm_openStreams m"
  have un: "unat n = length ?o" using Cons.prems(2,3) by (simp add: unat_of_nat)
  then have k: "?k < length ?o" using Cons.prems(5) by (simp add: unat_mod)
  show ?case
  proof (cases "?o ! ?k = 1 \<or> ?o ! ?k = 3")
    case True
    then show ?thesis using Cons.IH [OF Cons.prems(1-3), of xs] Cons.prems(4,5) k by auto
  next
    case False
    have "?o ! ?k \<in> set ?o" using k by simp
    then obtain m1 where m1: "iterateFunc (?o ! ?k) (visitor upd) m xs = ((True, None), m1, xs @ [?o ! ?k])" "smInv C m1"
      "sm_openStreams m1 = ?o" "map_of (sm_streams m1) = (map_of (sm_streams m))(?o ! ?k := map_option upd (map_of (sm_streams m) (?o ! ?k)))"
      using iterateFunc_visitor [OF Cons.prems(1) assms(2)] by metis
    define m2 where "m2 = m1\<lparr> sm_roundRobinIndex := (sm_roundRobinIndex m1 + 1) mod n \<rparr>"
    have "unat ((sm_roundRobinIndex m1 + 1) mod n) \<le> length ?o"
      using un Cons.prems(5) by (simp add: unat_mod less_imp_le)
    then have m2: "smInv C m2" "sm_openStreams m2 = ?o" "sm_streams m2 = sm_streams m1"
      using m1(2,3) by (auto simp: m2_def smInv_def isOwn_def opened_def)
    have nin: "?o ! ?k \<notin> set (filter (\<lambda>x. x \<noteq> 1 \<and> x \<noteq> 3) (map (\<lambda>i. ?o ! unat ((i + start) mod n)) is))"
    proof
      assume "?o ! ?k \<in> set (filter (\<lambda>x. x \<noteq> 1 \<and> x \<noteq> 3) (map (\<lambda>i. ?o ! unat ((i + start) mod n)) is))"
      then obtain j where j: "j \<in> set is" "?o ! ?k = ?o ! unat ((j + start) mod n)" by auto
      moreover have "unat ((j + start) mod n) < length ?o" using un Cons.prems(5) by (simp add: unat_mod)
      ultimately have "?k = unat ((j + start) mod n)"
        using k Cons.prems(1) by (simp add: smInv_def nth_eq_iff_index_eq)
      then show False using Cons.prems(4) j(1) by auto
    qed
    obtain m' where m': "roundRobinLoop (visitor upd) n start is m2 (xs @ [?o ! ?k]) = (m', (xs @ [?o ! ?k]) @
        filter (\<lambda>x. x \<noteq> 1 \<and> x \<noteq> 3) (map (\<lambda>i. ?o ! unat ((i + start) mod n)) is), None)"
      "map_of (sm_streams m') = visited upd (set (filter (\<lambda>x. x \<noteq> 1 \<and> x \<noteq> 3)
        (map (\<lambda>i. ?o ! unat ((i + start) mod n)) is))) (map_of (sm_streams m1))"
      using Cons.IH [OF m2(1), unfolded m2(2,3), OF Cons.prems(2,3), of "xs @ [?o ! ?k]"] Cons.prems(4,5) by auto
    have "roundRobinLoop (visitor upd) n start (i # is) m xs = roundRobinLoop (visitor upd) n start is m2 (xs @ [?o ! ?k])"
      using k False m1(1) by (simp add: m2_def Let_def)
    moreover have "map_of (sm_streams m') = visited upd (insert (?o ! ?k) (set (filter (\<lambda>x. x \<noteq> 1 \<and> x \<noteq> 3)
        (map (\<lambda>i. ?o ! unat ((i + start) mod n)) is)))) (map_of (sm_streams m))"
      using nin unfolding m'(2) m1(4) by (auto simp: visited_def fun_eq_iff)
    ultimately show ?thesis using m'(1) False by auto
  qed
qed

lemma rotated_indices:
  assumes "unat start + len < 2 ^ 32" "n = (of_nat len :: uint32)"
  shows "map (\<lambda>i. unat ((i + start) mod n)) (map of_nat [0 ..< len]) = rotate (unat start) [0 ..< len]"
proof (rule nth_equalityI)
  fix i
  assume i: "i < length (map (\<lambda>i. unat ((i + start) mod n)) (map of_nat [0 ..< len]))"
  have "unat (of_nat i + start) = i + unat start" "unat n = len"
    using i assms by (simp_all add: unat_word_ariths unat_of_nat)
  then show "map (\<lambda>i. unat ((i + start) mod n)) (map of_nat [0 ..< len]) ! i = rotate (unat start) [0 ..< len] ! i"
    using i by (simp add: nth_rotate unat_mod add.commute)
qed simp

text \<open>The order in which the streams are visited.\<close>

definition visitOrder :: "streamsMap \<Rightarrow> StreamID list" where
  "visitOrder m = filter (\<lambda>x. x \<in> set (sm_openStreams m)) [1, 3]
     @ filter (\<lambda>x. x \<noteq> 1 \<and> x \<noteq> 3) (rotate (unat (sm_roundRobinIndex m)) (sm_openStreams m))"

lemma visitOrder_once:
  assumes "smInv C m"
  shows "distinct (visitOrder m) \<and> set (visitOrder m) = set (sm_openStreams m)"
  using assms by (auto simp: visitOrder_def smInv_def)

lemma RoundRobinIterate_visitor:
  assumes inv: "smInv C m" and upd: "\<And>s. st_streamID (upd s) = st_streamID s" and len: "length (sm_openStreams m) < 2 ^ 31"
  shows "\<exists>m'. RoundRobinIterate (visitor upd) m [] = (m', visitOrder m, None)
    \<and> map_of (sm_streams m') = map_option upd \<circ> map_of (sm_streams m)"
proof -
  let ?o = "sm_openStreams m" and ?r = "sm_roundRobinIndex m"
  define n where "n = (of_nat (length ?o) :: uint32)"
  define js where "js = map (of_nat :: nat \<Rightarrow> uint32) [0 ..< length ?o]"
  have d3: "distinct [1, 3 :: StreamID]" by simp
  obtain m1 where m1: "priorityLoop (visitor upd) [1, 3] m [] = (m1, filter (\<lambda>x. x \<in> set ?o) [1, 3], None)" "smInv C m1"
    "sm_openStreams m1 = ?o" "map_of (sm_streams m1) = visited upd {1, 3} (map_of (sm_streams m))"
    using priorityLoop_visitor [OF inv upd d3, where xs = "[]"] by auto
  have r: "unat ?r + length ?o < 2 ^ 32" using inv len by (simp add: smInv_def)
  note ix = rotated_indices [OF r n_def, folded js_def]
  have nth: "map (\<lambda>i. ?o ! unat ((i + ?r) mod n)) js = rotate (unat ?r) ?o"
  proof -
    have "map (\<lambda>i. ?o ! unat ((i + ?r) mod n)) js = map ((!) ?o) (map (\<lambda>i. unat ((i + ?r) mod n)) js)" by simp
    also have "\<dots> = rotate (unat ?r) (map ((!) ?o) [0 ..< length ?o])" by (simp only: ix rotate_map)
    finally show ?thesis by (simp only: map_nth)
  qed
  have "distinct (map (\<lambda>i. unat ((i + ?r) mod n)) js)" unfolding ix by simp
  moreover have "js \<noteq> [] \<Longrightarrow> ?o \<noteq> []" by (auto simp: js_def)
  ultimately obtain m' where m': "roundRobinLoop (visitor upd) n ?r js m1 (filter (\<lambda>x. x \<in> set ?o) [1, 3]) = (m', visitOrder m, None)"
      "map_of (sm_streams m') = visited upd (set (filter (\<lambda>x. x \<noteq> 1 \<and> x \<noteq> 3) (rotate (unat ?r) ?o))) (map_of (sm_streams m1))"
    using roundRobinLoop_visitor [OF m1(2) upd, unfolded m1(3), OF n_def, of ?r js "filter (\<lambda>x. x \<in> set ?o) [1, 3]"] len
    unfolding nth visitOrder_def by auto
  have "RoundRobinIterate (visitor upd) m [] = (m', visitOrder m, None)"
  proof -
    have "of_nat (length (sm_streams m)) = n" "unat n = length ?o"
      using smInv_keys(3) [OF inv] len by (simp_all add: n_def unat_of_nat)
    then show ?thesis using m1(1) m'(1) by (simp add: RoundRobinIterate_def js_def)
  qed
  moreover have "map_of (sm_streams m') sid = map_option upd (map_of (sm_streams m) sid)" for sid
    using smInv_keys(1) [OF inv, of sid] unfolding m'(2) m1(4) by (auto simp: visited_def)
  ultimately show ?thesis by (auto simp: fun_eq_iff)
qed

section \<open>The streams of a session\<close>

text \<open>\<open>session.newStream\<close>: all streams but 1 and 3 contribute to the flow control of the connection.\<close>

definition session_newStream :: "fcEnv \<Rightarrow> flowControlManager newStreamLambda" where
  "session_newStream env streamID f =
     (newStream streamID,
      if streamID = 1 \<or> streamID = 3 then NewStream env streamID False f else NewStream env streamID True f)"

interpretation session_maker: stream_maker "session_newStream env" for env
  by unfold_locales (simp add: session_newStream_def newStream_def)

text \<open>
  The life of the map: streams are opened by the peer and locally, accepted, changed by their own
  operations, visited in turn, removed, and all cancelled. The identifiers for local streams do
  not run out. \<open>C\<close> collects the removed streams.
\<close>

inductive streamsRun :: "fcEnv \<Rightarrow> Perspective \<Rightarrow> StreamID set \<Rightarrow> streamsMap \<Rightarrow> bool" for env pers where
  start: "streamsRun env pers {} (newStreamsMap pers)"
| peer: "streamsRun env pers C m \<Longrightarrow> GetOrOpenStream (session_newStream env) sid m f = (m', f', r) \<Longrightarrow> streamsRun env pers C m'"
| local: "streamsRun env pers C m \<Longrightarrow> OpenStream (session_newStream env) m f = (m', f', r) \<Longrightarrow>
    unat (sm_nextStream m) + 2 < 2 ^ 32 \<Longrightarrow> streamsRun env pers C m'"
| sync: "streamsRun env pers C m \<Longrightarrow> OpenStreamSync (session_newStream env) m f = (m', f', r) \<Longrightarrow>
    unat (sm_nextStream m) + 2 < 2 ^ 32 \<Longrightarrow> streamsRun env pers C m'"
| accept: "streamsRun env pers C m \<Longrightarrow> AcceptStream m = (m', r) \<Longrightarrow> streamsRun env pers C m'"
| change: "streamsRun env pers C m \<Longrightarrow> map_of (sm_streams m) (st_streamID s) \<noteq> None \<Longrightarrow> streamsRun env pers C (setStream s m)"
| turn: "streamsRun env pers C m \<Longrightarrow> sm_streams m \<noteq> [] \<Longrightarrow>
    streamsRun env pers C (m\<lparr> sm_roundRobinIndex := (sm_roundRobinIndex m + 1) mod of_nat (length (sm_streams m)) \<rparr>)"
| remove: "streamsRun env pers C m \<Longrightarrow> sm_RemoveStream sid m = (m', None) \<Longrightarrow> streamsRun env pers (insert sid C) m'"
| closing: "streamsRun env pers C m \<Longrightarrow> CloseWithError err m = (m', e) \<Longrightarrow> streamsRun env pers C m'"

lemma smInv_fields:
  assumes "smInv C m" "sm_streams m' = sm_streams m" "sm_openStreams m' = sm_openStreams m"
    and "sm_perspective m' = sm_perspective m" "sm_nextStream m' = sm_nextStream m"
    and "sm_highestStreamOpenedByPeer m' = sm_highestStreamOpenedByPeer m"
    and "sm_numOutgoingStreams m' = sm_numOutgoingStreams m" "sm_numIncomingStreams m' = sm_numIncomingStreams m"
    and "unat (sm_roundRobinIndex m') \<le> length (sm_openStreams m)"
  shows "smInv C m'"
proof -
  have "isOwn m' = isOwn m" "opened m' = opened m"
    using assms by (simp_all add: isOwn_def opened_def fun_eq_iff)
  then show ?thesis using assms unfolding smInv_def by metis
qed

lemma streamsRun_inv:
  assumes "streamsRun env pers C m"
  shows "smInv C m"
  using assms
proof induction
  case start
  show ?case
    by (cases pers) (simp_all add: newStreamsMap_def smInv_def isOwn_def opened_def numEven_def numOdd_def)
next
  case (peer C m sid f m' f' r)
  then show ?case using session_maker.GetOrOpenStream_inv by blast
next
  case (local C m f m' f' r)
  then show ?case using session_maker.OpenStream_inv [OF local.IH]
    by (auto simp: OpenStream_def split: option.splits)
next
  case (sync C m f m' f' r)
  obtain m1 f1 r1 where o: "openStreamImpl (session_newStream env) m f = (m1, f1, r1)" by (metis prod_cases3)
  show ?case using sync session_maker.OpenStream_inv [OF sync.IH o] o
    by (auto simp: OpenStreamSync_def split: option.splits sum.splits)
next
  case (accept C m m' r)
  then have "m' = m \<or> m' = m\<lparr> sm_nextStreamToAccept := sm_nextStreamToAccept m + 2 \<rparr>"
    by (auto simp: AcceptStream_def split: option.splits)
  moreover have "unat (sm_roundRobinIndex m) \<le> length (sm_openStreams m)" using accept.IH by (simp add: smInv_def)
  ultimately show ?case by (intro smInv_fields [OF accept.IH]) auto
next
  case (turn C m)
  have l: "length (sm_openStreams m) = length (sm_streams m)" "length (sm_openStreams m) \<le> 2 ^ 32"
    using smInv_keys(3) [OF turn.IH] turn.IH distinct_words_length by (auto simp: smInv_def)
  let ?r = "(sm_roundRobinIndex m + 1) mod of_nat (length (sm_streams m))"
  have "unat ?r \<le> length (sm_openStreams m)"
  proof (cases "length (sm_streams m) = 2 ^ 32")
    case True
    then show ?thesis using l(1) unsigned_less [where ?'a = nat, of ?r] by simp
  next
    case False
    then have "unat (of_nat (length (sm_streams m)) :: uint32) = length (sm_streams m)" using l by (simp add: unat_of_nat)
    then show ?thesis using turn.hyps(2) l(1) by (simp add: unat_mod less_imp_le)
  qed
  then show ?case by (intro smInv_fields [OF turn.IH]) simp_all
next
  case (closing C m err m' e)
  have "smInv C (m\<lparr> sm_closeErr := err \<rparr>)"
    by (rule smInv_fields [OF closing.IH]) (use closing.IH in \<open>simp_all add: smInv_def\<close>)
  from cancelLoop_inv [OF this, of "sm_openStreams m" err] show ?case
    using closing.hyps(2) by (simp add: CloseWithError_def Let_def)
qed (auto intro: setStream_inv sm_RemoveStream_inv)

lemma word_steps:
  assumes "unat (a :: StreamID) + 2 * j = unat b"
  shows "a + 2 * of_nat j = b"
proof -
  have "(of_nat (unat a + 2 * j) :: StreamID) = of_nat (unat b)" by (simp only: assms)
  then show ?thesis by simp
qed

lemma streamsRun_newOwn:
  assumes "streamsRun env pers C m"
  shows "sm_nextStream m \<notin> set (sm_openStreams m) \<union> C
    \<and> GetOrOpenStream (session_newStream env) (sm_nextStream m) m f = (m, f, Inr None)"
proof -
  have inv: "smInv C m" using streamsRun_inv [OF assms] .
  have "isOwn m (sm_nextStream m)" using inv by (simp add: smInv_def)
  then have "\<not> opened m (sm_nextStream m)" by (simp add: opened_def)
  then have n: "sm_nextStream m \<notin> set (sm_openStreams m) \<union> C" using inv by (auto simp: smInv_def)
  then show ?thesis using \<open>isOwn m (sm_nextStream m)\<close> smInv_keys(1) [OF inv, of "sm_nextStream m"]
    by (cases rule: session_maker.GetOrOpenStream_cases [OF inv, of "sm_nextStream m" env f]) auto
qed

text \<open>
  A function that stops at the first stream that is not a priority stream. The index moves by one
  with every stream that is served, but not with the priority streams that are skipped: a stream
  behind them in the list gets their turns as well.
\<close>

definition serveOne :: "StreamID list streamLambda" where
  "serveOne s m sids =
     (if st_streamID s = 1 \<or> st_streamID s = 3 then ((True, None), m, sids)
      else ((False, None), m, sids @ [st_streamID s]))"

definition exFour :: streamsMap where
  "exFour = fst (GetOrOpenStream (session_newStream exEnv) 7 (newStreamsMap PerspectiveServer) exOpened)"

lemma roundRobin_extra_turns:
  "sm_openStreams exFour = [1, 3, 5, 7]
    \<and> fst (snd (fold (\<lambda>_ (m, xs, e). RoundRobinIterate serveOne m xs) [1, 2, 3, 4 :: nat] (exFour, [], None))) = [5, 5, 5, 7]"
  by code_simp

section \<open>Properties\<close>

text \<open>
  C35. In every state of the map, the list of open streams holds every stream of the map exactly
  once, under the identifier of the stream; the two counters are the numbers of open streams with
  even and with odd identifiers; and a stream that was removed is never opened again, a frame for it
  finds a closed stream.
\<close>

theorem streamsMap_wellformed:
  assumes "streamsRun env pers C m"
  shows "distinct (sm_openStreams m) \<and> distinct (map fst (sm_streams m))
    \<and> set (sm_openStreams m) = fst ` set (sm_streams m)
    \<and> (\<forall>sid s. map_of (sm_streams m) sid = Some s \<longrightarrow> st_streamID s = sid)
    \<and> sm_numOutgoingStreams m = numEven (sm_openStreams m) \<and> sm_numIncomingStreams m = numOdd (sm_openStreams m)
    \<and> (\<forall>sid f. sid \<in> C \<longrightarrow> GetOrOpenStream (session_newStream env) sid m f = (m, f, Inr None))"
proof -
  have inv: "smInv C m" using streamsRun_inv [OF assms] .
  have "GetOrOpenStream (session_newStream env) sid m f = (m, f, Inr None)" if "sid \<in> C" for sid f
  proof -
    have "sid \<notin> set (sm_openStreams m)" "opened m sid" using inv that by (auto simp: smInv_def)
    then show ?thesis using smInv_keys(1) [OF inv, of sid]
      by (cases rule: session_maker.GetOrOpenStream_cases [OF inv, of sid env f])
        (auto simp: opened_def)
  qed
  then show ?thesis using inv smInv_keys(2) [OF inv] by (auto simp: smInv_def)
qed


text \<open>
  C37. One round of \<open>RoundRobinIterate\<close> with a function that never stops calls it exactly once for
  every open stream: first for the crypto and the header stream, then for the others in the order
  of the list, from the current index on and around its end. It does not fail, and no index is out
  of range.
\<close>

theorem roundRobin_visits_all:
  assumes "streamsRun env pers C m" "\<And>s. st_streamID (upd s) = st_streamID s" "length (sm_openStreams m) < 2 ^ 31"
  shows "\<exists>m'. RoundRobinIterate (visitor upd) m [] = (m', visitOrder m, None)
    \<and> distinct (visitOrder m) \<and> set (visitOrder m) = set (sm_openStreams m)
    \<and> map_of (sm_streams m') = map_option upd \<circ> map_of (sm_streams m)"
proof -
  have inv: "smInv C m" using streamsRun_inv [OF assms(1)] .
  show ?thesis using RoundRobinIterate_visitor [OF inv assms(2,3)] visitOrder_once [OF inv] by blast
qed

text \<open>A server: the peer opens streams 1, 3 and 5, and the first one is removed.\<close>

definition exMap1 :: streamsMap where
  "exMap1 = fst (GetOrOpenStream (session_newStream exEnv) 5 (newStreamsMap PerspectiveServer) exOpened)"

definition exMap2 :: streamsMap where
  "exMap2 = fst (sm_RemoveStream 1 exMap1)"

lemma GetOrOpenStream_run:
  "streamsRun env pers C m \<Longrightarrow> streamsRun env pers C (fst (GetOrOpenStream (session_newStream env) sid m f))"
  by (rule streamsRun.peer [of _ _ _ _ sid f _ "fst (snd (GetOrOpenStream (session_newStream env) sid m f))"
        "snd (snd (GetOrOpenStream (session_newStream env) sid m f))"]) simp_all

lemma example_run1: "streamsRun exEnv PerspectiveServer {} exMap1"
  unfolding exMap1_def by (rule GetOrOpenStream_run [OF streamsRun.start])

lemma exMap1_open:
  "sm_openStreams exMap1 = [1, 3, 5]" "sm_roundRobinIndex exMap1 = 0" "sm_perspective exMap1 = PerspectiveServer"
  "sm_highestStreamOpenedByPeer exMap1 = 5"
  by code_simp+

lemma example_run2: "streamsRun exEnv PerspectiveServer {1} exMap2"
proof -
  have "snd (sm_RemoveStream 1 exMap1) = None" by code_simp
  then have "sm_RemoveStream 1 exMap1 = (exMap2, None)" by (simp add: exMap2_def prod_eq_iff)
  then show ?thesis by (rule streamsRun.remove [OF example_run1])
qed

theorem streamsMap_wellformed_witness:
  "streamsRun exEnv PerspectiveServer {1} exMap2 \<and> sm_openStreams exMap2 = [3, 5]
    \<and> sm_numIncomingStreams exMap2 = numOdd [3, 5]
    \<and> GetOrOpenStream (session_newStream exEnv) 1 exMap2 exOpened = (exMap2, exOpened, Inr None)"
proof -
  have "sm_openStreams exMap2 = [3, 5]" by code_simp
  then show ?thesis using example_run2 streamsMap_wellformed [OF example_run2] by simp
qed


theorem roundRobin_visits_all_witness:
  "streamsRun exEnv PerspectiveServer {} exMap1
    \<and> (\<exists>m'. RoundRobinIterate (visitor (\<lambda>s. s)) exMap1 [] = (m', [1, 3, 5], None))"
proof -
  have "visitOrder exMap1 = [1, 3, 5]" by code_simp
  then show ?thesis using example_run1 roundRobin_visits_all [OF example_run1, of "\<lambda>s. s"] by (auto simp: exMap1_open)
qed

end
