(* ===== verification/StreamFramer.thy ===== *)
theory StreamFramer
  imports StreamsMap Unpacker
begin

text \<open>
  The stream framer (\<open>stream_framer.go\<close>): it takes data from the streams, in turn, and from the
  queue of retransmissions, and makes STREAM frames that fit into a packet and into the flow
  control windows. The map of streams and the flow control manager, to which the framer points in
  the code, are arguments and results of its operations.
\<close>

section \<open>State\<close>

record streamFramer =
  sfr_retransmissionQueue :: "StreamFrame list"
  sfr_blockedFrameQueue :: "BlockedFrame list"
  sfr_addAddressFrameQueue :: "AddAddressFrame list"
  sfr_closePathFrameQueue :: "ClosePathFrame list"
  sfr_pathsFrame :: "PathsFrame option"

definition newStreamFramer :: streamFramer where
  "newStreamFramer =
     \<lparr> sfr_retransmissionQueue = [], sfr_blockedFrameQueue = [], sfr_addAddressFrameQueue = [],
       sfr_closePathFrameQueue = [], sfr_pathsFrame = None \<rparr>"

section \<open>Control frames\<close>

definition AddFrameForRetransmission :: "StreamFrame \<Rightarrow> streamFramer \<Rightarrow> streamFramer" where
  "AddFrameForRetransmission frame fr =
     fr\<lparr> sfr_retransmissionQueue := sfr_retransmissionQueue fr @ [frame] \<rparr>"

definition PopBlockedFrame :: "streamFramer \<Rightarrow> BlockedFrame option \<times> streamFramer" where
  "PopBlockedFrame fr =
     (case sfr_blockedFrameQueue fr of
        [] \<Rightarrow> (None, fr)
      | frame # rest \<Rightarrow> (Some frame, fr\<lparr> sfr_blockedFrameQueue := rest \<rparr>))"

definition AddAddressForTransmission :: "uint8 \<Rightarrow> UDPAddr \<Rightarrow> streamFramer \<Rightarrow> streamFramer" where
  "AddAddressForTransmission ipVersion addr fr =
     fr\<lparr> sfr_addAddressFrameQueue := sfr_addAddressFrameQueue fr @ [\<lparr> IPVersion = ipVersion, Addr = addr \<rparr>] \<rparr>"

definition PopAddAddressFrame :: "streamFramer \<Rightarrow> AddAddressFrame option \<times> streamFramer" where
  "PopAddAddressFrame fr =
     (case sfr_addAddressFrameQueue fr of
        [] \<Rightarrow> (None, fr)
      | frame # rest \<Rightarrow> (Some frame, fr\<lparr> sfr_addAddressFrameQueue := rest \<rparr>))"

text \<open>
  The paths of the session are given in the order in which Go visits the map, each with its
  identifier, whether it is potentially failed, and its smoothed RTT.
\<close>

definition AddPathsFrameForTransmission :: "(PathID \<times> bool \<times> Duration) list \<Rightarrow> streamFramer \<Rightarrow> streamFramer" where
  "AddPathsFrameForTransmission paths fr =
     fr\<lparr> sfr_pathsFrame := Some
          \<lparr> MaxNumPaths = 255, NumPaths = of_nat (length paths), PathIDs = map fst paths,
            RemoteRTTs = map (\<lambda>(_, failed, rtt). if failed then 3600 * Second else rtt) paths \<rparr> \<rparr>"

definition PopPathsFrame :: "streamFramer \<Rightarrow> PathsFrame option \<times> streamFramer" where
  "PopPathsFrame fr =
     (case sfr_pathsFrame fr of
        None \<Rightarrow> (None, fr)
      | Some frame \<Rightarrow> (Some frame, fr\<lparr> sfr_pathsFrame := None \<rparr>))"

definition AddClosePathFrameForTransmission :: "ClosePathFrame \<Rightarrow> streamFramer \<Rightarrow> streamFramer" where
  "AddClosePathFrameForTransmission frame fr =
     fr\<lparr> sfr_closePathFrameQueue := sfr_closePathFrameQueue fr @ [frame] \<rparr>"

definition PopClosePathFrame :: "streamFramer \<Rightarrow> ClosePathFrame option \<times> streamFramer" where
  "PopClosePathFrame fr =
     (case sfr_closePathFrameQueue fr of
        [] \<Rightarrow> (None, fr)
      | frame # rest \<Rightarrow> (Some frame, fr\<lparr> sfr_closePathFrameQueue := rest \<rparr>))"

definition HasFramesForRetransmission :: "streamFramer \<Rightarrow> bool" where
  "HasFramesForRetransmission fr \<longleftrightarrow> length (sfr_retransmissionQueue fr) > 0"

section \<open>The crypto stream\<close>

text \<open>
  The errors of \<open>GetOrOpenStream\<close> are ignored; a stream that is not there is a nil pointer, of which
  the call of \<open>lenOfDataForWriting\<close> panics.
\<close>

definition cryptoStream :: "'f newStreamLambda \<Rightarrow> streamsMap \<Rightarrow> 'f \<Rightarrow> streamsMap \<times> 'f \<times> stream option" where
  "cryptoStream mk m f =
     (case GetOrOpenStream mk 1 m f of
        (m, f, Inr cs) \<Rightarrow> (m, f, cs)
      | (m, f, Inl _) \<Rightarrow> (m, f, None))"

definition HasCryptoStreamFrame :: "'f newStreamLambda \<Rightarrow> streamsMap \<Rightarrow> 'f \<Rightarrow> streamsMap \<times> 'f \<times> (go_error + bool)" where
  "HasCryptoStreamFrame mk m f =
     (case cryptoStream mk m f of
        (m, f, None) \<Rightarrow> (m, f, Inl (Panic ''nil pointer dereference''))
      | (m, f, Some cs) \<Rightarrow> (m, f, Inr (lenOfDataForWriting cs > 0)))"

definition streamHeaderLen :: "StreamFrame \<Rightarrow> ByteCount" where
  "streamHeaderLen frame = (case StreamFrame_MinLength frame VersionWhatever of Inl _ \<Rightarrow> 0 | Inr l \<Rightarrow> l)"

definition PopCryptoStreamFrame :: "'f newStreamLambda \<Rightarrow> ByteCount \<Rightarrow> streamsMap \<Rightarrow> 'f
    \<Rightarrow> streamsMap \<times> 'f \<times> (go_error + StreamFrame option)" where
  "PopCryptoStreamFrame mk maxLen m f =
     (case HasCryptoStreamFrame mk m f of
        (m, f, Inl err) \<Rightarrow> (m, f, Inl err)
      | (m, f, Inr False) \<Rightarrow> (m, f, Inr None)
      | (m, f, Inr True) \<Rightarrow>
     (case cryptoStream mk m f of
        (m, f, None) \<Rightarrow> (m, f, Inl (Panic ''nil pointer dereference''))
      | (m, f, Some cs) \<Rightarrow>
     (let frame = \<lparr> sf_StreamID = 1, sf_FinBit = False, sf_DataLenPresent = False,
                    sf_Offset = st_writeOffset cs, sf_Data = [] \<rparr>;
          (data, cs) = getDataForWriting (maxLen - streamHeaderLen frame) cs
      in (setStream cs m, f, Inr (Some (frame\<lparr> sf_Data := (case data of None \<Rightarrow> [] | Some d \<Rightarrow> d) \<rparr>))))))"

section \<open>Retransmissions\<close>

text \<open>The part that is split off, and the frame afterwards.\<close>

definition maybeSplitOffFrame :: "StreamFrame \<Rightarrow> ByteCount \<Rightarrow> StreamFrame option \<times> StreamFrame" where
  "maybeSplitOffFrame frame n =
     (if n \<ge> StreamFrame_DataLen frame then (None, frame)
      else (Some \<lparr> sf_StreamID = sf_StreamID frame, sf_FinBit = False,
                   sf_DataLenPresent = sf_DataLenPresent frame, sf_Offset = sf_Offset frame,
                   sf_Data = take (unat n) (sf_Data frame) \<rparr>,
            frame\<lparr> sf_Data := drop (unat n) (sf_Data frame), sf_Offset := sf_Offset frame + n \<rparr>))"

text \<open>The loop returns the frames, their length, and what is left of the queue.\<close>

fun retransmissionLoop :: "ByteCount \<Rightarrow> StreamFrame list \<Rightarrow> ByteCount \<Rightarrow> StreamFrame list \<Rightarrow> flowControlManager
    \<Rightarrow> StreamFrame list \<times> ByteCount \<times> StreamFrame list \<times> flowControlManager" where
  "retransmissionLoop maxLen [] currentLen res f = (res, currentLen, [], f)"
| "retransmissionLoop maxLen (frame # queue) currentLen res f =
     (let frame = frame\<lparr> sf_DataLenPresent := True \<rparr>;
          frameHeaderLen = streamHeaderLen frame
      in if currentLen + frameHeaderLen \<ge> maxLen then (res, currentLen, frame # queue, f)
         else
      let currentLen = currentLen + frameHeaderLen
      in case maybeSplitOffFrame frame (maxLen - currentLen) of
           (Some splitFrame, frame) \<Rightarrow>
             (res @ [splitFrame], currentLen + StreamFrame_DataLen splitFrame, frame # queue,
              fst (AddBytesRetrans (sf_StreamID splitFrame) (StreamFrame_DataLen splitFrame) f))
         | (None, frame) \<Rightarrow>
             retransmissionLoop maxLen queue (currentLen + StreamFrame_DataLen frame) (res @ [frame])
               (fst (AddBytesRetrans (sf_StreamID frame) (StreamFrame_DataLen frame) f)))"

definition maybePopFramesForRetransmission :: "ByteCount \<Rightarrow> streamFramer \<Rightarrow> flowControlManager
    \<Rightarrow> StreamFrame list \<times> ByteCount \<times> streamFramer \<times> flowControlManager" where
  "maybePopFramesForRetransmission maxLen fr f =
     (case retransmissionLoop maxLen (sfr_retransmissionQueue fr) 0 [] f of
        (res, currentLen, queue, f) \<Rightarrow> (res, currentLen, fr\<lparr> sfr_retransmissionQueue := queue \<rparr>, f))"

section \<open>New data\<close>

text \<open>
  What the function that is called for the streams shares: the flow control manager, the queue of
  BLOCKED frames, the length so far and the frames so far.
\<close>

record framing =
  fg_manager :: flowControlManager
  fg_blocked :: "BlockedFrame list"
  fg_currentLen :: ByteCount
  fg_res :: "StreamFrame list"

text \<open>The frame for a stream, with the data and the FIN bit that it may take.\<close>

definition frameForStream :: "stream \<Rightarrow> StreamFrame" where
  "frameForStream s =
     \<lparr> sf_StreamID = st_streamID s, sf_FinBit = False, sf_DataLenPresent = True,
       sf_Offset = st_writeOffset s, sf_Data = [] \<rparr>"

definition sendWindowFor :: "fcEnv \<Rightarrow> StreamID \<Rightarrow> flowControlManager \<Rightarrow> ByteCount" where
  "sendWindowFor env streamID f = (case fcm_SendWindowSize env streamID f of Inl _ \<Rightarrow> 0 | Inr w \<Rightarrow> w)"

definition popFromStream :: "fcEnv \<Rightarrow> ByteCount \<Rightarrow> framing streamLambda" where
  "popFromStream env maxBytes s m x =
     (if st_streamID s = 1 then ((True, None), m, x)
      else
      let frame = frameForStream s;
          frameHeaderBytes = streamHeaderLen frame
      in if fg_currentLen x + frameHeaderBytes > maxBytes then ((False, None), m, x)
         else
      let maxLen = maxBytes - fg_currentLen x - frameHeaderBytes;
          lenStreamData = lenOfDataForWriting s;
          sendWindowSize = (if lenStreamData \<noteq> 0 then sendWindowFor env (st_streamID s) (fg_manager x) else 0);
          maxLen = (if lenStreamData \<noteq> 0 then MinByteCount maxLen sendWindowSize else maxLen)
      in if maxLen = 0 then ((True, None), m, x)
         else
      let (data, s) = (if lenStreamData \<noteq> 0 then getDataForWriting maxLen s else (None, s));
          fin = shouldSendFin s
      in if data = None \<and> \<not> fin then ((True, None), setStream s m, x)
         else
      let s = (if fin then sentFin s else s);
          frame = frame\<lparr> sf_FinBit := fin, sf_Data := (case data of None \<Rightarrow> [] | Some d \<Rightarrow> d) \<rparr>;
          f = fst (AddBytesSent (st_streamID s) (of_nat (length (sf_Data frame))) (fg_manager x));
          blocked = (if RemainingConnectionWindowSize env f = 0
                     then fg_blocked x @ [\<lparr> blocked_StreamID = 0 \<rparr>]
                     else if \<not> fin \<and> sendWindowSize - StreamFrame_DataLen frame = 0
                     then fg_blocked x @ [\<lparr> blocked_StreamID = st_streamID s \<rparr>]
                     else fg_blocked x);
          currentLen = fg_currentLen x + (frameHeaderBytes + StreamFrame_DataLen frame)
      in ((currentLen \<noteq> maxBytes, None), setStream s m,
          \<lparr> fg_manager = f, fg_blocked = blocked, fg_currentLen = currentLen, fg_res = fg_res x @ [frame] \<rparr>))"

definition maybePopNormalFrames :: "fcEnv \<Rightarrow> ByteCount \<Rightarrow> streamFramer \<Rightarrow> streamsMap \<Rightarrow> flowControlManager
    \<Rightarrow> StreamFrame list \<times> streamFramer \<times> streamsMap \<times> flowControlManager" where
  "maybePopNormalFrames env maxBytes fr m f =
     (case RoundRobinIterate (popFromStream env maxBytes) m
             \<lparr> fg_manager = f, fg_blocked = sfr_blockedFrameQueue fr, fg_currentLen = 0, fg_res = [] \<rparr> of
        (m, x, _) \<Rightarrow> (fg_res x, fr\<lparr> sfr_blockedFrameQueue := fg_blocked x \<rparr>, m, fg_manager x))"

definition PopStreamFrames :: "fcEnv \<Rightarrow> ByteCount \<Rightarrow> streamFramer \<Rightarrow> streamsMap \<Rightarrow> flowControlManager
    \<Rightarrow> StreamFrame list \<times> streamFramer \<times> streamsMap \<times> flowControlManager" where
  "PopStreamFrames env maxLen fr m f =
     (let (fs, currentLen, fr, f) = maybePopFramesForRetransmission maxLen fr f;
          (fs', fr, m, f) = maybePopNormalFrames env (maxLen - currentLen) fr m f
      in (fs @ fs', fr, m, f))"

section \<open>Bytes and lengths of frames\<close>

text \<open>What a frame takes in a packet, and the bytes that it carries, each with its stream and offset.\<close>

definition frameLen :: "StreamFrame \<Rightarrow> nat" where
  "frameLen frame = unat (streamHeaderLen frame) + length (sf_Data frame)"

fun bytesFrom :: "StreamID \<Rightarrow> ByteCount \<Rightarrow> byte list \<Rightarrow> (StreamID \<times> ByteCount \<times> byte) list" where
  "bytesFrom sid offset [] = []"
| "bytesFrom sid offset (b # bs) = (sid, offset, b) # bytesFrom sid (offset + 1) bs"

definition frameBytes :: "StreamFrame \<Rightarrow> (StreamID \<times> ByteCount \<times> byte) list" where
  "frameBytes frame = bytesFrom (sf_StreamID frame) (sf_Offset frame) (sf_Data frame)"

definition allBytes :: "StreamFrame list \<Rightarrow> (StreamID \<times> ByteCount \<times> byte) list" where
  "allBytes frames = concat (map frameBytes frames)"

text \<open>The ends of streams that the frames carry.\<close>

definition allFins :: "StreamFrame list \<Rightarrow> (StreamID \<times> ByteCount) list" where
  "allFins frames = concat (map (\<lambda>frame. if sf_FinBit frame
     then [(sf_StreamID frame, sf_Offset frame + of_nat (length (sf_Data frame)))] else []) frames)"

definition framesOf :: "StreamID \<Rightarrow> StreamFrame list \<Rightarrow> StreamFrame list" where
  "framesOf sid = filter (\<lambda>frame. sf_StreamID frame = sid)"

lemma allBytes_simps [simp]:
  "allBytes [] = []" "allBytes (frame # frames) = frameBytes frame @ allBytes frames"
  "allBytes (frames @ frames') = allBytes frames @ allBytes frames'"
  by (simp_all add: allBytes_def)

lemma allFins_append [simp]: "allFins [] = []" "allFins (frames @ frames') = allFins frames @ allFins frames'"
  by (simp_all add: allFins_def)

lemma bytesFrom_append:
  "bytesFrom sid offset (xs @ ys) = bytesFrom sid offset xs @ bytesFrom sid (offset + of_nat (length xs)) ys"
  by (induction xs arbitrary: offset) (simp_all add: algebra_simps)

lemma streamHeaderLen_range:
  "unat (streamHeaderLen frame) \<ge> 2 \<and> unat (streamHeaderLen frame) \<le> 15"
proof -
  have l: "calculateStreamIDLength frame \<in> {1, 2, 3, 4}" by (simp add: calculateStreamIDLength_def)
  show ?thesis using l getOffsetLength_range [of frame]
    by (cases "sf_DataLenPresent frame")
      (auto simp: streamHeaderLen_def StreamFrame_MinLength_def Let_def)
qed

lemma streamHeaderLen_cong:
  "sf_StreamID a = sf_StreamID b \<Longrightarrow> sf_Offset a = sf_Offset b \<Longrightarrow> sf_DataLenPresent a = sf_DataLenPresent b
    \<Longrightarrow> streamHeaderLen a = streamHeaderLen b"
  by (simp add: streamHeaderLen_def StreamFrame_MinLength_def calculateStreamIDLength_def getOffsetLength_def Let_def)

text \<open>Sums of lengths that are far from the bound of the type.\<close>

lemma unat_add_small: "unat a + unat b < 2 ^ 64 \<Longrightarrow> unat (a + b) = unat a + unat (b :: 64 word)"
  by (simp add: unat_word_ariths)

lemma unat_diff_le: "unat b \<le> unat a \<Longrightarrow> unat (a - b) = unat a - unat (b :: 64 word)"
  by (simp add: unat_sub_if_size)

lemma unat_DataLen: "length (sf_Data frame) < 2 ^ 64 \<Longrightarrow> unat (StreamFrame_DataLen frame) = length (sf_Data frame)"
  by (simp add: StreamFrame_DataLen_def unat_of_nat)

section \<open>Retransmissions\<close>

lemma AddBytesRetrans_flow:
  "flow cp gh gr gw f \<Longrightarrow> flow cp gh gr gw (fst (AddBytesRetrans sid n f))"
proof -
  assume a: "flow cp gh gr gw f"
  obtain f' e where r: "AddBytesRetrans sid n f = (f', e)" by fastforce
  show ?thesis
  proof (cases e)
    case None
    then show ?thesis using flow.retrans [OF a] r by simp
  next
    case (Some err)
    then have "f' = f" using r by (auto simp: AddBytesRetrans_def onBoth_def Let_def split: sum.splits)
    then show ?thesis using a r by simp
  qed
qed

text \<open>What the loop has done when it stops, with its effect on a queue without overlong frames.\<close>

definition shortFrames :: "StreamFrame list \<Rightarrow> bool" where
  "shortFrames queue \<longleftrightarrow> (\<forall>frame \<in> set queue. length (sf_Data frame) < 2 ^ 64)"

lemma retransmissionLoop_ok:
  assumes "retransmissionLoop maxLen queue currentLen res f = (res', len', queue', f')"
    and "shortFrames queue" "unat currentLen \<le> unat maxLen" "unat maxLen < 2 ^ 63"
  shows "\<exists>new. res' = res @ new \<and> allBytes new @ allBytes queue' = allBytes queue
    \<and> allFins new @ allFins queue' = allFins queue
    \<and> unat len' = unat currentLen + sum_list (map frameLen new) \<and> unat len' \<le> unat maxLen
    \<and> (flow cp gh gr gw f \<longrightarrow> flow cp gh gr gw f') \<and> shortFrames queue'
    \<and> (\<forall>frame \<in> set new. sf_DataLenPresent frame)"
  using assms
proof (induction maxLen queue currentLen res f rule: retransmissionLoop.induct)
  case (1 maxLen currentLen res f)
  then show ?case by simp
next
  case (2 maxLen frame queue currentLen res f)
  define g where "g = frame\<lparr> sf_DataLenPresent := True \<rparr>"
  define c where "c = currentLen + streamHeaderLen g"
  have short: "length (sf_Data g) < 2 ^ 64" "shortFrames queue" using 2(3) by (auto simp: g_def shortFrames_def)
  have same: "frameBytes g = frameBytes frame" "allFins (g # queue) = allFins (frame # queue)" "sf_DataLenPresent g"
    by (simp_all add: g_def frameBytes_def allFins_def)
  have cs: "unat c = unat currentLen + unat (streamHeaderLen g)"
    unfolding c_def using 2(4,5) streamHeaderLen_range [of g] by (intro unat_add_small) simp
  have step: "(if c \<ge> maxLen then (res, currentLen, g # queue, f)
      else case maybeSplitOffFrame g (maxLen - c) of
             (Some splitFrame, frame) \<Rightarrow>
               (res @ [splitFrame], c + StreamFrame_DataLen splitFrame, frame # queue,
                fst (AddBytesRetrans (sf_StreamID splitFrame) (StreamFrame_DataLen splitFrame) f))
           | (None, frame) \<Rightarrow>
               retransmissionLoop maxLen queue (c + StreamFrame_DataLen frame) (res @ [frame])
                 (fst (AddBytesRetrans (sf_StreamID frame) (StreamFrame_DataLen frame) f))) = (res', len', queue', f')"
    using 2(2) by (simp only: retransmissionLoop.simps Let_def g_def c_def)
  consider (stop) "c \<ge> maxLen" | (split) "c < maxLen" "maxLen - c < StreamFrame_DataLen g"
    | (whole) "c < maxLen" "maxLen - c \<ge> StreamFrame_DataLen g" by fastforce
  then show ?case
  proof cases
    case stop
    then have "res' = res" "len' = currentLen" "queue' = g # queue" "f' = f"
      using step by simp_all
    then show ?thesis using same short 2(4) by (intro exI [of _ "[]"]) (auto simp: shortFrames_def)
  next
    case split
    define n where "n = maxLen - c"
    have n: "unat n = unat maxLen - unat c" "unat n < length (sf_Data g)"
      using split by (simp_all add: n_def unat_diff_le word_less_nat_alt word_le_nat_alt unat_DataLen [OF short(1)])
    define h where "h = \<lparr> sf_StreamID = sf_StreamID g, sf_FinBit = False, sf_DataLenPresent = sf_DataLenPresent g,
      sf_Offset = sf_Offset g, sf_Data = take (unat n) (sf_Data g) \<rparr>"
    define k where "k = g\<lparr> sf_Data := drop (unat n) (sf_Data g), sf_Offset := sf_Offset g + n \<rparr>"
    have m: "maybeSplitOffFrame g (maxLen - c) = (Some h, k)"
      using split by (simp add: maybeSplitOffFrame_def h_def k_def n_def)
    have nc: "\<not> maxLen \<le> c" using split by simp
    have r: "res' = res @ [h]" "len' = c + StreamFrame_DataLen h" "queue' = k # queue"
      "f' = fst (AddBytesRetrans (sf_StreamID h) (StreamFrame_DataLen h) f)"
      using step unfolding m by (simp_all add: nc)
    have hl: "length (sf_Data h) = unat n" using n(2) by (simp add: h_def)
    have fb: "frameBytes h @ frameBytes k = frameBytes g"
      using bytesFrom_append [of "sf_StreamID g" "sf_Offset g" "take (unat n) (sf_Data g)" "drop (unat n) (sf_Data g)"] n(2)
      by (simp add: frameBytes_def h_def k_def)
    have ff: "allFins [h] @ allFins (k # queue) = allFins (g # queue)"
      using n(2) by (simp add: allFins_def h_def k_def of_nat_diff)
    have hd: "streamHeaderLen h = streamHeaderLen g" by (rule streamHeaderLen_cong) (simp_all add: h_def)
    have dl: "unat (StreamFrame_DataLen h) = unat n" using hl n(2) short(1) by (simp add: unat_DataLen)
    have len: "unat len' = unat c + unat n"
      unfolding r(2) dl [symmetric] using dl n(1) split 2(5) by (intro unat_add_small) (simp add: word_less_nat_alt)
    have le: "unat len' = unat currentLen + sum_list (map frameLen [h])" "unat len' \<le> unat maxLen"
      using len cs hl hd n(1) split by (simp_all add: frameLen_def word_less_nat_alt)
    show ?thesis
      by (rule exI [of _ "[h]"]) (use r fb ff le same n short in
        \<open>auto simp: AddBytesRetrans_flow shortFrames_def h_def k_def simp flip: append_assoc\<close>)
  next
    case whole
    then have m: "maybeSplitOffFrame g (maxLen - c) = (None, g)" by (simp add: maybeSplitOffFrame_def)
    have nc: "\<not> maxLen \<le> c" using whole(1) by simp
    define c' where "c' = c + StreamFrame_DataLen g"
    have dl: "unat (StreamFrame_DataLen g) = length (sf_Data g)" by (rule unat_DataLen [OF short(1)])
    have le: "unat c + length (sf_Data g) \<le> unat maxLen"
      using whole dl by (simp add: unat_diff_le word_less_nat_alt word_le_nat_alt)
    then have c': "unat c' = unat c + length (sf_Data g)"
      unfolding c'_def dl [symmetric] using 2(5) by (intro unat_add_small) (simp add: dl)
    have r: "retransmissionLoop maxLen queue c' (res @ [g])
        (fst (AddBytesRetrans (sf_StreamID g) (StreamFrame_DataLen g) f)) = (res', len', queue', f')"
      using step unfolding m by (simp add: c'_def nc)
    have "\<exists>new. res' = (res @ [g]) @ new \<and> allBytes new @ allBytes queue' = allBytes queue
      \<and> allFins new @ allFins queue' = allFins queue
      \<and> unat len' = unat c' + sum_list (map frameLen new) \<and> unat len' \<le> unat maxLen
      \<and> (flow cp gh gr gw (fst (AddBytesRetrans (sf_StreamID g) (StreamFrame_DataLen g) f)) \<longrightarrow> flow cp gh gr gw f')
      \<and> shortFrames queue' \<and> (\<forall>frame \<in> set new. sf_DataLenPresent frame)"
      using 2(1) [OF g_def refl nc [unfolded c_def] c_def m [symmetric] refl, folded c'_def, OF r short(2) _ 2(5)] c' le
      by simp
    then obtain new where new: "res' = (res @ [g]) @ new" "allBytes new @ allBytes queue' = allBytes queue"
      "allFins new @ allFins queue' = allFins queue" "unat len' = unat c' + sum_list (map frameLen new)"
      "unat len' \<le> unat maxLen" "shortFrames queue'" "\<forall>frame \<in> set new. sf_DataLenPresent frame"
      "flow cp gh gr gw (fst (AddBytesRetrans (sf_StreamID g) (StreamFrame_DataLen g) f)) \<longrightarrow> flow cp gh gr gw f'"
      by blast
    have "allFins (g # new) @ allFins queue' = allFins (frame # queue)"
      using new(3) same(2) by (simp add: allFins_def)
    then show ?thesis
      by (intro exI [of _ "g # new"])
        (use new same c' cs frameLen_def [of g] in \<open>auto simp: AddBytesRetrans_flow\<close>)
  qed
qed

section \<open>A function that is called for the streams in turn\<close>

text \<open>
  What a function keeps of every stream that it is called for, \<open>RoundRobinIterate\<close> keeps: \<open>P\<close> relates
  the map of streams to the variables of the function and does not depend on the position of the
  round.
\<close>

locale round_robin_client =
  fixes fn :: "stream \<Rightarrow> streamsMap \<Rightarrow> 'x \<Rightarrow> (bool \<times> go_error option) \<times> streamsMap \<times> 'x"
    and P :: "streamsMap \<Rightarrow> 'x \<Rightarrow> bool"
  assumes call: "P m x \<Longrightarrow> map_of (sm_streams m) sid = Some s \<Longrightarrow> fn s m x = (r, m', x') \<Longrightarrow> P m' x'"
    and position: "P m x \<Longrightarrow> P (m\<lparr> sm_roundRobinIndex := i \<rparr>) x"
begin

lemma iterateFunc_keeps: "P m x \<Longrightarrow> iterateFunc sid fn m x = (r, m', x') \<Longrightarrow> P m' x'"
  by (auto simp: iterateFunc_def intro: call split: option.splits)

lemma priorityLoop_keeps:
  assumes "fn' = fn" "P m x" "priorityLoop fn' sids m x = (m', x', r)"
  shows "P m' x'"
  using assms
proof (induction fn' sids m x rule: priorityLoop.induct)
  case (2 fn' sid sids m x)
  obtain cont err m1 x1 where c: "iterateFunc sid fn m x = ((cont, err), m1, x1)" by (metis prod.exhaust)
  have "P m1 x1" by (rule iterateFunc_keeps [OF 2(3) c])
  then show ?case using 2 c by (auto split: if_splits)
qed simp

lemma roundRobinLoop_keeps:
  assumes "fn' = fn" "P m x" "roundRobinLoop fn' n start is m x = (m', x', r)"
  shows "P m' x'"
  using assms
proof (induction fn' n start "is" m x rule: roundRobinLoop.induct)
  case (2 fn' n start i "is" m x)
  let ?k = "unat ((i + start) mod n)"
  consider (panic) "\<not> ?k < length (sm_openStreams m)"
    | (skip) "?k < length (sm_openStreams m)" "sm_openStreams m ! ?k = 1 \<or> sm_openStreams m ! ?k = 3"
    | (visit) "?k < length (sm_openStreams m)" "\<not> (sm_openStreams m ! ?k = 1 \<or> sm_openStreams m ! ?k = 3)" by blast
  then show ?case
  proof cases
    case panic
    then show ?thesis using 2 by (simp add: Let_def)
  next
    case skip
    then show ?thesis using 2(1,4,5) 2(3) by (simp add: Let_def)
  next
    case visit
    obtain cont err m1 x1 where c: "iterateFunc (sm_openStreams m ! ?k) fn m x = ((cont, err), m1, x1)"
      by (metis prod.exhaust)
    have k: "P m1 x1" by (rule iterateFunc_keeps [OF 2(4) c])
    show ?thesis
    proof (cases err)
      case None
      then show ?thesis using 2(2) [OF refl _ refl] visit 2(3,5) c position [OF k]
        by (auto simp: Let_def split: if_splits)
    next
      case (Some e)
      then show ?thesis using visit 2(3,5) c k by (auto simp: Let_def)
    qed
  qed
qed simp

theorem RoundRobinIterate_keeps:
  assumes "P m x" "RoundRobinIterate fn m x = (m', x', r)"
  shows "P m' x'"
proof -
  obtain m1 x1 e where c: "priorityLoop fn [1, 3] m x = (m1, x1, e)" by (metis prod.exhaust)
  have k: "P m1 x1" by (rule priorityLoop_keeps [OF refl assms(1) c])
  show ?thesis
  proof (cases e)
    case None
    then show ?thesis using roundRobinLoop_keeps [OF refl k] assms(2) c by (simp add: RoundRobinIterate_def Let_def)
  next
    case (Some e)
    then show ?thesis using k assms(2) c by (simp add: RoundRobinIterate_def Let_def)
  qed
qed

end

section \<open>New data\<close>

text \<open>Sending at most what the window allows keeps the states of the manager; no window is no data.\<close>

lemma AddBytesSent_flow:
  assumes "flow cp gh gr gw f" "env_connectionParameters env = cp" "n \<noteq> 0 \<Longrightarrow> n \<le> sendWindowFor env sid f"
  shows "flow cp gh gr gw (fst (AddBytesSent sid n f))"
proof (cases "getFlowController sid f")
  case (Inl e)
  then show ?thesis using assms(1) by (simp add: AddBytesSent_def onBoth_def)
next
  case (Inr c)
  obtain w where w: "fcm_SendWindowSize env sid f = Inr w" using Inr by (simp add: fcm_SendWindowSize_def Let_def)
  have "snd (AddBytesSent sid n f) = None" using Inr by (simp add: AddBytesSent_def onBoth_def Let_def)
  then have "AddBytesSent sid n f = (fst (AddBytesSent sid n f), None)" by (metis prod.collapse)
  moreover have "n \<le> w" using assms(3) w by (cases "n = 0") (auto simp: sendWindowFor_def)
  ultimately show ?thesis using flow.sent [OF assms(1) Inr assms(2) w] by blast
qed

text \<open>The data that a stream gives away.\<close>

lemma getDataForWriting_data:
  assumes "getDataForWriting n s = (data, s')" "length (pendingData s) < 2 ^ 64"
  shows "(data = None \<and> s' = s) \<or> (\<exists>d. data = Some d \<and> pendingData s = d @ pendingData s' \<and> length d \<le> unat n
    \<and> st_writeOffset s' = st_writeOffset s + of_nat (length d) \<and> st_streamID s' = st_streamID s
    \<and> st_finSent s' = st_finSent s \<and> st_finishedWriting s' = st_finishedWriting s \<and> st_err s' = st_err s)"
  using assms
  by (auto simp: getDataForWriting_def pendingData_def signalWrite_def Let_def word_less_nat_alt unat_of_nat not_less
      split: if_splits option.splits)

text \<open>
  What the frame \<open>frame\<close> of the stream \<open>s\<close>, which is \<open>s'\<close> afterwards, carries: the data at the write
  offset, within the room and the window, and the FIN after the last byte only.
\<close>

definition frameTaken :: "fcEnv \<Rightarrow> ByteCount \<Rightarrow> framing \<Rightarrow> stream \<Rightarrow> StreamFrame \<Rightarrow> stream \<Rightarrow> bool" where
  "frameTaken env maxBytes x s frame s' \<longleftrightarrow>
     sf_StreamID frame = st_streamID s \<and> st_streamID s \<noteq> 1 \<and> sf_DataLenPresent frame
     \<and> sf_Offset frame = st_writeOffset s \<and> pendingData s = sf_Data frame @ pendingData s'
     \<and> unat (fg_currentLen x) + frameLen frame \<le> unat maxBytes
     \<and> (sf_Data frame \<noteq> [] \<longrightarrow> of_nat (length (sf_Data frame)) \<le> sendWindowFor env (st_streamID s) (fg_manager x))
     \<and> st_streamID s' = st_streamID s \<and> st_writeOffset s' = st_writeOffset s + of_nat (length (sf_Data frame))
     \<and> st_finSent s' = (st_finSent s \<or> sf_FinBit frame) \<and> st_finishedWriting s' = st_finishedWriting s
     \<and> (sf_FinBit frame \<longrightarrow> st_finishedWriting s \<and> \<not> st_finSent s \<and> pendingData s' = [])"

lemma popFromStream_cases:
  assumes "popFromStream env maxBytes s m x = (r, m', x')" "length (pendingData s) < 2 ^ 64"
    and "unat maxBytes < 2 ^ 63" "unat (fg_currentLen x) \<le> unat maxBytes"
  shows "x' = x \<and> (m' = m \<or> m' = setStream s m)
    \<or> (\<exists>frame s'. frameTaken env maxBytes x s frame s' \<and> m' = setStream s' m \<and> fg_res x' = fg_res x @ [frame]
        \<and> unat (fg_currentLen x') = unat (fg_currentLen x) + frameLen frame
        \<and> fg_manager x' = fst (AddBytesSent (st_streamID s) (of_nat (length (sf_Data frame))) (fg_manager x)))"
proof -
  define hdr where "hdr = streamHeaderLen (frameForStream s)"
  define lsd where "lsd = lenOfDataForWriting s"
  define win where "win = (if lsd \<noteq> 0 then sendWindowFor env (st_streamID s) (fg_manager x) else 0)"
  define room where "room = maxBytes - fg_currentLen x - hdr"
  define ml where "ml = (if lsd \<noteq> 0 then MinByteCount room win else room)"
  obtain data s1 where d: "(if lsd \<noteq> 0 then getDataForWriting ml s else (None, s)) = (data, s1)" by fastforce
  define fin where "fin = shouldSendFin s1"
  define s2 where "s2 = (if fin then sentFin s1 else s1)"
  define frame where "frame = (frameForStream s)\<lparr> sf_FinBit := fin, sf_Data := (case data of None \<Rightarrow> [] | Some d \<Rightarrow> d) \<rparr>"
  define blocked where "blocked = (\<lambda>f. if RemainingConnectionWindowSize env f = 0 then fg_blocked x @ [\<lparr> blocked_StreamID = 0 \<rparr>]
      else if \<not> fin \<and> win - StreamFrame_DataLen frame = 0 then fg_blocked x @ [\<lparr> blocked_StreamID = st_streamID s2 \<rparr>]
      else fg_blocked x)"
  define f' where "f' = fst (AddBytesSent (st_streamID s2) (of_nat (length (sf_Data frame))) (fg_manager x))"
  define len' where "len' = fg_currentLen x + (hdr + StreamFrame_DataLen frame)"
  have step: "popFromStream env maxBytes s m x =
    (if st_streamID s = 1 then ((True, None), m, x) else if maxBytes < fg_currentLen x + hdr then ((False, None), m, x)
     else if ml = 0 then ((True, None), m, x) else if data = None \<and> \<not> fin then ((True, None), setStream s1 m, x)
     else ((len' \<noteq> maxBytes, None), setStream s2 m,
       \<lparr> fg_manager = f', fg_blocked = blocked f', fg_currentLen = len', fg_res = fg_res x @ [frame] \<rparr>))"
    unfolding popFromStream_def Let_def hdr_def [symmetric] lsd_def [symmetric] win_def [symmetric]
      room_def [symmetric] ml_def [symmetric] d prod.case fin_def [symmetric] s2_def [symmetric] frame_def [symmetric]
      f'_def [symmetric] len'_def [symmetric] blocked_def by (rule refl)
  have hl: "unat hdr \<le> 15" using streamHeaderLen_range by (simp add: hdr_def)
  have hc: "unat (fg_currentLen x + hdr) = unat (fg_currentLen x) + unat hdr"
    using hl assms(3,4) by (intro unat_add_small) simp
  consider (stop) "st_streamID s = 1 \<or> fg_currentLen x + hdr > maxBytes \<or> ml = 0"
    | (none) "st_streamID s \<noteq> 1" "\<not> fg_currentLen x + hdr > maxBytes" "ml \<noteq> 0" "data = None \<and> \<not> fin"
    | (some) "st_streamID s \<noteq> 1" "\<not> fg_currentLen x + hdr > maxBytes" "ml \<noteq> 0" "\<not> (data = None \<and> \<not> fin)" by blast
  then show ?thesis
  proof cases
    case stop
    then have "x' = x \<and> m' = m" using assms(1) unfolding step by (auto split: if_splits)
    then show ?thesis by blast
  next
    case none
    then have "x' = x \<and> m' = setStream s1 m" using assms(1) unfolding step by simp
    moreover have "s1 = s" using d none(4) getDataForWriting_data [OF _ assms(2)] by (auto split: if_splits)
    ultimately show ?thesis by blast
  next
    case some
    have e: "m' = setStream s2 m" "x' = \<lparr> fg_manager = f', fg_blocked = blocked f', fg_currentLen = len', fg_res = fg_res x @ [frame] \<rparr>"
      using assms(1) some unfolding step by auto
    have room: "unat room = unat maxBytes - unat (fg_currentLen x) - unat hdr"
      "unat (fg_currentLen x) + unat hdr \<le> unat maxBytes"
      using some(2) hc assms(4) by (simp_all add: room_def unat_diff_le word_less_nat_alt)
    have ml: "unat ml \<le> unat room" "lsd \<noteq> 0 \<Longrightarrow> ml \<le> sendWindowFor env (st_streamID s) (fg_manager x)"
      by (auto simp: ml_def win_def MinByteCount_def simp flip: word_le_nat_alt)
    have taken: "pendingData s = sf_Data frame @ pendingData s1 \<and> length (sf_Data frame) \<le> unat ml
      \<and> (sf_Data frame \<noteq> [] \<longrightarrow> lsd \<noteq> 0)
      \<and> st_writeOffset s1 = st_writeOffset s + of_nat (length (sf_Data frame)) \<and> st_streamID s1 = st_streamID s
      \<and> st_finSent s1 = st_finSent s \<and> st_finishedWriting s1 = st_finishedWriting s"
    proof (cases "lsd = 0")
      case True
      then show ?thesis using d by (auto simp: frame_def)
    next
      case False
      then have "getDataForWriting ml s = (data, s1)" using d by simp
      from getDataForWriting_data [OF this assms(2)] show ?thesis using False by (auto simp: frame_def)
    qed
    have fl: "frameLen frame = unat hdr + length (sf_Data frame)"
      unfolding frameLen_def hdr_def using streamHeaderLen_cong [of frame "frameForStream s"] by (simp add: frame_def)
    have le: "unat (fg_currentLen x) + frameLen frame \<le> unat maxBytes" using taken ml(1) room fl by linarith
    have dl: "length (sf_Data frame) < 2 ^ 64" "unat (StreamFrame_DataLen frame) = length (sf_Data frame)"
      using le assms(3) fl unat_DataLen [of frame] by simp_all
    have hd: "unat (hdr + StreamFrame_DataLen frame) = frameLen frame"
      unfolding fl dl(2) [symmetric] using le fl dl(2) assms(3) by (intro unat_add_small) simp
    have len: "unat len' = unat (fg_currentLen x) + frameLen frame"
      unfolding len'_def hd [symmetric] using le hd assms(3) by (intro unat_add_small) simp
    have win: "sf_Data frame \<noteq> [] \<longrightarrow> of_nat (length (sf_Data frame)) \<le> sendWindowFor env (st_streamID s) (fg_manager x)"
      using taken ml(2) dl(1) by (auto simp: word_le_nat_alt unat_of_nat intro: order_trans)
    have fin: "fin \<longrightarrow> st_finishedWriting s \<and> \<not> st_finSent s \<and> pendingData s1 = []"
      using taken by (auto simp: fin_def shouldSendFin_def pendingData_def)
    have same: "pendingData s2 = pendingData s1" "st_writeOffset s2 = st_writeOffset s1" "st_streamID s2 = st_streamID s1"
      "st_finSent s2 = (st_finSent s1 \<or> fin)" "st_finishedWriting s2 = st_finishedWriting s1"
      by (simp_all add: s2_def sentFin_def pendingData_def)
    have fr: "sf_StreamID frame = st_streamID s" "sf_DataLenPresent frame" "sf_Offset frame = st_writeOffset s" "sf_FinBit frame = fin"
      by (simp_all add: frame_def frameForStream_def)
    have "frameTaken env maxBytes x s frame s2"
      unfolding frameTaken_def same fr using taken le win fin some(1) fr(2) by simp
    then show ?thesis using e len taken same(3) by (intro disjI2 exI [of _ frame] exI [of _ s2]) (simp add: f'_def)
  qed
qed

text \<open>
  The state of the round: \<open>m0\<close> are the streams at the beginning. What the frames carry of a stream
  and what the stream still holds make up what it held; the frames fit; the flow control manager
  is in a state that sending within the windows leads to.
\<close>

definition framedStream :: "StreamFrame list \<Rightarrow> stream \<Rightarrow> stream \<Rightarrow> bool" where
  "framedStream frames s0 s \<longleftrightarrow>
     allBytes (framesOf (st_streamID s0) frames) @ bytesFrom (st_streamID s0) (st_writeOffset s) (pendingData s)
       = bytesFrom (st_streamID s0) (st_writeOffset s0) (pendingData s0)
     \<and> allFins (framesOf (st_streamID s0) frames)
       = (if st_finSent s \<and> \<not> st_finSent s0 then [(st_streamID s0, st_writeOffset s)] else [])
     \<and> (st_finSent s0 \<longrightarrow> st_finSent s)
     \<and> (st_finSent s \<and> \<not> st_finSent s0 \<longrightarrow> st_finishedWriting s0 \<and> pendingData s = [])"

definition streamFramed :: "StreamFrame list \<Rightarrow> stream \<Rightarrow> stream \<Rightarrow> bool" where
  "streamFramed frames s0 s \<longleftrightarrow>
     framedStream frames s0 s \<and> st_streamID s = st_streamID s0 \<and> st_finishedWriting s = st_finishedWriting s0
     \<and> length (pendingData s) < 2 ^ 64"

definition framingInv :: "ByteCount \<Rightarrow> connectionParametersManager \<Rightarrow> (nat \<times> nat \<times> nat) option \<Rightarrow> streamsMap
    \<Rightarrow> streamsMap \<Rightarrow> framing \<Rightarrow> bool" where
  "framingInv maxBytes cp counts m0 m x \<longleftrightarrow>
     unat maxBytes < 2 ^ 63
     \<and> (\<forall>sid. rel_option (streamFramed (fg_res x)) (map_of (sm_streams m0) sid) (map_of (sm_streams m) sid))
     \<and> (\<forall>sid s. map_of (sm_streams m0) sid = Some s \<longrightarrow> st_streamID s = sid)
     \<and> unat (fg_currentLen x) = sum_list (map frameLen (fg_res x)) \<and> unat (fg_currentLen x) \<le> unat maxBytes
     \<and> (\<forall>frame \<in> set (fg_res x). sf_DataLenPresent frame \<and> sf_StreamID frame \<noteq> 1
          \<and> map_of (sm_streams m0) (sf_StreamID frame) \<noteq> None)
     \<and> (case counts of None \<Rightarrow> True | Some (gh, gr, gw) \<Rightarrow> flow cp gh gr gw (fg_manager x))"

lemma streamFramed_append:
  assumes "streamFramed frames s0 s" "frameTaken env maxBytes x s frame s'"
  shows "streamFramed (frames @ [frame]) s0 s'"
proof -
  have "bytesFrom (st_streamID s0) (st_writeOffset s) (pendingData s)
      = frameBytes frame @ bytesFrom (st_streamID s0) (st_writeOffset s') (pendingData s')"
    using assms by (simp add: frameTaken_def streamFramed_def frameBytes_def bytesFrom_append)
  then show ?thesis
    using assms by (auto simp: streamFramed_def framedStream_def frameTaken_def framesOf_def allFins_def)
qed

lemma streamFramed_other:
  "st_streamID s0 \<noteq> sf_StreamID frame \<Longrightarrow> streamFramed (frames @ [frame]) s0 s = streamFramed frames s0 s"
  by (simp add: streamFramed_def framedStream_def framesOf_def)

lemma framingInv_call:
  assumes inv: "framingInv maxBytes cp counts m0 m x" and env: "env_connectionParameters env = cp"
    and s: "map_of (sm_streams m) sid = Some s" and call: "popFromStream env maxBytes s m x = (r, m', x')"
  shows "framingInv maxBytes cp counts m0 m' x'"
proof -
  have sm: "unat maxBytes < 2 ^ 63" "unat (fg_currentLen x) \<le> unat maxBytes"
    and rel: "\<And>sid. rel_option (streamFramed (fg_res x)) (map_of (sm_streams m0) sid) (map_of (sm_streams m) sid)"
    and keys: "\<And>sid s. map_of (sm_streams m0) sid = Some s \<Longrightarrow> st_streamID s = sid"
    using inv by (auto simp: framingInv_def)
  obtain s0 where s0: "map_of (sm_streams m0) sid = Some s0" "streamFramed (fg_res x) s0 s"
    using rel [of sid] s by (auto simp: option_rel_Some2)
  have sid: "st_streamID s = sid" "length (pendingData s) < 2 ^ 64" using s0 keys by (auto simp: streamFramed_def)
  consider (same) "x' = x" "m' = m \<or> m' = setStream s m"
    | (frame) frame s' where "frameTaken env maxBytes x s frame s'" "m' = setStream s' m" "fg_res x' = fg_res x @ [frame]"
        "unat (fg_currentLen x') = unat (fg_currentLen x) + frameLen frame"
        "fg_manager x' = fst (AddBytesSent (st_streamID s) (of_nat (length (sf_Data frame))) (fg_manager x))"
    using popFromStream_cases [OF call sid(2) sm] by blast
  then show ?thesis
  proof cases
    case same
    have "map_of (sm_streams (setStream s m)) = map_of (sm_streams m)"
      using s sid by (auto simp: setStream_def update_conv' fun_eq_iff)
    then have "map_of (sm_streams m') = map_of (sm_streams m)" using same(2) by auto
    then show ?thesis using inv same(1) by (simp add: framingInv_def)
  next
    case frame
    have t: "st_streamID s' = sid" "sf_StreamID frame = sid" "sid \<noteq> 1" "sf_DataLenPresent frame"
      using frame(1) sid by (auto simp: frameTaken_def)
    have mp: "map_of (sm_streams m') = (map_of (sm_streams m))(sid \<mapsto> s')"
      using t frame(2) by (simp add: setStream_def update_conv')
    have rel': "rel_option (streamFramed (fg_res x')) (map_of (sm_streams m0) k) (map_of (sm_streams m') k)" for k
    proof (cases "k = sid")
      case True
      then show ?thesis using s0 streamFramed_append [OF s0(2) frame(1)] frame(3) mp by simp
    next
      case False
      then show ?thesis using rel [of k] mp frame(3) t keys [of k]
        by (cases "map_of (sm_streams m0) k") (auto simp: option_rel_Some1 streamFramed_other)
    qed
    have fl: "flow cp gh gr gw (fg_manager x) \<Longrightarrow> flow cp gh gr gw (fg_manager x')" for gh gr gw
      unfolding frame(5) by (rule AddBytesSent_flow [OF _ env]) (use frame(1) in \<open>auto simp: frameTaken_def\<close>)
    have "unat (fg_currentLen x') \<le> unat maxBytes" using frame(1,4) by (simp add: frameTaken_def)
    then show ?thesis unfolding framingInv_def using inv rel' fl t s0 frame(3,4) 
      by (auto simp: framingInv_def split: option.splits)
  qed
qed

interpretation framer: round_robin_client "popFromStream env maxBytes" "framingInv maxBytes (env_connectionParameters env) counts m0"
  for env maxBytes counts m0
  by unfold_locales (fact framingInv_call [OF _ refl], simp add: framingInv_def)

text \<open>The streams are stored under their identifiers, with data of a length that fits into 64 bits.\<close>

definition streamsOk :: "streamsMap \<Rightarrow> bool" where
  "streamsOk m \<longleftrightarrow> (\<forall>(sid, s) \<in> set (sm_streams m). st_streamID s = sid \<and> length (pendingData s) < 2 ^ 64)"

lemma maybePopNormalFrames_ok:
  assumes "maybePopNormalFrames env maxBytes fr m f = (frames, fr', m', f')" "streamsOk m" "unat maxBytes < 2 ^ 63"
    and "case counts of None \<Rightarrow> True | Some (gh, gr, gw) \<Rightarrow> flow (env_connectionParameters env) gh gr gw f"
  shows "\<exists>x. framingInv maxBytes (env_connectionParameters env) counts m m' x \<and> frames = fg_res x \<and> f' = fg_manager x
    \<and> fr' = fr\<lparr> sfr_blockedFrameQueue := fg_blocked x \<rparr>"
proof -
  let ?x = "\<lparr> fg_manager = f, fg_blocked = sfr_blockedFrameQueue fr, fg_currentLen = 0, fg_res = [] \<rparr>"
  have ok: "st_streamID s = sid \<and> length (pendingData s) < 2 ^ 64" if "map_of (sm_streams m) sid = Some s" for sid s
    using assms(2) map_of_SomeD [OF that] by (auto simp: streamsOk_def)
  have "streamFramed [] s s" if "length (pendingData s) < 2 ^ 64" for s
    using that by (simp add: streamFramed_def framedStream_def framesOf_def)
  then have "rel_option (streamFramed []) (map_of (sm_streams m) sid) (map_of (sm_streams m) sid)" for sid
    using ok by (cases "map_of (sm_streams m) sid") auto
  then have i: "framingInv maxBytes (env_connectionParameters env) counts m m ?x"
    using assms(3,4) ok by (auto simp: framingInv_def split: option.splits)
  obtain m1 x e where r: "RoundRobinIterate (popFromStream env maxBytes) m ?x = (m1, x, e)" by (metis prod.exhaust)
  show ?thesis using framer.RoundRobinIterate_keeps [OF i r] assms(1) r by (auto simp: maybePopNormalFrames_def)
qed

lemma PopStreamFrames_ok:
  assumes "PopStreamFrames env maxLen fr m f = (frames, fr', m', f')" "streamsOk m" "shortFrames (sfr_retransmissionQueue fr)"
    and "unat maxLen < 2 ^ 63"
    and "case counts of None \<Rightarrow> True | Some (gh, gr, gw) \<Rightarrow> flow (env_connectionParameters env) gh gr gw f"
  shows "\<exists>old x n. frames = old @ fg_res x \<and> framingInv n (env_connectionParameters env) counts m m' x
    \<and> f' = fg_manager x \<and> sum_list (map frameLen old) + unat n = unat maxLen
    \<and> allBytes old @ allBytes (sfr_retransmissionQueue fr') = allBytes (sfr_retransmissionQueue fr)
    \<and> allFins old @ allFins (sfr_retransmissionQueue fr') = allFins (sfr_retransmissionQueue fr)
    \<and> (\<forall>frame \<in> set old. sf_DataLenPresent frame)"
proof -
  obtain old len queue f1 where l: "retransmissionLoop maxLen (sfr_retransmissionQueue fr) 0 [] f = (old, len, queue, f1)"
    by (metis prod.exhaust)
  let ?fr = "fr\<lparr> sfr_retransmissionQueue := queue \<rparr>"
  obtain new fr2 m2 f2 where n: "maybePopNormalFrames env (maxLen - len) ?fr m f1 = (new, fr2, m2, f2)"
    by (metis prod.exhaust)
  have eq: "frames = old @ new" "fr' = fr2" "m' = m2" "f' = f2"
    using assms(1) l n by (simp_all add: PopStreamFrames_def maybePopFramesForRetransmission_def)
  have "unat (0 :: ByteCount) \<le> unat maxLen" by simp
  note r = retransmissionLoop_ok [OF l assms(3) this assms(4), where cp = "env_connectionParameters env"]
  have o: "allBytes old @ allBytes queue = allBytes (sfr_retransmissionQueue fr)"
    "allFins old @ allFins queue = allFins (sfr_retransmissionQueue fr)"
    "unat len = sum_list (map frameLen old)" "unat len \<le> unat maxLen" "\<forall>frame \<in> set old. sf_DataLenPresent frame"
    using r [of 0 0 0] by simp_all
  have o6: "flow (env_connectionParameters env) gh gr gw f \<Longrightarrow> flow (env_connectionParameters env) gh gr gw f1"
    for gh gr gw using r [of gh gr gw] by simp
  have sub: "unat (maxLen - len) = unat maxLen - unat len" using o(4) by (rule unat_diff_le)
  have small: "unat (maxLen - len) < 2 ^ 63" using sub assms(4) by simp
  have cs: "case counts of None \<Rightarrow> True | Some (gh, gr, gw) \<Rightarrow> flow (env_connectionParameters env) gh gr gw f1"
    using assms(5) o6 by (auto split: option.splits)
  obtain x where x: "framingInv (maxLen - len) (env_connectionParameters env) counts m m2 x" "new = fg_res x" "f2 = fg_manager x"
    "fr2 = ?fr\<lparr> sfr_blockedFrameQueue := fg_blocked x \<rparr>"
    using maybePopNormalFrames_ok [OF n assms(2) small cs] by blast
  show ?thesis
    by (rule exI [of _ old], rule exI [of _ x], rule exI [of _ "maxLen - len"])
      (use eq o x sub in simp)
qed

section \<open>Properties\<close>

text \<open>
  C38. The framer loses, repeats and reorders nothing. What \<open>PopStreamFrames\<close> returns is first
  retransmissions and then new data. The bytes and FINs of the retransmissions, with their
  positions, followed by those that are left in the queue are those of the queue before, although
  a frame may be split. For every stream, the bytes of its new frames followed by the bytes that
  still wait are the bytes that waited before, at the same positions. A FIN is sent once, after
  the last byte, when the stream is closed for writing. New frames belong to open streams, and
  never to the crypto stream.
\<close>

theorem PopStreamFrames_conserves:
  assumes "PopStreamFrames env maxLen fr m f = (frames, fr', m', f')"
    and "streamsOk m" "shortFrames (sfr_retransmissionQueue fr)" "unat maxLen < 2 ^ 63"
  shows "\<exists>old new. frames = old @ new
    \<and> allBytes old @ allBytes (sfr_retransmissionQueue fr') = allBytes (sfr_retransmissionQueue fr)
    \<and> allFins old @ allFins (sfr_retransmissionQueue fr') = allFins (sfr_retransmissionQueue fr)
    \<and> (\<forall>sid. rel_option (framedStream new) (map_of (sm_streams m) sid) (map_of (sm_streams m') sid))
    \<and> (\<forall>frame \<in> set new. sf_StreamID frame \<noteq> 1 \<and> map_of (sm_streams m) (sf_StreamID frame) \<noteq> None)"
proof -
  obtain old x n where o: "frames = old @ fg_res x" "framingInv n (env_connectionParameters env) None m m' x"
    "allBytes old @ allBytes (sfr_retransmissionQueue fr') = allBytes (sfr_retransmissionQueue fr)"
    "allFins old @ allFins (sfr_retransmissionQueue fr') = allFins (sfr_retransmissionQueue fr)"
    using PopStreamFrames_ok [OF assms, of None] by auto
  have "rel_option (framedStream (fg_res x)) (map_of (sm_streams m) sid) (map_of (sm_streams m') sid)" for sid
    by (rule option.rel_mono_strong [of "streamFramed (fg_res x)"]) (use o(2) in \<open>auto simp: framingInv_def streamFramed_def\<close>)
  then show ?thesis using o by (intro exI [of _ old] exI [of _ "fg_res x"]) (auto simp: framingInv_def)
qed


section \<open>Examples\<close>

text \<open>A stream with three bytes to send, and a retransmission of six bytes that does not fit.\<close>

definition exWriting :: streamsMap where
  "exWriting = setStream ((newStream 5)\<lparr> st_dataForWriting := Some [1, 2, 3], st_finishedWriting := True \<rparr>) exMap1"

definition exFramer :: streamFramer where
  "exFramer = AddFrameForRetransmission \<lparr> sf_StreamID = 5, sf_FinBit = True, sf_DataLenPresent = False,
     sf_Offset = 7, sf_Data = [1, 2, 3, 4, 5, 6] \<rparr> newStreamFramer"

lemma exWriting_streams:
  "map (\<lambda>(sid, s). (sid, st_streamID s, pendingData s)) (sm_streams exWriting) = [(1, 1, []), (3, 3, []), (5, 5, [1, 2, 3])]"
  by code_simp

lemma exFramer_ok: "streamsOk exWriting" "shortFrames (sfr_retransmissionQueue exFramer)"
proof -
  have "\<forall>(sid, sid', d) \<in> set (map (\<lambda>(sid, s). (sid, st_streamID s, pendingData s)) (sm_streams exWriting)).
      sid' = sid \<and> length d < 2 ^ 64"
    unfolding exWriting_streams by simp
  then show "streamsOk exWriting" by (auto simp: streamsOk_def)
  show "shortFrames (sfr_retransmissionQueue exFramer)"
    by (simp add: shortFrames_def exFramer_def AddFrameForRetransmission_def newStreamFramer_def)
qed

lemma exFramer_split:
  "map (\<lambda>frame. (sf_Data frame, sf_FinBit frame)) (fst (PopStreamFrames exEnv 10 exFramer exWriting exOpened)) = [([1, 2, 3, 4], False)]"
  by code_simp

lemma exFramer_all:
  "map (\<lambda>frame. (sf_Data frame, sf_FinBit frame)) (fst (PopStreamFrames exEnv 100 exFramer exWriting exOpened))
    = [([1, 2, 3, 4, 5, 6], True), ([1, 2, 3], True)]"
  by code_simp

theorem PopStreamFrames_conserves_witness:
  "\<exists>old new frames fr' m' f'. PopStreamFrames exEnv 10 exFramer exWriting exOpened = (frames, fr', m', f')
    \<and> frames = old @ new \<and> map sf_Data frames = [[1, 2, 3, 4]]
    \<and> allBytes old @ allBytes (sfr_retransmissionQueue fr') = allBytes (sfr_retransmissionQueue exFramer)"
proof -
  obtain frames fr' m' f' where r: "PopStreamFrames exEnv 10 exFramer exWriting exOpened = (frames, fr', m', f')"
    by (metis prod.exhaust)
  have "map fst (map (\<lambda>frame. (sf_Data frame, sf_FinBit frame)) frames) = [[1, 2, 3, 4]]"
    using exFramer_split r by simp
  then have "map sf_Data frames = [[1, 2, 3, 4]]" by (simp add: comp_def)
  then show ?thesis using PopStreamFrames_conserves [OF r exFramer_ok] r by auto
qed


end
