(* ===== verification/Spec2Isabelle.thy ===== *)
theory Spec2Isabelle
  imports Unpacker ReceivedHandler FlowControlLive FrameSorter SendAlgorithms StreamFramer
begin

text \<open>
  \<^bold>\<open>Verification of the MPQUIC transport of AggDeliv\<close>

  \<^bold>\<open>The program.\<close> \<open>src/mpquic_trans\<close> is a multipath QUIC transport in Go with a live streaming proxy
  on top of it; \<open>src/packet_scheduling\<close> is a learning agent in Python that advises the scheduler. A
  session (\<open>session.go\<close>) owns the streams (\<open>stream.go\<close>, \<open>streams_map.go\<close>), the flow control manager
  (\<open>internal/flowcontrol\<close>) and the paths. Outgoing data goes from \<open>stream.Write\<close> through the stream
  framer (\<open>stream_framer.go\<close>) into frames (\<open>internal/wire\<close>), which the packer puts into packets; the
  sent packet handler of the path (\<open>ackhandler\<close>) tracks the packets and asks the congestion controller
  (\<open>congestion\<close>) how many may be in flight. Incoming packets go through the public header and the
  unpacker (\<open>packet_unpacker.go\<close>); the received packet handler decides on ACKs; STREAM frames go to
  the frame sorter (\<open>stream_frame_sorter.go\<close>) of their stream and on to \<open>stream.Read\<close>.

  \<^bold>\<open>How the code is translated.\<close> Go integers are words of their width, with Go's wrap-around;
  durations and times are integers in nanoseconds, the zero time is 0. A struct is a record, and the
  fields that point to shared objects are arguments and results of the operations. A function that
  can fail returns \<open>go_error + 'a\<close> or a pair of the new state and an optional error; a panic is an
  error \<open>Panic\<close>. Readers are byte lists. Go maps are association lists; where the order of an
  iteration over a map matters it is an argument. Clock readings, random numbers, the AEAD and
  callbacks are arguments. A method that waits on a condition variable is split at the wait. \<open>float32\<close>
  and \<open>float64\<close> operations are rounded one by one (theory \<open>GoFloat\<close>). Loops are recursive functions
  with a termination proof; the two loops for which termination is a property of reachable states
  (\<open>readLoop\<close> of \<open>stream.Read\<close> and \<open>estimateLoop\<close> of the cubic window) are partial functions into \<open>option\<close>,
  and it is proved that they return; no fuel is used.

  \<^bold>\<open>The theories.\<close>

  \<^item> \<open>Prelude\<close>: integer types, errors, readers, the combinators \<open>andThen\<close> and \<open>okThen\<close>, lemmas on lists and
    words. \<open>Protocol\<close>: \<open>internal/protocol\<close> and \<open>internal/utils/minmax.go\<close>; \<open>InferPacketNumber\<close> recovers
    truncated packet numbers, and version selection returns the preferred shared version.
    \<open>ByteOrder\<close>: the two byte orders and \<open>float16.go\<close>; the locale \<open>byte_order\<close> is interpreted on both.
  \<^item> \<open>Frames\<close>, \<open>WireStream\<close>, \<open>WireAckBlocks\<close>, \<open>WireAck\<close>: \<open>Write\<close>, \<open>Parse\<close> and \<open>MinLength\<close> of all frames of
    \<open>internal/wire\<close>. The locale \<open>frame_codec\<close> states what a frame type promises (round trip, length) and
    is interpreted for each; \<open>number_codec\<close> is the same for numbers of variable length. Parsers
    accept only well-formed frames.
  \<^item> \<open>PublicHeader\<close>: public headers, version negotiation, public reset; a packet number survives
    truncation, transport and inference. \<open>Handshake\<close>: handshake messages. \<open>Qerr\<close>: error texts.
  \<^item> \<open>Unpacker\<close>: \<open>Frame\<close> as the sum of all frames, writing a list of them and \<open>packetUnpacker.Unpack\<close>;
    the payload written for a list of frames is unpacked into these frames.
  \<^item> \<open>ReceivedHistory\<close>, \<open>ReceivedHandler\<close>: the interval list of received packets refines a set of numbers
    (locale \<open>packet_set\<close>), ACK frames acknowledge exactly what was received, in time.
  \<^item> \<open>GoFloat\<close>, \<open>RTTStats\<close>: rounding and \<open>congestion/rtt_stats.go\<close>; the float arithmetic of the smoothed RTT
    equals integer arithmetic in a stated range.
  \<^item> \<open>ConnectionParams\<close>: negotiation in \<open>connection_parameters_manager.go\<close>; both ends agree.
  \<^item> \<open>FlowControl\<close>, \<open>FlowControlLive\<close>: \<open>internal/flowcontrol\<close>. The relation \<open>flow\<close> has the error-free runs
    of a manager; the lemmas give the accounting invariants, the limits on sending, and that window
    updates never leave a sender blocked.
  \<^item> \<open>SentHandler\<close>, \<open>SentTracking\<close>: \<open>sent_packet_handler.go\<close>, \<open>packet.go\<close>, \<open>stop_waiting_manager.go\<close> for an
    arbitrary congestion controller (a record of functions): every packet is accounted for.
  \<^item> \<open>Congestion\<close>, \<open>Cubic\<close>, \<open>Olia\<close>, \<open>SendAlgorithms\<close>: the two congestion controllers. The locale
    \<open>send_algorithm\<close> is the contract of \<open>congestion.SendAlgorithm\<close>, interpreted on both, and gives
    bounds on the windows and that lost data is sent again.
  \<^item> \<open>FrameSorter\<close>: \<open>stream_frame_sorter.go\<close>; data is delivered in order however it was cut.
  \<^item> \<open>StreamIO\<close>: \<open>stream.go\<close>. Reading composes the sorter and flow control; writing hands out exactly the
    bytes written; flags and errors of a stream are final.
  \<^item> \<open>StreamsMap\<close>: \<open>streams_map.go\<close> over the locale \<open>stream_maker\<close>, interpreted on \<open>session.newStream\<close>.
  \<^item> \<open>StreamFramer\<close>: \<open>stream_framer.go\<close>. The locale \<open>round_robin_client\<close> says that an invariant of the
    function passed to \<open>RoundRobinIterate\<close> is an invariant of the round; it is interpreted on the
    function that takes data from a stream.

  \<^bold>\<open>Bounds.\<close> Lemmas that add lengths assume data of less than \<open>2 ^ 64\<close> bytes and room of less than \<open>2 ^ 63\<close>
  bytes, so that the additions of the code do not wrap around; packets have at most \<open>MaxPacketSize\<close>
  (1350) bytes. Packet number truncation assumes that fewer numbers are outstanding than the length
  chosen by \<open>GetPacketNumberLengthForPublicHeader\<close> covers. The float lemmas assume RTTs below \<open>2 ^ 21\<close>
  microseconds.

  \<^bold>\<open>Not modelled.\<close> The event loops of \<open>session.go\<close>, \<open>server.go\<close>, \<open>client.go\<close>, \<open>pconn_manager.go\<close> and
  \<open>h2quic\<close> are goroutines around sockets and channels; \<open>scheduler.go\<close> calls a remote learning agent
  over gRPC, and \<open>src/packet_scheduling\<close> is that agent, built on a neural network library. \<open>internal/crypto\<close>
  and the crypto set-ups are wrappers of cryptographic libraries and enter the model as parameters.
  The live proxy (\<open>liveproxy\<close>, \<open>qproxy\<close>) and the examples are applications of the transport. \<open>internal/mocks\<close>
  and \<open>data_trans_demo\<close> are generated.
\<close>

end
